(* ===== verification/Prelude.thy ===== *)
theory Prelude
  imports Main "HOL-Library.Word"
begin

text \<open>
  Shared vocabulary of the development: the machine types of the Go program, the error values
  its functions return, byte buffers and the readers over them, and the generic lemmas on
  words, wrap-around and sums that the component theories use.

  \<^item> A Go \<^verbatim>\<open>byte\<close> or \<^verbatim>\<open>uint8\<close> is an \<open>8 word\<close>, a \<^verbatim>\<open>uint64\<close> a \<open>64 word\<close>; shifts by 64 or more
    give 0 in Go and in HOL alike.
  \<^item> A Go \<^verbatim>\<open>int\<close> (the type \<^verbatim>\<open>Number\<close> of \<^verbatim>\<open>crdt\<close>) or \<^verbatim>\<open>int64\<close> is an \<open>int\<close> in the range of
    \<open>int64_ok\<close>; arithmetic that can leave the range is written with \<open>wrap64\<close>. The build target
    is 64 bits wide.
  \<^item> A Go string and a \<^verbatim>\<open>[]byte\<close> are byte lists. A \<^verbatim>\<open>bytes.Buffer\<close> that is read is the list of its
    unread bytes, one that is written is the list of the bytes written so far.
  \<^item> A function that returns a value and an error returns a sum, \<open>Inl\<close> for the error. Errors
    that wrap a cause (\<^verbatim>\<open>fmt.Errorf\<close> with \<^verbatim>\<open>%w\<close>) keep the cause; message texts are not modelled.
    A reader also returns the buffer it leaves behind, on the error path too.
\<close>

unbundle bit_operations_syntax

named_theorems wrap_simps \<open>arithmetic of int64 inside its range\<close>
named_theorems roundtrip_simps \<open>reading back what was written\<close>
named_theorems append_simps \<open>writers only append to their buffer\<close>

section \<open>Machine types\<close>

type_synonym byte = "8 word"
type_synonym uint64 = "64 word"
type_synonym Number = int
type_synonym gostring = "byte list"

definition MaxInt :: int where
  "MaxInt = 9223372036854775807"

definition MinInt :: int where
  "MinInt = - 9223372036854775808"

definition int64_ok :: "int \<Rightarrow> bool" where
  "int64_ok x \<longleftrightarrow> MinInt \<le> x \<and> x \<le> MaxInt"

definition wrap64 :: "int \<Rightarrow> int" where
  "wrap64 x = signed_take_bit 63 x"

section \<open>Errors\<close>

datatype go_error =
    EOF | UnexpectedEOF | VarintOverflow | NumberOverflow | BufferNotEnough
  | DepthExceeded | TagOutOfRange | LengthExceedsRemaining
  | RunTooLong | MagnitudeOverflow | AccumulatorOverflow | DiffOutOfRange
  | StringOverrun | InvalidDeleteLength | InvalidKeyClock
  | ShortMessage | InvalidMessageType | InvalidSyncMessageType | NotFound
  | MalformedMessage | NilEncoder | EmptyAwareness | MalformedAwarenessState | TruncatedAwarenessFrame
  | UnsupportedDataValue | InvalidJSON | GoPanic
  | StructCountExceeded | DecodeStalled | UnreadBlock | ArrayLengthExceeded | ContentRefOutOfRange | UnexpectedContent
  | TypeRefOutOfRange | OptsNotObject | InvalidParent | OffsetTooLarge

type_synonym ('s, 'a) fallible = "'s \<Rightarrow> (go_error + 'a) \<times> 's"
type_synonym 'a reader = "(byte list, 'a) fallible"

text \<open>The Go sequence \<^verbatim>\<open>v, err := m(); if err != nil { return err }; f(v)\<close>.\<close>

definition rbind :: "('s, 'a) fallible \<Rightarrow> ('a \<Rightarrow> ('s, 'b) fallible) \<Rightarrow> ('s, 'b) fallible" where
  "rbind m f = (\<lambda>buf. case m buf of (Inl e, buf') \<Rightarrow> (Inl e, buf') | (Inr v, buf') \<Rightarrow> f v buf')"

definition rret :: "'a \<Rightarrow> ('s, 'a) fallible" where
  "rret v = (\<lambda>buf. (Inr v, buf))"

definition rfail :: "go_error \<Rightarrow> ('s, 'a) fallible" where
  "rfail e = (\<lambda>buf. (Inl e, buf))"

definition lift_result :: "go_error + 'a \<Rightarrow> ('s, 'a) fallible" where
  "lift_result r = (\<lambda>buf. (r, buf))"

lemma rbind_Inr [simp]: "m buf = (Inr v, buf') \<Longrightarrow> rbind m f buf = f v buf'"
  by (simp add: rbind_def)

lemma rbind_Inl [simp]: "m buf = (Inl e, buf') \<Longrightarrow> rbind m f buf = (Inl e, buf')"
  by (simp add: rbind_def)

lemma rbind_InrE:
  assumes "rbind m f s = (Inr v, s')"
  obtains w s1 where "m s = (Inr w, s1)" "f w s1 = (Inr v, s')"
  using assms by (auto simp: rbind_def split: prod.splits sum.splits)

lemma rret_apply [simp]: "rret v buf = (Inr v, buf)"
  by (simp add: rret_def)

lemma rfail_apply [simp]: "rfail e buf = (Inl e, buf)"
  by (simp add: rfail_def)

lemma lift_result_apply [simp]: "lift_result r buf = (r, buf)"
  by (simp add: lift_result_def)

text \<open>A reader consumes a prefix of its buffer and nothing else.\<close>

definition consumes :: "'a reader \<Rightarrow> bool" where
  "consumes m \<longleftrightarrow> (\<forall>buf. \<exists>pre. buf = pre @ snd (m buf))"

lemma consumesI: "(\<And>buf. \<exists>pre. buf = pre @ snd (m buf)) \<Longrightarrow> consumes m"
  by (simp add: consumes_def)

lemma consumesD: "consumes m \<Longrightarrow> m buf = (r, buf') \<Longrightarrow> \<exists>pre. buf = pre @ buf'"
  by (metis consumes_def snd_conv)

lemma consumes_length: "consumes m \<Longrightarrow> m buf = (r, buf') \<Longrightarrow> length buf' \<le> length buf"
  by (drule (1) consumesD) auto

lemma ex_drop_prefix [intro, simp]: "\<exists>pre. buf = pre @ drop n buf"
  by (metis append_take_drop_id)

lemma consumes_rret [intro, simp]: "consumes (rret v)"
  by (simp add: consumes_def)

lemma consumes_rfail [intro, simp]: "consumes (rfail e)"
  by (simp add: consumes_def)

lemma consumes_lift [intro, simp]: "consumes (lift_result r)"
  by (simp add: consumes_def)

lemma consumes_rbind [intro]:
  assumes m: "consumes m" and f: "\<And>v. consumes (f v)"
  shows "consumes (rbind m f)"
proof (rule consumesI)
  fix buf
  obtain r buf1 where r: "m buf = (r, buf1)" by (cases "m buf") auto
  with m obtain p1 where p1: "buf = p1 @ buf1" by (blast dest: consumesD)
  show "\<exists>pre. buf = pre @ snd (rbind m f buf)"
  proof (cases r)
    case (Inl e)
    with r p1 show ?thesis by (auto simp: rbind_def)
  next
    case (Inr v)
    obtain p2 where "buf1 = p2 @ snd (f v buf1)"
      using f [of v] unfolding consumes_def by blast
    with p1 have "buf = (p1 @ p2) @ snd (f v buf1)" by simp
    moreover from r Inr have "rbind m f buf = f v buf1" by simp
    ultimately show ?thesis by (intro exI [of _ "p1 @ p2"]) simp
  qed
qed

text \<open>A reader that succeeds does not look past the bytes it consumes.\<close>

definition stable :: "'a reader \<Rightarrow> bool" where
  "stable m \<longleftrightarrow> (\<forall>buf v r t. m buf = (Inr v, r) \<longrightarrow> m (buf @ t) = (Inr v, r @ t))"

lemma stableI: "(\<And>buf v r t. m buf = (Inr v, r) \<Longrightarrow> m (buf @ t) = (Inr v, r @ t)) \<Longrightarrow> stable m"
  by (simp add: stable_def)

lemma stableD: "stable m \<Longrightarrow> m buf = (Inr v, r) \<Longrightarrow> m (buf @ t) = (Inr v, r @ t)"
  by (simp add: stable_def)

lemma stable_rret [intro, simp]: "stable (rret v)" and stable_lift [intro, simp]: "stable (lift_result r)"
  by (simp_all add: stable_def)

lemma stable_rbind [intro]: "stable m \<Longrightarrow> (\<And>v. stable (f v)) \<Longrightarrow> stable (rbind m f)"
  by (rule stableI, erule rbind_InrE) (simp add: stableD [of m] stableD [of "f _"])

lemma stable_strict_prefix:
  assumes "stable m" "m (p @ t) = (Inr v, [])" "t \<noteq> []"
  shows "\<exists>e. fst (m p) = Inl e"
proof (cases "m p")
  case (Pair r buf)
  with assms show ?thesis by (cases r) (auto dest: stableD [where t = t])
qed

section \<open>Wrap-around\<close>

lemma wrap64_in_range [wrap_simps]: "int64_ok x \<Longrightarrow> wrap64 x = x"
  unfolding wrap64_def int64_ok_def MinInt_def MaxInt_def
  by (rule signed_take_bit_int_eq_self) simp_all

lemma int64_ok_wrap64 [simp]: "int64_ok (wrap64 x)"
  unfolding wrap64_def int64_ok_def MinInt_def MaxInt_def
  using signed_take_bit_int_greater_eq_minus_exp [of 63 x] signed_take_bit_int_less_exp [of 63 x]
  by simp

lemma sint_word_of_int_64: "sint (word_of_int x :: uint64) = wrap64 x"
  by (simp add: wrap64_def sint_word_ariths sint_sbintrunc')

lemma sint_int64_ok [simp]: "int64_ok (sint (w :: uint64))"
  using int64_ok_wrap64 [of "uint w"] by (simp add: wrap64_def sint_uint)

lemma uint_word_of_int_64: "0 \<le> x \<Longrightarrow> x \<le> MaxInt \<Longrightarrow> uint (word_of_int x :: uint64) = x"
  by (simp add: MaxInt_def uint_word_of_int)

lemma sint_of_small: "uint (w :: uint64) \<le> MaxInt \<Longrightarrow> sint w = uint w"
proof -
  assume "uint w \<le> MaxInt"
  then have "signed_take_bit 63 (uint w) = uint w"
    by (intro signed_take_bit_int_eq_self) (simp_all add: MaxInt_def order_trans [OF _ uint_ge_0])
  then show ?thesis by (simp add: sint_uint)
qed

section \<open>Words\<close>

lemma bit_mask_numerals [simp]:
  "bit (63 :: int) n \<longleftrightarrow> n < 6" "bit (127 :: int) n \<longleftrightarrow> n < 7"
proof -
  have "(63 :: int) = mask 6" "(127 :: int) = mask 7" by (simp_all add: mask_eq_exp_minus_1)
  then show "bit (63 :: int) n \<longleftrightarrow> n < 6" "bit (127 :: int) n \<longleftrightarrow> n < 7"
    by (simp_all only: bit_mask_iff) simp_all
qed

lemma bit_flag_numerals [simp]:
  "bit (64 :: int) n \<longleftrightarrow> n = 6" "bit (128 :: int) n \<longleftrightarrow> n = 7"
proof -
  have "(64 :: int) = 2 ^ 6" "(128 :: int) = 2 ^ 7" by simp_all
  then show "bit (64 :: int) n \<longleftrightarrow> n = 6" "bit (128 :: int) n \<longleftrightarrow> n = 7"
    by (simp_all only: bit_exp_iff) auto
qed

lemma byte_less_128: "(b :: byte) < 0x80 \<longleftrightarrow> \<not> bit b 7"
proof -
  have "bit b 7 = bit (unat b) 7" by (simp add: bit_unsigned_iff)
  moreover have "bit (unat b) 7 \<longleftrightarrow> 128 \<le> unat b"
  proof -
    have "unat b < 256" using unsigned_less [of b, where 'a = nat] by simp
    then have "unat b div 128 = (if 128 \<le> unat b then 1 else 0)" by auto
    then show ?thesis by (simp add: bit_iff_odd)
  qed
  ultimately show ?thesis by (auto simp: word_less_nat_alt)
qed

lemma byte_and_128: "(b :: byte) AND 0x80 = 0 \<longleftrightarrow> \<not> bit b 7"
  by (auto simp: bit_eq_iff [where 'a = byte] bit_simps dest: spec [of _ 7])

lemma byte_and_64: "(b :: byte) AND 0x40 > 0 \<longleftrightarrow> bit b 6"
  by (auto simp: word_gt_0 bit_eq_iff [where 'a = byte] bit_simps)

lemma take_bit_eq_self_iff_less:
  "take_bit n (v :: uint64) = v \<longleftrightarrow> drop_bit n v = 0"
proof
  assume "take_bit n v = v"
  then show "drop_bit n v = 0" by (metis bits_ident add_cancel_right_left push_bit_eq_0_iff
      drop_bit_take_bit diff_self_eq_0 take_bit_0)
next
  assume "drop_bit n v = 0"
  then show "take_bit n v = v" by (metis bits_ident add_0 push_bit_of_0)
qed

lemma unat_ucast_byte: "unat (ucast (v :: uint64) :: byte) = unat v mod 256"
  by (simp add: unsigned_ucast_eq take_bit_eq_mod)

lemma unat_ucast_byte64: "unat (ucast (b :: byte) :: uint64) = unat b"
  using unsigned_less [of b, where 'a = nat] by (simp add: unsigned_ucast_eq take_bit_eq_mod)

lemma ucast_ucast_byte: "unat v < 256 \<Longrightarrow> ucast (ucast v :: byte) = (v :: uint64)"
  by (simp add: word_unat_eq_iff unat_ucast_byte64 unat_ucast_byte)

lemma unat_drop_bit: "unat (drop_bit n (v :: uint64)) = unat v div 2 ^ n"
  by (subst unat_drop_bit_eq) (rule drop_bit_eq_div)

lemma uint_drop_bit: "uint (drop_bit n (v :: uint64)) = drop_bit n (uint v)"
  by (rule bit_eqI) (simp add: bit_unsigned_iff bit_drop_bit_eq)

lemma uint_ucast_byte64: "uint (ucast (b :: byte) :: uint64) = uint b"
  by (metis of_nat_unat unat_ucast_byte64)

lemma drop_bit_le_self: "0 \<le> (n :: int) \<Longrightarrow> drop_bit k n \<le> n"
  unfolding drop_bit_eq_div by (rule zdiv_mono2 [where b' = 1, simplified]) auto

lemma drop_bit_eq_0: "drop_bit n (v :: uint64) = 0 \<longleftrightarrow> unat v < 2 ^ n"
  by (simp add: unat_eq_zero [symmetric] unat_drop_bit div_eq_0_iff)

lemma not_bit_of_less: "unat (v :: 'a::len word) < 2 ^ n \<Longrightarrow> n \<le> k \<Longrightarrow> \<not> bit v k"
proof -
  assume v: "unat v < 2 ^ n" and "n \<le> k"
  then have "unat v < 2 ^ k" by (meson less_le_trans one_le_numeral power_increasing)
  then have "\<not> bit (unat v) k" by (simp add: bit_iff_odd)
  then show "\<not> bit v k" by (auto simp: bit_unsigned_iff dest: bit_imp_le_length)
qed

lemma unat_take_bit_le: "unat (take_bit n (v :: 'a::len word)) \<le> unat v"
  by (subst unsigned_take_bit_eq) (rule take_bit_nat_less_eq_self)

lemma unat_drop_bit_7: "unat (drop_bit 7 (v :: uint64)) = unat v div 128"
  by (simp add: unat_drop_bit_eq drop_bit_eq_div unat_div)

lemma drop_bit_7_less: "128 \<le> v \<Longrightarrow> unat (drop_bit 7 (v :: uint64)) < unat v"
  by (simp add: unat_drop_bit_7 word_le_nat_alt)

lemma or_push_split:
  "(x OR push_bit s (take_bit n v)) OR push_bit (s + n) (drop_bit n v) = x OR push_bit s (v :: uint64)"
proof (rule bit_word_eqI)
  fix k :: nat
  assume "k < LENGTH(64)"
  then show "bit ((x OR push_bit s (take_bit n v)) OR push_bit (s + n) (drop_bit n v)) k
      = bit (x OR push_bit s v) k"
    by (cases "k < s + n") (auto simp: bit_simps)
qed

end
