(* ===== verification/Lib0.thy ===== *)
theory Lib0
  imports Prelude
begin

text \<open>
  The byte primitives: \<^verbatim>\<open>internal/lib0/codec.go\<close>, the scalar readers and writers of
  \<^verbatim>\<open>crdt/encoding.go\<close> and \<^verbatim>\<open>crdt/decoding.go\<close>, the sign-and-magnitude varints of
  \<^verbatim>\<open>crdt/codec_varint.go\<close>, the slice-backed writers of \<^verbatim>\<open>crdt/update_encoder.go\<close> and the number
  bounds of \<^verbatim>\<open>crdt/merge.go\<close>. The Go library functions \<^verbatim>\<open>binary.ReadUvarint\<close> and
  \<^verbatim>\<open>binary.BigEndian\<close> they call are modelled from the language's library.
\<close>

section \<open>Definitions\<close>

subsection \<open>Unsigned varints\<close>

text \<open>\<open>bytes.Buffer.ReadByte\<close>.\<close>

definition ReadByte :: "byte reader" where
  "ReadByte buf = (case buf of [] \<Rightarrow> (Inl EOF, []) | b # buf' \<Rightarrow> (Inr b, buf'))"

function WriteVarUint :: "byte list \<Rightarrow> uint64 \<Rightarrow> byte list" where
  "WriteVarUint dst value =
     (if value \<ge> 0x80 then WriteVarUint (dst @ [ucast value OR 0x80]) (drop_bit 7 value)
      else dst @ [ucast value])"
  by pat_completeness auto
termination
  by (relation "measure (\<lambda>(dst, value). unat value)") (auto simp: drop_bit_7_less)

text \<open>The loop of \<open>binary.ReadUvarint\<close>: \<open>i\<close> bytes read, \<open>x\<close> accumulated, \<open>s\<close> the shift.\<close>

fun ReadUvarint_loop :: "nat \<Rightarrow> uint64 \<Rightarrow> nat \<Rightarrow> uint64 reader" where
  "ReadUvarint_loop i x s [] =
     (if i < 10 then (Inl (if i > 0 then UnexpectedEOF else EOF), []) else (Inl VarintOverflow, []))"
| "ReadUvarint_loop i x s (b # buf) =
     (if i < 10
      then if b < 0x80
           then if i = 9 \<and> b > 1 then (Inl VarintOverflow, buf)
                else (Inr (x OR push_bit s (ucast b)), buf)
           else ReadUvarint_loop (Suc i) (x OR push_bit s (ucast (b AND 0x7f))) (s + 7) buf
      else (Inl VarintOverflow, b # buf))"

definition ReadVarUint :: "uint64 reader" where
  "ReadVarUint = ReadUvarint_loop 0 0 0"

text \<open>\<open>varUintEncodedLen\<close> and the unrolled \<open>appendVarUint\<close> of the fast encoders.\<close>

function varUintEncodedLen_loop :: "nat \<Rightarrow> uint64 \<Rightarrow> nat" where
  "varUintEncodedLen_loop len value =
     (if value \<ge> 0x80 then varUintEncodedLen_loop (Suc len) (drop_bit 7 value) else len)"
  by pat_completeness auto
termination
  by (relation "measure (\<lambda>(len, value). unat value)") (auto simp: drop_bit_7_less)

definition varUintEncodedLen :: "uint64 \<Rightarrow> nat" where
  "varUintEncodedLen value = varUintEncodedLen_loop 1 value"

function appendVarUint_loop :: "byte list \<Rightarrow> uint64 \<Rightarrow> byte list" where
  "appendVarUint_loop dst number =
     (if number \<ge> 0x80
      then appendVarUint_loop (dst @ [ucast number OR 0x80]) (drop_bit 7 number)
      else dst @ [ucast number])"
  by pat_completeness auto
termination
  by (relation "measure (\<lambda>(dst, number). unat number)") (auto simp: drop_bit_7_less)

definition appendVarUint :: "byte list \<Rightarrow> uint64 \<Rightarrow> byte list" where
  "appendVarUint dst number =
     (if number < 0x80 then dst @ [ucast number]
      else if number < 0x4000 then dst @ [ucast number OR 0x80, ucast (drop_bit 7 number)]
      else appendVarUint_loop dst number)"

subsection \<open>Byte arrays and strings\<close>

definition len64 :: "byte list \<Rightarrow> uint64" where
  "len64 buf = of_nat (length buf)"

definition WriteVarUint8Array :: "byte list \<Rightarrow> byte list \<Rightarrow> byte list" where
  "WriteVarUint8Array dst value = WriteVarUint dst (len64 value) @ value"

definition ReadVarUint8Array :: "byte list reader" where
  "ReadVarUint8Array = rbind ReadVarUint (\<lambda>size src.
     if unat size > length src then (Inl UnexpectedEOF, [])
     else (Inr (take (unat size) src), drop (unat size) src))"

definition WriteString :: "byte list \<Rightarrow> gostring \<Rightarrow> byte list" where
  "WriteString dst value =
     (let dst' = WriteVarUint dst (len64 value)
      in if length value = 1 then dst' @ [value ! 0] else dst' @ value)"

definition ReadString :: "gostring reader" where
  "ReadString = rbind ReadVarUint (\<lambda>size src.
     if size = 0 then (Inr [], src)
     else if unat size > length src then (Inl BufferNotEnough, src)
     else (Inr (take (unat size) src), drop (unat size) src))"

text \<open>\<open>appendString\<close> of the fast V1 encoder.\<close>

definition appendString :: "byte list \<Rightarrow> gostring \<Rightarrow> byte list" where
  "appendString dst value = appendVarUint dst (len64 value) @ value"

definition boundExceeded :: "uint64 \<Rightarrow> int \<Rightarrow> int \<Rightarrow> bool" where
  "boundExceeded count remaining minBytesPerElem =
     (let minBytes = (if minBytesPerElem < 1 then 1 else minBytesPerElem);
          rem = (if remaining < 0 then 0 else remaining)
      in count > word_of_int (rem div minBytes))"

subsection \<open>Signed varints\<close>

text \<open>
  \<open>writeVarInt\<close> takes an \<open>int\<close>; negation wraps, so the least \<open>int\<close> stays negative and the loop
  does not run for it. The comparisons and shifts are those of Go's signed \<open>int\<close>.
\<close>

function writeVarInt_loop :: "byte list \<Rightarrow> int \<Rightarrow> byte list" where
  "writeVarInt_loop dst number =
     (if number > 0
      then writeVarInt_loop
             (dst @ [(if number > 127 then 0x80 else 0) OR word_of_int (127 AND number)])
             (drop_bit 7 number)
      else dst)"
  by pat_completeness auto
termination
  by (relation "measure (\<lambda>(dst, number). nat number)") (auto simp: drop_bit_eq_div)

definition writeVarInt :: "byte list \<Rightarrow> int \<Rightarrow> byte list" where
  "writeVarInt dst number =
     (let (bitSign, n) = (if number < 0 then (0x40, wrap64 (- number)) else (0 :: byte, number));
          bitNext = (if n > 63 then 0x80 else 0 :: byte)
      in writeVarInt_loop (dst @ [(bitNext OR bitSign) OR word_of_int (63 AND n)]) (drop_bit 6 n))"

text \<open>\<open>readVarInt\<close>; \<open>sign * Number(n)\<close> is a product of \<open>int\<close>s.\<close>

fun readVarInt_loop :: "nat \<Rightarrow> int \<Rightarrow> uint64 \<Rightarrow> nat \<Rightarrow> int reader" where
  "readVarInt_loop i sign n s [] =
     (if i < 10 then (Inl EOF, []) else (Inl VarintOverflow, []))"
| "readVarInt_loop i sign n s (b # buf) =
     (if i < 10
      then if b < 0x80
           then if i = 9 \<and> b > 1 then (Inl VarintOverflow, buf)
                else (Inr (wrap64 (sign * sint (n OR push_bit s (ucast b)))), buf)
           else readVarInt_loop (Suc i) sign (n OR push_bit s (ucast (b AND 0x7f))) (s + 7) buf
      else (Inl VarintOverflow, b # buf))"

definition readVarInt :: "int reader" where
  "readVarInt = rbind ReadByte (\<lambda>data.
     let number = data AND 63; sign = (if data AND 0x40 > 0 then - 1 else 1)
     in if data AND 0x80 = 0 then rret (sign * uint number)
        else readVarInt_loop 0 sign (ucast number) 6)"

text \<open>The sign-and-magnitude varints of the column codecs.\<close>

function writeVarIntMag_loop :: "byte list \<Rightarrow> uint64 \<Rightarrow> byte list" where
  "writeVarIntMag_loop buf num =
     (if num > 0
      then writeVarIntMag_loop
             (buf @ [let b = ucast (127 AND num) in if num > 127 then b OR 0x80 else b])
             (drop_bit 7 num)
      else buf)"
  by pat_completeness auto
termination
  by (relation "measure (\<lambda>(buf, num). unat num)")
    (auto simp: unat_drop_bit_7 word_less_nat_alt)

definition writeVarIntMag :: "byte list \<Rightarrow> uint64 \<Rightarrow> bool \<Rightarrow> byte list" where
  "writeVarIntMag buf num negative =
     (let first = ucast (63 AND num);
          first = (if num > 63 then first OR 0x80 else first);
          first = (if negative then first OR 0x40 else first)
      in writeVarIntMag_loop (buf @ [first]) (drop_bit 6 num))"

definition writeVarIntSigned :: "byte list \<Rightarrow> int \<Rightarrow> byte list" where
  "writeVarIntSigned buf num =
     (let negative = num < 0; n = (if negative then wrap64 (- num) else num)
      in writeVarIntMag buf (word_of_int n) negative)"

definition appendVarIntMag :: "byte list \<Rightarrow> uint64 \<Rightarrow> bool \<Rightarrow> byte list" where
  "appendVarIntMag dst num negative =
     (let first = ucast (63 AND num);
          first = (if negative then first OR 0x40 else first)
      in if num \<le> 63 then dst @ [first]
         else let first = first OR 0x80
              in if num < 0x2000 then dst @ [first, ucast (drop_bit 6 num)]
                 else writeVarIntMag_loop (dst @ [first, ucast (drop_bit 6 num) OR 0x80])
                        (drop_bit 13 num))"

fun readVarIntSigned_loop :: "nat \<Rightarrow> uint64 \<Rightarrow> nat \<Rightarrow> bool \<Rightarrow> (uint64 \<times> bool) reader" where
  "readVarIntSigned_loop i num shift negative [] =
     (if i < 9 then (Inl EOF, []) else (Inl VarintOverflow, []))"
| "readVarIntSigned_loop i num shift negative (r # buf) =
     (if i < 9
      then let chunk = ucast (r AND 127) :: uint64
           in if shift \<ge> 64 \<or> drop_bit (64 - shift) chunk \<noteq> 0 then (Inl VarintOverflow, buf)
              else let num' = num + push_bit shift chunk
                   in if r < 0x80 then (Inr (num', negative), buf)
                      else readVarIntSigned_loop (Suc i) num' (shift + 7) negative buf
      else (Inl VarintOverflow, r # buf))"

definition readVarIntSigned :: "(uint64 \<times> bool) reader" where
  "readVarIntSigned = rbind ReadByte (\<lambda>r.
     let num = ucast (r AND 63); negative = (r AND 0x40 > 0)
     in if r AND 0x80 = 0 then rret (num, negative)
        else readVarIntSigned_loop 0 num 6 negative)"

subsection \<open>Fixed-width integers\<close>

text \<open>\<open>binary.BigEndian.PutUint32/64\<close> and their inverses, for a width of \<open>n\<close> bytes.\<close>

definition PutUint :: "nat \<Rightarrow> uint64 \<Rightarrow> byte list" where
  "PutUint n v = map (\<lambda>i. ucast (drop_bit (8 * (n - 1 - i)) v)) [0..<n]"

definition Uint :: "byte list \<Rightarrow> uint64" where
  "Uint bs = foldl (\<lambda>v b. push_bit 8 v OR ucast b) 0 bs"

definition readFixedWidth :: "nat \<Rightarrow> byte list reader" where
  "readFixedWidth n decoder =
     (if length decoder < n then (Inl UnexpectedEOF, decoder)
      else (Inr (take n decoder), drop n decoder))"

definition writeInt64 :: "byte list \<Rightarrow> int \<Rightarrow> byte list" where
  "writeInt64 dst n = dst @ PutUint 8 (word_of_int n)"

definition readBigInt64 :: "int reader" where
  "readBigInt64 = rbind (readFixedWidth 8) (\<lambda>bs. rret (sint (Uint bs)))"

subsection \<open>Bounds on decoded numbers\<close>

definition maxSafeInteger :: int where
  "maxSafeInteger = 9007199254740991"

definition toNumber :: "uint64 \<Rightarrow> go_error + Number" where
  "toNumber v =
     (if v > word_of_int maxSafeInteger \<or> (word_of_int (sint v) :: uint64) \<noteq> v
      then Inl NumberOverflow else Inr (sint v))"

definition nonNegNumber :: "int \<Rightarrow> go_error + Number" where
  "nonNegNumber v = (if v < 0 \<or> v > maxSafeInteger then Inl NumberOverflow else Inr v)"

definition addBounded :: "Number \<Rightarrow> Number \<Rightarrow> go_error + Number" where
  "addBounded a b =
     (if b > wrap64 (MaxInt - a) then Inl NumberOverflow else Inr (wrap64 (a + b)))"

definition addClock :: "Number \<Rightarrow> Number \<Rightarrow> go_error + Number" where
  "addClock clock delta = addBounded clock delta"

definition addClockSaturating :: "Number \<Rightarrow> Number \<Rightarrow> Number" where
  "addClockSaturating clock len =
     (if len > wrap64 (MaxInt - clock) then MaxInt else wrap64 (clock + len))"

definition readVarUintAsNumber :: "Number reader" where
  "readVarUintAsNumber = rbind ReadVarUint (\<lambda>n. lift_result (toNumber n))"

declare WriteVarUint.simps [simp del] varUintEncodedLen_loop.simps [simp del]
  appendVarUint_loop.simps [simp del] writeVarInt_loop.simps [simp del]
  writeVarIntMag_loop.simps [simp del]

section \<open>Writers append\<close>

lemma WriteVarUint_append: "WriteVarUint dst v = dst @ WriteVarUint [] v"
proof (induction v arbitrary: dst rule: measure_induct_rule [where f = unat])
  case (less v)
  show ?case
  proof (cases "v \<ge> 0x80")
    case True
    then have IH: "WriteVarUint d (drop_bit 7 v) = d @ WriteVarUint [] (drop_bit 7 v)" for d
      by (rule less.IH [OF drop_bit_7_less])
    from True show ?thesis
      by (simp add: WriteVarUint.simps [of _ v] IH [of "dst @ _"] IH [of "[_]"])
  qed (simp add: WriteVarUint.simps [of _ v])
qed

lemma writeVarIntMag_loop_append: "writeVarIntMag_loop dst v = dst @ writeVarIntMag_loop [] v"
proof (induction v arbitrary: dst rule: measure_induct_rule [where f = unat])
  case (less v)
  show ?case
  proof (cases "v > 0")
    case True
    then have "unat (drop_bit 7 v) < unat v"
      by (simp add: unat_drop_bit_7 word_less_nat_alt)
    then have IH: "writeVarIntMag_loop d (drop_bit 7 v) = d @ writeVarIntMag_loop [] (drop_bit 7 v)" for d
      by (rule less.IH)
    from True show ?thesis
      by (simp add: writeVarIntMag_loop.simps [of _ v] IH [of "dst @ _"] IH [of "[_]"])
  qed (simp add: writeVarIntMag_loop.simps [of _ v])
qed

lemma writeVarInt_loop_append: "writeVarInt_loop dst v = dst @ writeVarInt_loop [] v"
proof (induction v arbitrary: dst rule: measure_induct_rule [where f = nat])
  case (less v)
  show ?case
  proof (cases "v > 0")
    case True
    then have "nat (drop_bit 7 v) < nat v" by (simp add: drop_bit_eq_div)
    then have IH: "writeVarInt_loop d (drop_bit 7 v) = d @ writeVarInt_loop [] (drop_bit 7 v)" for d
      by (rule less.IH)
    from True show ?thesis
      by (simp add: writeVarInt_loop.simps [of _ v] IH [of "dst @ _"] IH [of "[_]"])
  qed (simp add: writeVarInt_loop.simps [of _ v])
qed

lemma appendVarUint_loop_eq: "appendVarUint_loop dst v = WriteVarUint dst v"
  by (induction dst v rule: appendVarUint_loop.induct)
    (simp add: appendVarUint_loop.simps [of _ "_ :: uint64"] WriteVarUint.simps [of _ "_ :: uint64"])

section \<open>Unsigned varint round trip\<close>

lemma ucast_low_byte:
  "ucast ((ucast (v :: uint64) OR 0x80 :: byte) AND 0x7f) = take_bit 7 v"
  by (rule bit_word_eqI) (auto simp: bit_simps)

lemma cont_byte_ge: "\<not> (ucast (v :: uint64) OR 0x80 :: byte) < 0x80"
  by (simp add: byte_less_128 bit_simps)

text \<open>
  The invariant of the decoding loop: after \<open>i\<close> continuation bytes the accumulator holds the low
  \<open>7 * i\<close> bits, and what is still to be decoded fits in the remaining ones.
\<close>

lemma ReadUvarint_loop_WriteVarUint:
  assumes "i \<le> 9" and "drop_bit (64 - 7 * i) v = 0"
  shows "ReadUvarint_loop i x (7 * i) (WriteVarUint [] v @ rest) = (Inr (x OR push_bit (7 * i) v), rest)"
  using assms
proof (induction v arbitrary: i x rule: measure_induct_rule [where f = unat])
  case (less v)
  show ?case
  proof (cases "v \<ge> 0x80")
    case True
    have i: "i < 9"
    proof (rule ccontr)
      assume "\<not> i < 9"
      with less.prems have "i = 9" "drop_bit 1 v = 0" by simp_all
      then have "unat v div 2 = 0" by (metis unat_drop_bit_eq drop_bit_eq_div power_one_right unat_0)
      with True show False by (simp add: word_le_nat_alt)
    qed
    have "drop_bit (64 - 7 * Suc i) (drop_bit 7 v) = 0"
      using less.prems(2) i by simp
    then have IH: "ReadUvarint_loop (Suc i) y (7 * Suc i) (WriteVarUint [] (drop_bit 7 v) @ rest)
        = (Inr (y OR push_bit (7 * Suc i) (drop_bit 7 v)), rest)" for y
      using i by (intro less.IH [OF drop_bit_7_less [OF True]]) simp_all
    have "WriteVarUint [] v = (ucast v OR 0x80) # WriteVarUint [] (drop_bit 7 v)"
      using True by (subst WriteVarUint.simps) (simp add: WriteVarUint_append [of "[_]"])
    then show ?thesis
      using i IH [of "x OR push_bit (7 * i) (take_bit 7 v)"] or_push_split [of x "7 * i" 7 v]
      by (simp add: cont_byte_ge ucast_low_byte add.commute)
  next
    case False
    then have small: "unat v < 128" by (simp add: word_le_nat_alt)
    have w: "WriteVarUint [] v = [ucast v]"
      using False by (subst WriteVarUint.simps) simp
    have u: "(ucast (ucast v :: byte) :: uint64) = v"
      using small by (simp add: ucast_ucast_byte)
    have b: "(ucast v :: byte) < 0x80"
      using small by (simp add: word_less_nat_alt unat_ucast_byte)
    have "\<not> (i = 9 \<and> (ucast v :: byte) > 1)"
      using less.prems(2) small by (auto simp: drop_bit_eq_0 word_less_nat_alt unat_ucast_byte)
    then show ?thesis
      using less.prems(1) b by (auto simp: w u)
  qed
qed

theorem ReadVarUint_WriteVarUint [roundtrip_simps]:
  "ReadVarUint (WriteVarUint [] v @ rest) = (Inr v, rest)"
  using ReadUvarint_loop_WriteVarUint [of 0 v 0 rest]
  by (simp add: ReadVarUint_def drop_bit_eq_0 unsigned_less [of v, where 'a = nat, simplified])

lemma ReadUvarint_loop_consumes: "\<exists>pre. buf = pre @ snd (ReadUvarint_loop i x s buf) \<and> length pre \<le> 10 - i"
proof (induction i x s buf rule: ReadUvarint_loop.induct)
  case (2 i x s b buf)
  show ?case
  proof (cases "i < 10 \<and> \<not> b < 0x80")
    case True
    with "2.IH" obtain pre where
      "buf = pre @ snd (ReadUvarint_loop (Suc i) (x OR push_bit s (ucast (b AND 0x7f))) (s + 7) buf)"
      "length pre \<le> 10 - Suc i" by blast
    with True show ?thesis by (intro exI [of _ "b # pre"]) auto
  next
    case False
    show ?thesis
      by (rule exI [of _ "if i < 10 then [b] else []"]) (use False in auto)
  qed
qed auto

lemma consumes_ReadVarUint [intro, simp]: "consumes ReadVarUint"
  by (rule consumesI) (metis ReadUvarint_loop_consumes ReadVarUint_def)

lemma consumes_ReadByte [intro, simp]: "consumes ReadByte"
  by (rule consumesI) (auto simp: ReadByte_def split: list.splits)

lemma varuint_nonempty: "1 \<le> length (WriteVarUint dst v)"
  by (induction dst v rule: WriteVarUint.induct) (subst WriteVarUint.simps, simp)

lemma boundExceeded_fits:
  assumes "m * n \<le> k" "0 < m" "int k \<le> MaxInt"
  shows "\<not> boundExceeded (of_nat n) (int k) (int m)"
proof -
  have d: "int k div int m \<le> int k" "int n \<le> int k div int m"
    using assms(1,2) by (simp_all add: zdiv_int [symmetric] less_eq_div_iff_mult_less_eq mult.commute)
  have "uint (word_of_int (int k div int m) :: uint64) = int k div int m"
    using assms(2,3) d by (intro uint_word_of_int_64) (linarith, linarith)
  moreover have "uint (of_nat n :: uint64) = int n"
    using assms(3) d by (simp add: unsigned_of_nat take_bit_eq_mod MaxInt_def)
  ultimately show ?thesis using assms(2) d by (simp add: boundExceeded_def word_less_def Let_def)
qed

lemma boundExceeded_mono:
  assumes "boundExceeded n (int k') m" "k \<le> k'" "int k' \<le> MaxInt"
  shows "boundExceeded n (int k) m"
proof -
  let ?m = "if m < 1 then 1 else m"
  have "int k div ?m \<le> int k' div ?m" "0 \<le> int k div ?m" "int k' div ?m \<le> int k'"
    using assms(2) by (auto intro: zdiv_mono1 pos_imp_zdiv_nonneg_iff [THEN iffD2] zdiv_mono2 [where b' = 1, simplified])
  then show ?thesis using assms(1,3)
    by (auto simp: boundExceeded_def word_less_def Let_def uint_word_of_int_64)
qed

lemma ReadUvarint_loop_stable:
  "ReadUvarint_loop i x s buf = (Inr v, r) \<Longrightarrow> ReadUvarint_loop i x s (buf @ t) = (Inr v, r @ t)"
  by (induction i x s buf rule: ReadUvarint_loop.induct) (auto split: if_splits)

lemma stable_ReadVarUint [intro, simp]: "stable ReadVarUint"
  by (rule stableI) (simp add: ReadVarUint_def ReadUvarint_loop_stable)

section \<open>Strings and arrays\<close>

lemma stable_ReadString [intro, simp]: "stable ReadString"
  unfolding ReadString_def by (intro stable_rbind stable_ReadVarUint stableI) (auto split: if_splits)

lemma stable_ReadVarUint8Array [intro, simp]: "stable ReadVarUint8Array"
  unfolding ReadVarUint8Array_def by (intro stable_rbind stable_ReadVarUint stableI) (auto split: if_splits)

lemma unat_len64: "length v < 2 ^ 64 \<Longrightarrow> unat (len64 v) = length v"
  by (simp add: len64_def unsigned_of_nat take_bit_eq_mod)

lemma WriteString_append: "WriteString dst v = dst @ WriteString [] v"
  by (simp add: WriteString_def WriteVarUint_append [of dst] Let_def)

lemma WriteString_eq: "WriteString dst v = WriteVarUint dst (len64 v) @ v"
  by (cases v) (auto simp: WriteString_def Let_def)

lemma WriteVarUint8Array_append: "WriteVarUint8Array dst v = dst @ WriteVarUint8Array [] v"
  by (simp add: WriteVarUint8Array_def WriteVarUint_append [of dst])

lemma ReadString_WriteString [roundtrip_simps]:
  "length v < 2 ^ 64 \<Longrightarrow> ReadString (WriteString [] v @ rest) = (Inr v, rest)"
  by (auto simp: ReadString_def WriteString_eq roundtrip_simps unat_len64 unat_eq_zero [symmetric])

lemma ReadVarUint8Array_WriteVarUint8Array [roundtrip_simps]:
  "length v < 2 ^ 64 \<Longrightarrow> ReadVarUint8Array (WriteVarUint8Array [] v @ rest) = (Inr v, rest)"
  by (simp add: ReadVarUint8Array_def WriteVarUint8Array_def roundtrip_simps unat_len64)

lemma consumes_ReadString [intro, simp]: "consumes ReadString"
  unfolding ReadString_def
proof (rule consumes_rbind)
  show "consumes (\<lambda>src. if size = 0 then (Inr [], src)
      else if length src < unat size then (Inl BufferNotEnough, src)
      else (Inr (take (unat size) src), drop (unat size) src))" for size :: uint64
    by (rule consumesI) auto
qed simp

lemma consumes_ReadVarUint8Array [intro, simp]: "consumes ReadVarUint8Array"
  unfolding ReadVarUint8Array_def
proof (rule consumes_rbind)
  show "consumes (\<lambda>src. if length src < unat size then (Inl UnexpectedEOF, [])
      else (Inr (take (unat size) src), drop (unat size) src))" for size :: uint64
    by (rule consumesI) auto
qed simp

section \<open>The unrolled writers\<close>

lemma appendVarUint_eq: "appendVarUint dst v = WriteVarUint dst v"
proof -
  consider "v < 0x80" | "v \<ge> 0x80" "v < 0x4000" | "v \<ge> 0x4000" by force
  then show ?thesis
  proof cases
    case 1
    then show ?thesis by (subst WriteVarUint.simps) (auto simp: appendVarUint_def)
  next
    case 2
    then have "drop_bit 7 v < 0x80"
      by (simp add: word_less_nat_alt unat_drop_bit_7)
    with 2 show ?thesis
      by (subst WriteVarUint.simps, subst WriteVarUint.simps) (auto simp: appendVarUint_def)
  next
    case 3
    then have "\<not> v < 0x80" "\<not> v < 0x4000" by (auto simp: word_le_nat_alt word_less_nat_alt)
    then show ?thesis by (simp add: appendVarUint_def appendVarUint_loop_eq)
  qed
qed

lemma varUintEncodedLen_loop_eq:
  "varUintEncodedLen_loop n v + 1 = n + length (WriteVarUint [] v)"
proof (induction v arbitrary: n rule: measure_induct_rule [where f = unat])
  case (less v)
  show ?case
  proof (cases "v \<ge> 0x80")
    case True
    from less.IH [OF drop_bit_7_less [OF True], of "Suc n"] True show ?thesis
      by (simp add: varUintEncodedLen_loop.simps [of _ v] WriteVarUint.simps [of _ v]
          WriteVarUint_append [of "[_]"])
  qed (simp add: varUintEncodedLen_loop.simps [of _ v] WriteVarUint.simps [of _ v])
qed

section \<open>Signed varints\<close>

lemma cont_byte_mask: "(ucast (127 AND (v :: uint64)) OR 0x80 :: byte) = ucast v OR 0x80"
  by (rule bit_word_eqI) (auto simp: bit_simps)

lemma bit_of_less: "unat (v :: uint64) < 128 \<Longrightarrow> bit v k \<Longrightarrow> k < 7"
  using not_bit_of_less [of v 7 k] by (simp add: not_less [symmetric]) blast

lemma last_byte_mask: "unat v < 128 \<Longrightarrow> (ucast (127 AND (v :: uint64)) :: byte) = ucast v"
  by (rule bit_word_eqI) (auto simp: bit_simps dest: bit_of_less)

lemma last_byte_value: "unat v < 128 \<Longrightarrow> ucast ((ucast v :: byte) AND 127) = (v :: uint64)"
proof (rule bit_word_eqI)
  fix n :: nat
  assume "unat v < 128"
  then have "bit v n \<Longrightarrow> n < 7" by (rule bit_of_less)
  then show "bit (ucast ((ucast v :: byte) AND 127) :: uint64) n = bit v n" by (auto simp: bit_simps)
qed

lemma writeVarIntMag_loop_eq: "writeVarIntMag_loop [] v = (if v = 0 then [] else WriteVarUint [] v)"
proof (induction v rule: measure_induct_rule [where f = unat])
  case (less v)
  consider "v = 0" | "v > 0" "v \<le> 127" | "v > 127" by (metis not_le word_gt_0)
  then show ?case
  proof cases
    case 1
    then show ?thesis by (simp add: writeVarIntMag_loop.simps)
  next
    case 2
    then have "drop_bit 7 v = 0" "\<not> v \<ge> 0x80" "\<not> 127 < v" "unat v < 128"
      by (auto simp: drop_bit_eq_0 word_le_nat_alt word_less_nat_alt)
    with 2 show ?thesis
      by (simp add: writeVarIntMag_loop.simps [of _ v] WriteVarUint.simps [of _ v] last_byte_mask
          writeVarIntMag_loop.simps [of _ 0] word_gt_0)
  next
    case 3
    then have v: "v \<ge> 0x80" "v > 0" "drop_bit 7 v \<noteq> 0"
      by (auto simp: drop_bit_eq_0 word_le_nat_alt word_less_nat_alt)
    with 3 less.IH [OF drop_bit_7_less [OF v(1)]] show ?thesis
      by (auto simp: writeVarIntMag_loop.simps [of _ v] WriteVarUint.simps [of _ v]
          writeVarIntMag_loop_append [of "[_]"] WriteVarUint_append [of "[_]"] cont_byte_mask)
  qed
qed

text \<open>The two accumulating loops, on the varint of what is still to be read.\<close>

lemma take_push_split: "push_bit s (take_bit 7 v) + push_bit (s + 7) (drop_bit 7 v) = push_bit s (v :: uint64)"
proof -
  have "push_bit s (take_bit 7 v) + push_bit (s + 7) (drop_bit 7 v)
      = push_bit s (take_bit 7 v + push_bit 7 (drop_bit 7 v))"
    by (simp add: push_bit_add push_bit_push_bit)
  also have "take_bit 7 v + push_bit 7 (drop_bit 7 v) = v"
    by (metis bits_ident add.commute)
  finally show ?thesis .
qed

lemma readVarIntSigned_loop_WriteVarUint:
  assumes "i \<le> 8" and "drop_bit (64 - (6 + 7 * i)) v = 0"
  shows "readVarIntSigned_loop i x (6 + 7 * i) neg (WriteVarUint [] v @ rest)
    = (Inr (x + push_bit (6 + 7 * i) v, neg), rest)"
  using assms
proof (induction v arbitrary: i x rule: measure_induct_rule [where f = unat])
  case (less v)
  have shift: "6 + 7 * i < 64" using less.prems(1) by simp
  have vlt: "unat v < 2 ^ (64 - (6 + 7 * i))" using less.prems(2) by (simp add: drop_bit_eq_0)
  show ?case
  proof (cases "v \<ge> 0x80")
    case True
    have i: "i < 8"
    proof (rule ccontr)
      assume "\<not> i < 8"
      with less.prems(1) have "i = 8" by simp
      with vlt True show False by (simp add: word_le_nat_alt)
    qed
    have "drop_bit (64 - (6 + 7 * Suc i)) (drop_bit 7 v) = 0"
      using less.prems(2) i by simp
    then have IH: "readVarIntSigned_loop (Suc i) y (6 + 7 * Suc i) neg (WriteVarUint [] (drop_bit 7 v) @ rest)
        = (Inr (y + push_bit (6 + 7 * Suc i) (drop_bit 7 v), neg), rest)" for y
      using i by (intro less.IH [OF drop_bit_7_less [OF True]]) simp_all
    have w: "WriteVarUint [] v = (ucast v OR 0x80) # WriteVarUint [] (drop_bit 7 v)"
      using True by (subst WriteVarUint.simps) (simp add: WriteVarUint_append [of "[_]"])
    have "unat (take_bit 7 v) \<le> unat v" by (rule unat_take_bit_le)
    then have c: "drop_bit (64 - (6 + 7 * i)) (take_bit 7 v) = 0"
      using vlt by (simp add: drop_bit_eq_0)
    show ?thesis
      using i shift IH [of "x + push_bit (6 + 7 * i) (take_bit 7 v)"] c take_push_split [of "6 + 7 * i" v]
      by (simp add: w Let_def cont_byte_ge ucast_low_byte add.assoc add.commute [of _ 7])
  next
    case False
    then have small: "unat v < 128" by (simp add: word_le_nat_alt)
    have w: "WriteVarUint [] v = [ucast v]"
      using False by (subst WriteVarUint.simps) simp
    have u: "(ucast ((ucast v :: byte) AND 127) :: uint64) = v"
      using small by (rule last_byte_value)
    have b: "(ucast v :: byte) < 0x80"
      using small by (simp add: word_less_nat_alt unat_ucast_byte)
    show ?thesis using less.prems b shift by (simp add: w u Let_def)
  qed
qed

lemma readVarInt_loop_WriteVarUint:
  assumes "i \<le> 8" and "drop_bit (64 - (6 + 7 * i)) v = 0"
  shows "readVarInt_loop i sign x (6 + 7 * i) (WriteVarUint [] v @ rest)
    = (Inr (wrap64 (sign * sint (x OR push_bit (6 + 7 * i) v))), rest)"
  using assms
proof (induction v arbitrary: i x rule: measure_induct_rule [where f = unat])
  case (less v)
  have vlt: "unat v < 2 ^ (64 - (6 + 7 * i))" using less.prems(2) by (simp add: drop_bit_eq_0)
  show ?case
  proof (cases "v \<ge> 0x80")
    case True
    have i: "i < 8"
    proof (rule ccontr)
      assume "\<not> i < 8"
      with less.prems(1) have "i = 8" by simp
      with vlt True show False by (simp add: word_le_nat_alt)
    qed
    have "drop_bit (64 - (6 + 7 * Suc i)) (drop_bit 7 v) = 0"
      using less.prems(2) i by simp
    then have IH: "readVarInt_loop (Suc i) sign y (6 + 7 * Suc i) (WriteVarUint [] (drop_bit 7 v) @ rest)
        = (Inr (wrap64 (sign * sint (y OR push_bit (6 + 7 * Suc i) (drop_bit 7 v)))), rest)" for y
      using i by (intro less.IH [OF drop_bit_7_less [OF True]]) simp_all
    have w: "WriteVarUint [] v = (ucast v OR 0x80) # WriteVarUint [] (drop_bit 7 v)"
      using True by (subst WriteVarUint.simps) (simp add: WriteVarUint_append [of "[_]"])
    show ?thesis
      using i IH [of "x OR push_bit (6 + 7 * i) (take_bit 7 v)"] or_push_split [of x "6 + 7 * i" 7 v]
      by (simp add: w cont_byte_ge ucast_low_byte add.assoc add.commute [of _ 7])
  next
    case False
    then have small: "unat v < 128" by (simp add: word_le_nat_alt)
    have w: "WriteVarUint [] v = [ucast v]"
      using False by (subst WriteVarUint.simps) simp
    have b: "(ucast v :: byte) < 0x80"
      using small by (simp add: word_less_nat_alt unat_ucast_byte)
    show ?thesis using less.prems b small by (simp add: w ucast_ucast_byte)
  qed
qed

text \<open>The first byte: six bits of magnitude, the sign and the continuation flag.\<close>

lemma first_byte:
  fixes num :: uint64 and negative :: bool
  defines "first \<equiv> (let first = ucast (63 AND num);
          first = (if num > 63 then first OR 0x80 else first)
      in if negative then first OR 0x40 else first) :: byte"
  shows "ucast (first AND 63) = take_bit 6 num"
    and "first AND 0x40 > 0 \<longleftrightarrow> negative"
    and "first AND 0x80 = 0 \<longleftrightarrow> num \<le> 63"
proof -
  show "ucast (first AND 63) = take_bit 6 num"
    unfolding first_def by (rule bit_word_eqI) (auto simp: bit_simps Let_def)
  show "first AND 0x40 > 0 \<longleftrightarrow> negative"
    unfolding first_def byte_and_64 by (auto simp: bit_simps Let_def)
  show "first AND 0x80 = 0 \<longleftrightarrow> num \<le> 63"
    unfolding first_def byte_and_128 by (auto simp: bit_simps Let_def not_less [symmetric])
qed

lemma writeVarIntMag_eq:
  "\<exists>first. writeVarIntMag buf num negative = buf @ first # writeVarIntMag_loop [] (drop_bit 6 num)
    \<and> ucast (first AND 63) = take_bit 6 num \<and> (first AND 0x40 > 0 \<longleftrightarrow> negative)
    \<and> (first AND 0x80 = 0 \<longleftrightarrow> num \<le> 63)"
  using first_byte [of num negative]
  by (simp add: writeVarIntMag_def Let_def writeVarIntMag_loop_append [of "buf @ _"])

lemma small_mag: "num \<le> 63 \<Longrightarrow> drop_bit 6 (num :: uint64) = 0" "num \<le> 63 \<Longrightarrow> take_bit 6 num = num"
  by (auto simp: drop_bit_eq_0 word_le_nat_alt take_bit_eq_self_iff_less)

lemma large_mag: "\<not> num \<le> 63 \<Longrightarrow> drop_bit 6 (num :: uint64) \<noteq> 0"
  by (auto simp: drop_bit_eq_0 word_le_nat_alt)

lemma drop_bit_58: "drop_bit 58 (drop_bit 6 (num :: uint64)) = 0"
  using unsigned_less [of num, where 'a = nat] by (simp add: drop_bit_eq_0)

lemma readVarIntSigned_writeVarIntMag [roundtrip_simps]:
  "readVarIntSigned (writeVarIntMag [] num negative @ rest) = (Inr (num, negative), rest)"
proof -
  obtain first where f: "writeVarIntMag [] num negative = first # writeVarIntMag_loop [] (drop_bit 6 num)"
    "ucast (first AND 63) = take_bit 6 num" "(first AND 0x40 > 0) = negative"
    "(first AND 0x80 = 0) = (num \<le> 63)"
    using writeVarIntMag_eq [of "[]" num negative] by auto
  show ?thesis
  proof (cases "num \<le> 63")
    case True
    with f show ?thesis
      by (simp add: readVarIntSigned_def ReadByte_def Let_def small_mag writeVarIntMag_loop_eq)
  next
    case False
    have "push_bit 6 (drop_bit 6 num) + take_bit 6 num = num" by (rule bits_ident)
    with False f readVarIntSigned_loop_WriteVarUint [of 0 "drop_bit 6 num" "take_bit 6 num" negative rest]
    show ?thesis
      by (simp add: readVarIntSigned_def ReadByte_def Let_def large_mag drop_bit_58 writeVarIntMag_loop_eq
          add.commute)
  qed
qed

lemma word_of_int_and_mask:
  "0 \<le> n \<Longrightarrow> (word_of_int (m AND n) :: byte) = ucast (word_of_int m AND word_of_int n :: uint64)"
  by (rule bit_word_eqI) (auto simp: bit_simps)

lemma writeVarInt_loop_eq:
  assumes "0 \<le> n" "n \<le> MaxInt"
  shows "writeVarInt_loop [] n = writeVarIntMag_loop [] (word_of_int n)"
  using assms
proof (induction n rule: measure_induct_rule [where f = nat])
  case (less n)
  have u: "uint (word_of_int n :: uint64) = n" using less.prems by (rule uint_word_of_int_64)
  have "0 \<le> drop_bit 7 n" "drop_bit 7 n \<le> MaxInt"
    using less.prems by (simp_all add: drop_bit_eq_div MaxInt_def)
  then have "uint (word_of_int (drop_bit 7 n) :: uint64) = drop_bit 7 n"
    by (rule uint_word_of_int_64)
  then have d: "(word_of_int (drop_bit 7 n) :: uint64) = drop_bit 7 (word_of_int n)"
    using u by (simp only: word_uint_eq_iff uint_drop_bit)
  show ?case
  proof (cases "n > 0")
    case True
    then have IH: "writeVarInt_loop [] (drop_bit 7 n) = writeVarIntMag_loop [] (word_of_int (drop_bit 7 n))"
      using less.prems by (intro less.IH) (auto simp: drop_bit_eq_div)
    have g: "(word_of_int n :: uint64) > 0" "((word_of_int n :: uint64) > 127) = (n > 127)"
      using u True by (auto simp: word_less_def)
    show ?thesis
      using True g IH d less.prems
      by (simp add: writeVarInt_loop.simps [of _ n] writeVarIntMag_loop.simps [of _ "word_of_int n"]
          writeVarInt_loop_append [of "[_]"] writeVarIntMag_loop_append [of "[_]"]
          word_of_int_and_mask Let_def or.commute)
  next
    case False
    with less.prems have "n = 0" by simp
    then show ?thesis by (simp add: writeVarInt_loop.simps writeVarIntMag_loop.simps)
  qed
qed

lemma word_of_int_drop_bit:
  assumes "0 \<le> n" "n \<le> MaxInt"
  shows "(word_of_int (drop_bit k n) :: uint64) = drop_bit k (word_of_int n)"
proof -
  have "0 \<le> drop_bit k n" "drop_bit k n \<le> MaxInt"
    using assms drop_bit_le_self [of n k] by simp_all
  then show ?thesis
    using assms by (simp only: word_uint_eq_iff uint_drop_bit uint_word_of_int_64)
qed

text \<open>
  On every value but the least \<open>int\<close> the generic \<open>writeVarInt\<close> emits the bytes of the
  sign-and-magnitude writer of the column codecs.
\<close>

lemma writeVarInt_eq:
  assumes "- MaxInt \<le> n" "n \<le> MaxInt"
  shows "writeVarInt buf n = writeVarIntMag buf (word_of_int \<bar>n\<bar>) (n < 0)"
proof -
  have w: "wrap64 (- n) = \<bar>n\<bar>" if "n < 0"
    using that assms by (simp add: wrap_simps int64_ok_def MinInt_def MaxInt_def)
  have m: "0 \<le> \<bar>n\<bar>" "\<bar>n\<bar> \<le> MaxInt" using assms by auto
  have u: "uint (word_of_int \<bar>n\<bar> :: uint64) = \<bar>n\<bar>" using m by (rule uint_word_of_int_64)
  have g: "((word_of_int \<bar>n\<bar> :: uint64) > 63) = (\<bar>n\<bar> > 63)" using u by (simp add: word_less_def)
  have l: "writeVarInt_loop [] (drop_bit 6 \<bar>n\<bar>) = writeVarIntMag_loop [] (drop_bit 6 (word_of_int \<bar>n\<bar>))"
    using m drop_bit_le_self [of "\<bar>n\<bar>" 6] by (subst writeVarInt_loop_eq) (simp_all add: word_of_int_drop_bit)
  show ?thesis
    using m g l w
    by (cases "n < 0") (simp_all add: writeVarInt_def writeVarIntMag_def Let_def word_of_int_and_mask
        writeVarInt_loop_append [of "buf @ _"] writeVarIntMag_loop_append [of "buf @ _"] ac_simps)
qed

lemma readVarInt_writeVarInt [roundtrip_simps]:
  assumes "- MaxInt \<le> n" "n \<le> MaxInt"
  shows "readVarInt (writeVarInt [] n @ rest) = (Inr n, rest)"
proof -
  define num where "num = (word_of_int \<bar>n\<bar> :: uint64)"
  have u: "uint num = \<bar>n\<bar>" unfolding num_def using assms by (intro uint_word_of_int_64) auto
  then have s: "sint num = \<bar>n\<bar>" using assms sint_of_small [of num] by auto
  have ok: "int64_ok n" "int64_ok (- \<bar>n\<bar>)" using assms by (auto simp: int64_ok_def MinInt_def MaxInt_def)
  obtain first where f: "writeVarInt [] n = first # writeVarIntMag_loop [] (drop_bit 6 num)"
    "ucast (first AND 63) = take_bit 6 num" "(first AND 0x40 > 0) = (n < 0)"
    "(first AND 0x80 = 0) = (num \<le> 63)"
    using writeVarIntMag_eq [of "[]" num "n < 0"] writeVarInt_eq [OF assms] by (auto simp: num_def)
  have uf: "uint (first AND 63) = uint (take_bit 6 num)"
    using f(2) by (metis uint_ucast_byte64)
  show ?thesis
  proof (cases "num \<le> 63")
    case True
    with f uf u show ?thesis
      by (simp add: readVarInt_def ReadByte_def Let_def small_mag writeVarIntMag_loop_eq)
  next
    case False
    have "take_bit 6 num OR push_bit 6 (drop_bit 6 num) = num"
      using or_push_split [of 0 0 6 num] by simp
    with False f s ok readVarInt_loop_WriteVarUint [of 0 "drop_bit 6 num" "if n < 0 then - 1 else 1" "take_bit 6 num" rest]
    show ?thesis
      by (simp add: readVarInt_def ReadByte_def Let_def large_mag drop_bit_58 writeVarIntMag_loop_eq wrap_simps)
  qed
qed

lemma appendVarIntMag_eq: "appendVarIntMag dst num negative = writeVarIntMag dst num negative"
proof -
  consider "num \<le> 63" | "num > 63" "num < 0x2000" | "num \<ge> 0x2000" by force
  then show ?thesis
  proof cases
    case 1
    then have "\<not> 63 < num" by auto
    with 1 show ?thesis
      by (simp add: appendVarIntMag_def writeVarIntMag_def Let_def small_mag writeVarIntMag_loop.simps)
  next
    case 2
    then have d: "unat (drop_bit 6 num) < 128" "drop_bit 6 num \<noteq> 0" "\<not> num \<le> 63"
      by (auto simp: word_less_nat_alt word_le_nat_alt unat_drop_bit drop_bit_eq_0)
    then have "WriteVarUint [] (drop_bit 6 num) = [ucast (drop_bit 6 num)]"
      by (subst WriteVarUint.simps) (auto simp: word_le_nat_alt)
    with 2 d show ?thesis
      by (simp add: appendVarIntMag_def writeVarIntMag_def Let_def writeVarIntMag_loop_append [of "dst @ _"]
          writeVarIntMag_loop_eq ac_simps)
  next
    case 3
    then have d: "drop_bit 6 num > 127" "drop_bit 6 num > 0" "\<not> num \<le> 63" "\<not> num < 0x2000" "63 < num"
      by (auto simp: word_less_nat_alt word_le_nat_alt unat_drop_bit drop_bit_eq_0)
    have "writeVarIntMag_loop [] (drop_bit 6 num)
        = (ucast (drop_bit 6 num) OR 0x80) # writeVarIntMag_loop [] (drop_bit 13 num)"
      using d by (subst writeVarIntMag_loop.simps)
        (simp add: cont_byte_mask Let_def writeVarIntMag_loop_append [of "[_]"])
    with d show ?thesis
      by (simp add: appendVarIntMag_def writeVarIntMag_def Let_def writeVarIntMag_loop_append [of "dst @ _"]
          ac_simps)
  qed
qed

lemma writeVarIntSigned_eq:
  "- MaxInt \<le> n \<Longrightarrow> n \<le> MaxInt \<Longrightarrow> writeVarIntSigned buf n = writeVarIntMag buf (word_of_int \<bar>n\<bar>) (n < 0)"
  by (auto simp: writeVarIntSigned_def Let_def wrap_simps int64_ok_def MinInt_def MaxInt_def)

lemma writeVarIntMag_append: "writeVarIntMag dst v neg = dst @ writeVarIntMag [] v neg"
  by (simp add: writeVarIntMag_def Let_def writeVarIntMag_loop_append [of "dst @ _"]
      writeVarIntMag_loop_append [of "[_]"])

lemma writeVarInt_append: "writeVarInt dst v = dst @ writeVarInt [] v"
  by (simp add: writeVarInt_def Let_def writeVarInt_loop_append [of "dst @ _"]
      writeVarInt_loop_append [of "[_]"] split: prod.splits)

lemmas writer_append = WriteVarUint_append WriteString_append WriteVarUint8Array_append
  writeVarIntMag_append writeVarInt_append

section \<open>Fixed-width integers\<close>

lemma PutUint_length [simp]: "length (PutUint n v) = n"
  by (simp add: PutUint_def)

lemma Uint_snoc: "Uint (bs @ [b]) = push_bit 8 (Uint bs) OR ucast b"
  by (simp add: Uint_def)

lemma PutUint_Suc: "PutUint (Suc n) v = PutUint n (drop_bit 8 v) @ [ucast v]"
proof -
  have "8 * (n - x) = 8 + 8 * (n - Suc x)" if "x < n" for x using that by simp
  then show ?thesis by (simp add: PutUint_def drop_bit_drop_bit add.commute [of "8 * _" 8])
qed

lemma Uint_PutUint: "Uint (PutUint n v) = take_bit (8 * n) v"
proof (induction n arbitrary: v)
  case 0
  then show ?case by (simp add: PutUint_def Uint_def)
next
  case (Suc n)
  have "push_bit 8 (take_bit (8 * n) (drop_bit 8 v)) OR ucast (ucast v :: byte) = take_bit (8 * Suc n) v"
    by (rule bit_word_eqI) (auto simp: bit_simps)
  then show ?case by (simp add: PutUint_Suc Uint_snoc Suc)
qed

lemma readFixedWidth_PutUint [roundtrip_simps]:
  "length bs = n \<Longrightarrow> readFixedWidth n (bs @ rest) = (Inr bs, rest)"
  by (simp add: readFixedWidth_def)

lemma readBigInt64_writeInt64 [roundtrip_simps]:
  "int64_ok n \<Longrightarrow> readBigInt64 (writeInt64 [] n @ rest) = (Inr n, rest)"
proof -
  assume n: "int64_ok n"
  have "take_bit 64 (w :: uint64) = w" for w by (rule bit_word_eqI) (auto simp: bit_simps)
  with n show ?thesis
    by (simp add: readBigInt64_def writeInt64_def roundtrip_simps Uint_PutUint sint_word_of_int_64 wrap_simps)
qed

lemma consumes_readFixedWidth [intro, simp]: "consumes (readFixedWidth n)"
  by (rule consumesI) (auto simp: readFixedWidth_def)

section \<open>Number bounds\<close>

lemma toNumber_iff: "toNumber v = Inr n \<longleftrightarrow> n = uint v \<and> uint v \<le> maxSafeInteger"
proof -
  have m: "uint (word_of_int maxSafeInteger :: uint64) = maxSafeInteger"
    by (rule uint_word_of_int_64) (simp_all add: maxSafeInteger_def MaxInt_def)
  have s: "sint v = uint v" if "uint v \<le> maxSafeInteger"
    using that by (intro sint_of_small) (simp add: maxSafeInteger_def MaxInt_def)
  show ?thesis
    using m s by (auto simp: toNumber_def word_less_def not_less)
qed

lemma toNumber_word_of_int [roundtrip_simps]:
  "0 \<le> n \<Longrightarrow> n \<le> maxSafeInteger \<Longrightarrow> toNumber (word_of_int n) = Inr n"
  by (simp add: toNumber_iff uint_word_of_int_64 maxSafeInteger_def MaxInt_def)

lemma toNumber_range: "toNumber v = Inr n \<Longrightarrow> 0 \<le> n \<and> n \<le> maxSafeInteger"
  by (auto simp: toNumber_iff)

lemma nonNegNumber_iff: "nonNegNumber v = Inr n \<longleftrightarrow> n = v \<and> 0 \<le> v \<and> v \<le> maxSafeInteger"
  by (auto simp: nonNegNumber_def)

lemma addBounded_iff:
  assumes "0 \<le> a" "a \<le> MaxInt" "0 \<le> b" "b \<le> MaxInt"
  shows "addBounded a b = Inr n \<longleftrightarrow> n = a + b \<and> a + b \<le> MaxInt"
proof -
  have "wrap64 (MaxInt - a) = MaxInt - a"
    using assms by (intro wrap64_in_range) (simp add: int64_ok_def MinInt_def MaxInt_def)
  moreover have "wrap64 (a + b) = a + b" if "a + b \<le> MaxInt"
    using assms that by (intro wrap64_in_range) (simp add: int64_ok_def MinInt_def MaxInt_def)
  ultimately show ?thesis by (auto simp: addBounded_def)
qed

lemma addClockSaturating_eq:
  assumes "0 \<le> a" "a \<le> MaxInt" "0 \<le> b" "b \<le> MaxInt"
  shows "addClockSaturating a b = min (a + b) MaxInt"
proof -
  have "wrap64 (MaxInt - a) = MaxInt - a"
    using assms by (intro wrap64_in_range) (simp add: int64_ok_def MinInt_def MaxInt_def)
  moreover have "wrap64 (a + b) = a + b" if "a + b \<le> MaxInt"
    using assms that by (intro wrap64_in_range) (simp add: int64_ok_def MinInt_def MaxInt_def)
  ultimately show ?thesis by (auto simp: addClockSaturating_def min_def)
qed

lemma readVarUintAsNumber_WriteVarUint [roundtrip_simps]:
  "0 \<le> n \<Longrightarrow> n \<le> maxSafeInteger \<Longrightarrow>
    readVarUintAsNumber (WriteVarUint [] (word_of_int n) @ rest) = (Inr n, rest)"
  by (simp add: readVarUintAsNumber_def roundtrip_simps)

lemma stable_readVarUintAsNumber [intro, simp]: "stable readVarUintAsNumber"
  unfolding readVarUintAsNumber_def by (intro stable_rbind stable_ReadVarUint stable_lift)

lemma consumes_readVarUintAsNumber [intro, simp]: "consumes readVarUintAsNumber"
  unfolding readVarUintAsNumber_def by (rule consumes_rbind) auto

lemma length_WriteVarUint: "length (WriteVarUint [] v) = varUintEncodedLen v" "varUintEncodedLen v \<le> 10"
proof -
  show len: "length (WriteVarUint [] v) = varUintEncodedLen v"
    using varUintEncodedLen_loop_eq [of 1 v] by (simp add: varUintEncodedLen_def)
  obtain pre where "WriteVarUint [] v @ [] = pre @ snd (ReadVarUint (WriteVarUint [] v @ []))" "length pre \<le> 10"
    using ReadUvarint_loop_consumes [of "WriteVarUint [] v @ []" 0 0 0] unfolding ReadVarUint_def by auto
  then show "varUintEncodedLen v \<le> 10"
    unfolding ReadVarUint_WriteVarUint len [symmetric] by simp
qed

section \<open>Properties\<close>

text \<open>
  Claim C38. Every 64-bit value written by \<open>WriteVarUint\<close> is read back by \<open>ReadVarUint\<close>, which leaves the bytes after
  it untouched; \<open>varUintEncodedLen\<close> is the number of bytes written and at most ten, and the
  unrolled \<open>appendVarUint\<close> writes the same bytes.
\<close>

theorem varuint_roundtrip:
  "ReadVarUint (WriteVarUint [] v @ rest) = (Inr v, rest) \<and>
   WriteVarUint dst v = dst @ WriteVarUint [] v \<and>
   appendVarUint dst v = WriteVarUint dst v \<and>
   length (WriteVarUint [] v) = varUintEncodedLen v \<and> varUintEncodedLen v \<le> 10"
  by (simp add: ReadVarUint_WriteVarUint appendVarUint_eq length_WriteVarUint) (rule WriteVarUint_append)

text \<open>
  Claim C39. Signed varints: \<open>readVarInt\<close> reads back what \<open>writeVarInt\<close> writes for every integer but the smallest,
  and the sign-and-magnitude reader reads back every magnitude and sign of the fast writer,
  a negative zero included.
\<close>

theorem signed_varint_roundtrip:
  assumes "- MaxInt \<le> n" "n \<le> MaxInt"
  shows "readVarInt (writeVarInt [] n @ rest) = (Inr n, rest) \<and>
    readVarIntSigned (appendVarIntMag [] num negative @ rest) = (Inr (num, negative), rest) \<and>
    writeVarIntSigned dst n = appendVarIntMag dst (word_of_int \<bar>n\<bar>) (n < 0)"
  using assms by (simp add: readVarInt_writeVarInt readVarIntSigned_writeVarIntMag appendVarIntMag_eq
    writeVarIntSigned_eq)

theorem signed_varint_roundtrip_witness:
  "readVarInt (writeVarInt [] (- 300) @ [7]) = (Inr (- 300), [7]) \<and>
    readVarIntSigned (appendVarIntMag [] 0 True @ [7]) = (Inr (0, True), [7]) \<and>
    writeVarIntSigned [1] (- 300) = appendVarIntMag [1] (word_of_int \<bar>- 300\<bar>) ((- 300 :: int) < 0)"
  using signed_varint_roundtrip [of "- 300" "[7]" 0 True "[1]"] by (simp add: MaxInt_def)


text \<open>
  Length-prefixed strings and byte arrays are read back exactly. On any input whatsoever the readers return a
  part of what they were given: the result and the unread rest are never longer than the input,
  whatever length the prefix announces.
\<close>

theorem length_prefixed_roundtrip:
  assumes "length v < 2 ^ 64"
  shows "ReadString (WriteString [] v @ rest) = (Inr v, rest) \<and>
    ReadVarUint8Array (WriteVarUint8Array [] v @ rest) = (Inr v, rest) \<and>
    appendString dst v = WriteString dst v \<and>
    (case ReadString buf of (Inr s, buf') \<Rightarrow> length s + length buf' \<le> length buf | (Inl _, buf') \<Rightarrow> length buf' \<le> length buf) \<and>
    (case ReadVarUint8Array buf of (Inr s, buf') \<Rightarrow> length s + length buf' \<le> length buf | (Inl _, buf') \<Rightarrow> length buf' \<le> length buf)"
proof (intro conjI)
  show "ReadString (WriteString [] v @ rest) = (Inr v, rest)"
    "ReadVarUint8Array (WriteVarUint8Array [] v @ rest) = (Inr v, rest)"
    using assms by (simp_all add: roundtrip_simps)
  show "appendString dst v = WriteString dst v"
    by (simp add: appendString_def appendVarUint_eq WriteString_eq)
  obtain pre where pre: "buf = pre @ snd (ReadVarUint buf)"
    using consumes_ReadVarUint by (auto simp: consumes_def)
  have le: "length (snd (ReadVarUint buf)) \<le> length buf" by (subst (2) pre) simp
  show "case ReadString buf of (Inr s, buf') \<Rightarrow> length s + length buf' \<le> length buf | (Inl _, buf') \<Rightarrow> length buf' \<le> length buf"
    using le by (auto simp: ReadString_def rbind_def split: prod.splits sum.splits)
  show "case ReadVarUint8Array buf of (Inr s, buf') \<Rightarrow> length s + length buf' \<le> length buf | (Inl _, buf') \<Rightarrow> length buf' \<le> length buf"
    using le by (auto simp: ReadVarUint8Array_def rbind_def split: prod.splits sum.splits)
qed

theorem length_prefixed_roundtrip_witness:
  "ReadString (WriteString [] [104, 105] @ [7]) = (Inr [104, 105], [7]) \<and>
    ReadVarUint8Array (WriteVarUint8Array [] [104, 105] @ [7]) = (Inr [104, 105], [7]) \<and>
    appendString [1] [104, 105] = WriteString [1] [104, 105]"
  using length_prefixed_roundtrip [of "[104, 105]" "[7]" "[1]" "[]"] by simp

end
