(* ===== verification/ColumnCodecs.thy ===== *)
theory ColumnCodecs
  imports Lib0
begin

text \<open>
  The column codecs of the V2 wire format: \<^verbatim>\<open>crdt/rle_codec.go\<close>, \<^verbatim>\<open>crdt/uint_opt_rle_codec.go\<close> and
  \<^verbatim>\<open>crdt/int_diff_opt_rle_codec.go\<close>. An encoder keeps the bytes of the closed runs and the run that
  is still open; a decoder keeps the unread bytes and what is left of the current run. Each codec
  satisfies the interface \<open>column_codec\<close>: reading the bytes of a written column gives the values
  back, in order.

  The run counters are Go \<^verbatim>\<open>uint\<close>s that count write calls; they are naturals here. The reader and
  writer functions stored in the plain RLE codec are the ones every column uses, \<^verbatim>\<open>readUint8\<close> and
  \<^verbatim>\<open>writeByte\<close>.
\<close>

section \<open>Definitions\<close>

definition maxRleRunCount :: uint64 where
  "maxRleRunCount = 2147483647"

definition maxIntDiffOptRleDiff :: int where
  "maxIntDiffOptRleDiff = 2305843009213693952"

subsection \<open>Run-length codec of bytes\<close>

record rleEncoder =
  re_buf :: "byte list"
  re_state :: byte
  re_count :: nat
  re_started :: bool

definition newRLEEncoder :: rleEncoder where
  "newRLEEncoder = \<lparr>re_buf = [], re_state = 0, re_count = 0, re_started = False\<rparr>"

definition rle_writeValue :: "rleEncoder \<Rightarrow> byte \<Rightarrow> rleEncoder" where
  "rle_writeValue e v =
     (if re_started e \<and> re_state e = v then e\<lparr>re_count := Suc (re_count e)\<rparr>
      else let buf = (if re_count e > 0 then WriteVarUint (re_buf e) (of_nat (re_count e - 1)) else re_buf e)
           in e\<lparr>re_count := 1, re_buf := buf @ [v], re_state := v, re_started := True\<rparr>)"

definition rle_bytes :: "rleEncoder \<Rightarrow> byte list" where
  "rle_bytes e = re_buf e"

record rleDecoder =
  rd_buf :: "byte list"
  rd_state :: byte
  rd_count :: int

definition newRLEDecoder :: "byte list \<Rightarrow> rleDecoder" where
  "newRLEDecoder data = \<lparr>rd_buf = data, rd_state = 0, rd_count = 0\<rparr>"

definition rle_remaining :: "rleDecoder \<Rightarrow> nat" where
  "rle_remaining d = length (rd_buf d)"

text \<open>A count of -1 repeats the current value forever.\<close>

definition rle_readValue :: "rleDecoder \<Rightarrow> (go_error + byte) \<times> rleDecoder" where
  "rle_readValue d =
     (if rd_count d = 0
      then case ReadByte (rd_buf d) of
             (Inl e, b) \<Rightarrow> (Inl e, d\<lparr>rd_buf := b\<rparr>)
           | (Inr s, b) \<Rightarrow>
               let d1 = d\<lparr>rd_state := s, rd_buf := b\<rparr>
               in if b \<noteq> []
                  then case ReadVarUint b of
                         (Inl e, b') \<Rightarrow> (Inl e, d1\<lparr>rd_buf := b'\<rparr>)
                       | (Inr n, b') \<Rightarrow>
                           if n \<ge> maxRleRunCount then (Inl RunTooLong, d1\<lparr>rd_buf := b'\<rparr>)
                           else (Inr s, d1\<lparr>rd_buf := b', rd_count := uint n + 1 - 1\<rparr>)
                  else (Inr s, d1\<lparr>rd_count := - 1 - 1\<rparr>)
      else (Inr (rd_state d), d\<lparr>rd_count := rd_count d - 1\<rparr>))"

subsection \<open>Optimised run-length codec of unsigned integers\<close>

record uintOptRLEEncoder =
  ue_buf :: "byte list"
  ue_s :: uint64
  ue_count :: nat

definition newUintOptRLEEncoder :: uintOptRLEEncoder where
  "newUintOptRLEEncoder = \<lparr>ue_buf = [], ue_s = 0, ue_count = 0\<rparr>"

definition uint_flush :: "uintOptRLEEncoder \<Rightarrow> uintOptRLEEncoder" where
  "uint_flush e =
     (if ue_count e = 0 then e
      else if ue_count e = 1 then e\<lparr>ue_buf := appendVarIntMag (ue_buf e) (ue_s e) False\<rparr>
      else e\<lparr>ue_buf := appendVarUint (appendVarIntMag (ue_buf e) (ue_s e) True)
               (of_nat (ue_count e - 2))\<rparr>)"

definition uint_writeValue :: "uintOptRLEEncoder \<Rightarrow> uint64 \<Rightarrow> uintOptRLEEncoder" where
  "uint_writeValue e v =
     (if ue_count e > 0 \<and> ue_s e = v then e\<lparr>ue_count := Suc (ue_count e)\<rparr>
      else (uint_flush e)\<lparr>ue_count := 1, ue_s := v\<rparr>)"

definition uint_bytes :: "uintOptRLEEncoder \<Rightarrow> byte list" where
  "uint_bytes e = ue_buf (uint_flush e)"

record uintOptRLEDecoder =
  ud_buf :: "byte list"
  ud_s :: uint64
  ud_count :: nat

definition newUintOptRLEDecoder :: "byte list \<Rightarrow> uintOptRLEDecoder" where
  "newUintOptRLEDecoder data = \<lparr>ud_buf = data, ud_s = 0, ud_count = 0\<rparr>"

definition uint_remaining :: "uintOptRLEDecoder \<Rightarrow> nat" where
  "uint_remaining d = length (ud_buf d)"

definition uint_readValue :: "uintOptRLEDecoder \<Rightarrow> (go_error + uint64) \<times> uintOptRLEDecoder" where
  "uint_readValue d =
     (if ud_count d = 0
      then case readVarIntSigned (ud_buf d) of
             (Inl e, b) \<Rightarrow> (Inl e, d\<lparr>ud_buf := b\<rparr>)
           | (Inr (mag, negative), b) \<Rightarrow>
               let d1 = d\<lparr>ud_buf := b, ud_s := mag, ud_count := 1\<rparr>
               in if negative
                  then case ReadVarUint b of
                         (Inl e, b') \<Rightarrow> (Inl e, d1\<lparr>ud_buf := b'\<rparr>)
                       | (Inr n, b') \<Rightarrow>
                           if n > maxRleRunCount - 2 then (Inl RunTooLong, d1\<lparr>ud_buf := b'\<rparr>)
                           else (Inr mag, d1\<lparr>ud_buf := b', ud_count := unat n + 2 - 1\<rparr>)
                  else (Inr mag, d1\<lparr>ud_count := 1 - 1\<rparr>)
      else (Inr (ud_s d), d\<lparr>ud_count := ud_count d - 1\<rparr>))"

subsection \<open>Differential codec of signed integers\<close>

record intDiffOptRLEEncoder =
  ie_buf :: "byte list"
  ie_s :: int
  ie_count :: nat
  ie_diff :: int

definition newIntDiffOptRLEEncoder :: intDiffOptRLEEncoder where
  "newIntDiffOptRLEEncoder = \<lparr>ie_buf = [], ie_s = 0, ie_count = 0, ie_diff = 0\<rparr>"

text \<open>The bytes of one closed run, shared by \<open>flush\<close> and \<open>writeTrusted\<close>.\<close>

definition int_run :: "byte list \<Rightarrow> int \<Rightarrow> nat \<Rightarrow> byte list" where
  "int_run buf diff count =
     (let encodedDiff = wrap64 (wrap64 (diff * 2) + (if count = 1 then 0 else 1));
          negative = encodedDiff < 0;
          magnitude = (if negative then word_of_int (wrap64 (- encodedDiff)) else word_of_int encodedDiff);
          buf' = appendVarIntMag buf magnitude negative
      in if count > 1 then appendVarUint buf' (of_nat (count - 2)) else buf')"

definition int_flush :: "intDiffOptRLEEncoder \<Rightarrow> go_error + intDiffOptRLEEncoder" where
  "int_flush e =
     (if ie_count e = 0 then Inr e
      else if ie_diff e > maxIntDiffOptRleDiff \<or> ie_diff e < - maxIntDiffOptRleDiff then Inl DiffOutOfRange
      else Inr (e\<lparr>ie_buf := int_run (ie_buf e) (ie_diff e) (ie_count e)\<rparr>))"

text \<open>A refused value leaves the encoder as it is.\<close>

definition int_writeValue :: "intDiffOptRLEEncoder \<Rightarrow> int \<Rightarrow> go_error option \<times> intDiffOptRLEEncoder" where
  "int_writeValue e v =
     (if ie_count e > 0 \<and> ie_diff e = wrap64 (v - ie_s e)
      then (None, e\<lparr>ie_s := v, ie_count := Suc (ie_count e)\<rparr>)
      else case int_flush e of
             Inl err \<Rightarrow> (Some err, e)
           | Inr e' \<Rightarrow> (None, e'\<lparr>ie_count := 1, ie_diff := wrap64 (v - ie_s e), ie_s := v\<rparr>))"

definition int_writeTrusted :: "intDiffOptRLEEncoder \<Rightarrow> int \<Rightarrow> intDiffOptRLEEncoder" where
  "int_writeTrusted e v =
     (let diff = wrap64 (v - ie_s e)
      in if ie_count e > 0 \<and> ie_diff e = diff then e\<lparr>ie_s := v, ie_count := Suc (ie_count e)\<rparr>
         else let e' = (if ie_count e > 0
                        then e\<lparr>ie_buf := int_run (ie_buf e) (ie_diff e) (ie_count e)\<rparr> else e)
              in e'\<lparr>ie_count := 1, ie_diff := diff, ie_s := v\<rparr>)"

definition int_bytes :: "intDiffOptRLEEncoder \<Rightarrow> go_error + byte list" where
  "int_bytes e = (case int_flush e of Inl err \<Rightarrow> Inl err | Inr e' \<Rightarrow> Inr (ie_buf e'))"

record intDiffOptRLEDecoder =
  id_buf :: "byte list"
  id_s :: int
  id_count :: nat
  id_diff :: int

definition newIntDiffOptRLEDecoder :: "byte list \<Rightarrow> intDiffOptRLEDecoder" where
  "newIntDiffOptRLEDecoder data = \<lparr>id_buf = data, id_s = 0, id_count = 0, id_diff = 0\<rparr>"

definition int_remaining :: "intDiffOptRLEDecoder \<Rightarrow> nat" where
  "int_remaining d = length (id_buf d)"

text \<open>Reading the header of the next run, when the current one is used up.\<close>

definition int_readRun :: "intDiffOptRLEDecoder \<Rightarrow> go_error option \<times> intDiffOptRLEDecoder" where
  "int_readRun d =
     (case readVarIntSigned (id_buf d) of
        (Inl e, b) \<Rightarrow> (Some e, d\<lparr>id_buf := b\<rparr>)
      | (Inr (mag, negative), b) \<Rightarrow>
          if mag > word_of_int MaxInt then (Some MagnitudeOverflow, d\<lparr>id_buf := b\<rparr>)
          else let encodedDiff = (if negative then - sint mag else sint mag);
                   d1 = d\<lparr>id_buf := b, id_diff := drop_bit 1 encodedDiff, id_count := 1\<rparr>
               in if encodedDiff AND 1 \<noteq> 0
                  then case ReadVarUint b of
                         (Inl e, b') \<Rightarrow> (Some e, d1\<lparr>id_buf := b'\<rparr>)
                       | (Inr n, b') \<Rightarrow>
                           if n > maxRleRunCount - 2 then (Some RunTooLong, d1\<lparr>id_buf := b'\<rparr>)
                           else (None, d1\<lparr>id_buf := b', id_count := unat n + 2\<rparr>)
                  else (None, d1))"

definition int_readValue :: "intDiffOptRLEDecoder \<Rightarrow> (go_error + int) \<times> intDiffOptRLEDecoder" where
  "int_readValue d =
     (case (if id_count d = 0 then int_readRun d else (None, d)) of
        (Some e, d1) \<Rightarrow> (Inl e, d1)
      | (None, d1) \<Rightarrow>
          if (id_diff d1 > 0 \<and> id_s d1 > MaxInt - id_diff d1) \<or> (id_diff d1 < 0 \<and> id_s d1 < MinInt - id_diff d1)
          then (Inl AccumulatorOverflow, d1)
          else let s = id_s d1 + id_diff d1
               in (Inr s, d1\<lparr>id_s := s, id_count := id_count d1 - 1\<rparr>))"

section \<open>The column interface\<close>

text \<open>
  \<open>reads rd d vs d'\<close>: reading \<open>length vs\<close> values from \<open>d\<close> gives \<open>vs\<close> and leaves \<open>d'\<close>.
  \<open>delivers\<close> forgets where the decoder ends up.
\<close>

fun reads :: "('d \<Rightarrow> (go_error + 'v) \<times> 'd) \<Rightarrow> 'd \<Rightarrow> 'v list \<Rightarrow> 'd \<Rightarrow> bool" where
  "reads rd d [] d' \<longleftrightarrow> d' = d"
| "reads rd d (v # vs) d' \<longleftrightarrow> fst (rd d) = Inr v \<and> reads rd (snd (rd d)) vs d'"

fun delivers :: "('d \<Rightarrow> (go_error + 'v) \<times> 'd) \<Rightarrow> 'd \<Rightarrow> 'v list \<Rightarrow> bool" where
  "delivers rd d [] \<longleftrightarrow> True"
| "delivers rd d (v # vs) \<longleftrightarrow> fst (rd d) = Inr v \<and> delivers rd (snd (rd d)) vs"

lemma reads_append:
  "reads rd d (vs @ ws) d' \<longleftrightarrow> (\<exists>d1. reads rd d vs d1 \<and> reads rd d1 ws d')"
  by (induction vs arbitrary: d) auto

lemma reads_delivers: "reads rd d vs d' \<Longrightarrow> delivers rd d vs"
  by (induction vs arbitrary: d) auto

lemma delivers_Cons:
  "delivers rd d (v # vs) \<longleftrightarrow> (\<exists>d'. rd d = (Inr v, d') \<and> delivers rd d' vs)"
  by (cases "rd d") auto

lemma delivers_prefix: "delivers rd d (vs @ ws) \<Longrightarrow> delivers rd d vs"
  by (induction vs arbitrary: d) auto

text \<open>
  What a column promises: the values of any admissible column come back. The encoder may refuse
  a value or the final flush, never an admissible one.
\<close>

locale column_codec =
  fixes enc0 :: 'e
    and wr :: "'e \<Rightarrow> 'v \<Rightarrow> go_error option \<times> 'e"
    and bytes :: "'e \<Rightarrow> go_error + byte list"
    and open_dec :: "byte list \<Rightarrow> 'd"
    and rd :: "'d \<Rightarrow> (go_error + 'v) \<times> 'd"
    and ok :: "'v list \<Rightarrow> bool"
  assumes ok_prefix: "ok (vs @ ws) \<Longrightarrow> ok vs"
    and write_ok: "ok (vs @ [v]) \<Longrightarrow> fst (wr (foldl (\<lambda>e v. snd (wr e v)) enc0 vs) v) = None"
    and bytes_ok: "ok vs \<Longrightarrow> \<exists>bs. bytes (foldl (\<lambda>e v. snd (wr e v)) enc0 vs) = Inr bs
                     \<and> delivers rd (open_dec bs) vs"
begin

definition written :: "'v list \<Rightarrow> 'e" where
  "written vs = foldl (\<lambda>e v. snd (wr e v)) enc0 vs"

definition column :: "'v list \<Rightarrow> byte list" where
  "column vs = projr (bytes (written vs))"

lemma written_Nil: "written [] = enc0"
  by (simp add: written_def)

lemma write_written: "ok (vs @ [v]) \<Longrightarrow> wr (written vs) v = (None, written (vs @ [v]))"
  using write_ok [of vs v] by (cases "wr (written vs) v") (auto simp: written_def)

lemma bytes_written: "ok vs \<Longrightarrow> bytes (written vs) = Inr (column vs)"
  using bytes_ok [of vs] by (auto simp: column_def written_def)

lemma column_delivers: "ok vs \<Longrightarrow> delivers rd (open_dec (column vs)) vs"
  using bytes_ok [of vs] by (auto simp: column_def written_def)

end

section \<open>Unsigned columns\<close>

lemma reads_replicate_Suc:
  assumes "rd d = (Inr v, d1)" and "reads rd d1 (replicate n v) d2"
  shows "reads rd d (replicate (Suc n) v) d2"
  using assms by simp

lemma uint_reads_run:
  "reads uint_readValue \<lparr>ud_buf = b, ud_s = v, ud_count = n\<rparr> (replicate n v) \<lparr>ud_buf = b, ud_s = v, ud_count = 0\<rparr>"
  by (induction n) (auto simp: uint_readValue_def)

lemma run_bound: "n \<le> 2147483647 \<Longrightarrow> \<not> (of_nat (n - 2) :: uint64) > maxRleRunCount - 2"
  "n \<le> 2147483647 \<Longrightarrow> unat (of_nat (n - 2) :: uint64) = n - 2"
  by (simp_all add: maxRleRunCount_def word_less_nat_alt unsigned_of_nat take_bit_eq_mod)

lemma uint_reads_block:
  assumes "0 < n" "n \<le> 2147483647"
  shows "\<exists>blk. ue_buf (uint_flush \<lparr>ue_buf = buf, ue_s = v, ue_count = n\<rparr>) = buf @ blk
    \<and> (\<forall>t s0. reads uint_readValue \<lparr>ud_buf = blk @ t, ud_s = s0, ud_count = 0\<rparr> (replicate n v)
          \<lparr>ud_buf = t, ud_s = v, ud_count = 0\<rparr>)"
proof (cases "n = 1")
  case True
  then show ?thesis
    by (auto simp: uint_flush_def appendVarIntMag_eq writeVarIntMag_append [of buf] uint_readValue_def
        roundtrip_simps)
next
  case False
  define blk where "blk = writeVarIntMag [] v True @ WriteVarUint [] (of_nat (n - 2))"
  from False assms obtain m where n: "n = Suc (Suc m)" by (metis One_nat_def less_numeral_extra(3) not0_implies_Suc)
  have "reads uint_readValue \<lparr>ud_buf = blk @ t, ud_s = s0, ud_count = 0\<rparr> (replicate n v)
          \<lparr>ud_buf = t, ud_s = v, ud_count = 0\<rparr>" for t s0
    unfolding n
  proof (rule reads_replicate_Suc [OF _ uint_reads_run])
    show "uint_readValue \<lparr>ud_buf = blk @ t, ud_s = s0, ud_count = 0\<rparr>
        = (Inr v, \<lparr>ud_buf = t, ud_s = v, ud_count = Suc m\<rparr>)"
      using run_bound [OF assms(2)] by (simp add: blk_def uint_readValue_def roundtrip_simps n)
  qed
  moreover have "ue_buf (uint_flush \<lparr>ue_buf = buf, ue_s = v, ue_count = n\<rparr>) = buf @ blk"
    using False assms by (simp add: uint_flush_def blk_def appendVarIntMag_eq appendVarUint_eq
        writeVarIntMag_append [of buf] WriteVarUint_append [of "buf @ _"] WriteVarUint_append [of "writeVarIntMag _ _ _"])
  ultimately show ?thesis by blast
qed

text \<open>
  The encoder's invariant: the closed bytes decode to a prefix of what was written, whatever
  follows them, and the open run is the rest.
\<close>

definition uint_inv :: "uintOptRLEEncoder \<Rightarrow> uint64 list \<Rightarrow> bool" where
  "uint_inv e vs \<longleftrightarrow> (\<exists>ws. vs = ws @ replicate (ue_count e) (ue_s e) \<and> (vs = [] \<longleftrightarrow> ue_count e = 0) \<and>
     (\<forall>t s0. \<exists>s1. reads uint_readValue \<lparr>ud_buf = ue_buf e @ t, ud_s = s0, ud_count = 0\<rparr> ws
                \<lparr>ud_buf = t, ud_s = s1, ud_count = 0\<rparr>))"

lemma uint_inv_flush:
  assumes inv: "uint_inv e vs" and len: "length vs \<le> 2147483647"
  shows "\<exists>s1. reads uint_readValue \<lparr>ud_buf = ue_buf (uint_flush e) @ t, ud_s = s0, ud_count = 0\<rparr> vs
            \<lparr>ud_buf = t, ud_s = s1, ud_count = 0\<rparr>"
proof -
  obtain ws where vs: "vs = ws @ replicate (ue_count e) (ue_s e)" and
    rd: "\<And>t s0. \<exists>s1. reads uint_readValue \<lparr>ud_buf = ue_buf e @ t, ud_s = s0, ud_count = 0\<rparr> ws
                \<lparr>ud_buf = t, ud_s = s1, ud_count = 0\<rparr>"
    using inv by (auto simp: uint_inv_def)
  show ?thesis
  proof (cases "ue_count e = 0")
    case True
    with vs rd show ?thesis by (simp add: uint_flush_def)
  next
    case False
    have e: "e = \<lparr>ue_buf = ue_buf e, ue_s = ue_s e, ue_count = ue_count e\<rparr>" by simp
    obtain blk where blk: "ue_buf (uint_flush e) = ue_buf e @ blk"
      "\<And>t s0. reads uint_readValue \<lparr>ud_buf = blk @ t, ud_s = s0, ud_count = 0\<rparr>
         (replicate (ue_count e) (ue_s e)) \<lparr>ud_buf = t, ud_s = ue_s e, ud_count = 0\<rparr>"
      using uint_reads_block [of "ue_count e" "ue_buf e" "ue_s e"] False vs len e by auto
    show ?thesis
      using rd [of "blk @ t" s0] blk(2) by (auto simp: vs blk(1) reads_append)
  qed
qed

lemma uint_inv_write:
  assumes inv: "uint_inv e vs" and len: "length vs \<le> 2147483647"
  shows "uint_inv (uint_writeValue e v) (vs @ [v])"
proof (cases "ue_count e > 0 \<and> ue_s e = v")
  case True
  with inv show ?thesis
    by (auto simp: uint_inv_def uint_writeValue_def replicate_append_same)
next
  case False
  then have "uint_writeValue e v = \<lparr>ue_buf = ue_buf (uint_flush e), ue_s = v, ue_count = 1\<rparr>"
    by (auto simp: uint_writeValue_def)
  with uint_inv_flush [OF inv len] show ?thesis
    unfolding uint_inv_def by (intro exI [of _ vs]) auto
qed

lemma uint_inv_foldl:
  "length vs \<le> 2147483647 \<Longrightarrow> uint_inv (foldl uint_writeValue newUintOptRLEEncoder vs) vs"
proof (induction vs rule: rev_induct)
  case Nil
  then show ?case by (auto simp: uint_inv_def newUintOptRLEEncoder_def)
next
  case (snoc v vs)
  then show ?case using uint_inv_write by simp
qed

definition uint_write :: "uintOptRLEEncoder \<Rightarrow> uint64 \<Rightarrow> go_error option \<times> uintOptRLEEncoder" where
  "uint_write e v = (None, uint_writeValue e v)"

definition short_column :: "'v list \<Rightarrow> bool" where
  "short_column vs \<longleftrightarrow> length vs \<le> 2147483647"

lemma snd_uint_write [simp]: "(\<lambda>e v. snd (uint_write e v)) = uint_writeValue"
  by (simp add: uint_write_def fun_eq_iff)

interpretation uint_col: column_codec newUintOptRLEEncoder uint_write "\<lambda>e. Inr (uint_bytes e)"
  newUintOptRLEDecoder uint_readValue short_column
proof unfold_locales
  fix vs :: "uint64 list" and v
  show "fst (uint_write (foldl (\<lambda>e v. snd (uint_write e v)) newUintOptRLEEncoder vs) v) = None"
    by (simp add: uint_write_def)
  assume "short_column vs"
  then have "uint_inv (foldl uint_writeValue newUintOptRLEEncoder vs) vs" and l: "length vs \<le> 2147483647"
    by (simp_all add: short_column_def uint_inv_foldl)
  from uint_inv_flush [OF this, of "[]" 0]
  show "\<exists>bs. Inr (uint_bytes (foldl (\<lambda>e v. snd (uint_write e v)) newUintOptRLEEncoder vs)) = Inr bs
      \<and> delivers uint_readValue (newUintOptRLEDecoder bs) vs"
    by (auto simp: uint_bytes_def newUintOptRLEDecoder_def dest: reads_delivers)
qed (simp add: short_column_def)

section \<open>Byte columns\<close>

lemma rle_reads_run:
  "reads rle_readValue \<lparr>rd_buf = b, rd_state = v, rd_count = int n\<rparr> (replicate n v) \<lparr>rd_buf = b, rd_state = v, rd_count = 0\<rparr>"
  by (induction n) (auto simp: rle_readValue_def)

lemma rle_reads_forever:
  "c < 0 \<Longrightarrow> reads rle_readValue \<lparr>rd_buf = b, rd_state = v, rd_count = c\<rparr> (replicate n v)
     \<lparr>rd_buf = b, rd_state = v, rd_count = c - int n\<rparr>"
proof (induction n arbitrary: c)
  case (Suc n)
  from Suc.IH [of "c - 1"] Suc.prems show ?case by (simp add: rle_readValue_def algebra_simps)
qed simp

lemma WriteVarUint_not_Nil [simp]: "WriteVarUint dst v \<noteq> []"
  by (induction dst v rule: WriteVarUint.induct) (subst WriteVarUint.simps, simp)

lemma rle_reads_block:
  assumes "0 < n" "n \<le> 2147483647"
  shows "reads rle_readValue \<lparr>rd_buf = v # WriteVarUint [] (of_nat (n - 1)) @ t, rd_state = s0, rd_count = 0\<rparr>
    (replicate n v) \<lparr>rd_buf = t, rd_state = v, rd_count = 0\<rparr>"
proof -
  obtain m where n: "n = Suc m" using assms by (cases n) auto
  have u: "uint (of_nat m :: uint64) = int m" "\<not> (of_nat m :: uint64) \<ge> maxRleRunCount"
    using assms n by (simp_all add: maxRleRunCount_def word_le_nat_alt unsigned_of_nat take_bit_eq_mod)
  show ?thesis unfolding n
    by (rule reads_replicate_Suc [OF _ rle_reads_run])
      (simp add: rle_readValue_def ReadByte_def roundtrip_simps u not_le [symmetric])
qed

definition rle_inv :: "rleEncoder \<Rightarrow> byte list \<Rightarrow> bool" where
  "rle_inv e vs \<longleftrightarrow>
     (if re_started e
      then re_count e > 0 \<and> (\<exists>ws B. vs = ws @ replicate (re_count e) (re_state e) \<and> re_buf e = B @ [re_state e] \<and>
        (\<forall>t s0. \<exists>s1. reads rle_readValue \<lparr>rd_buf = B @ t, rd_state = s0, rd_count = 0\<rparr> ws
                \<lparr>rd_buf = t, rd_state = s1, rd_count = 0\<rparr>))
      else vs = [] \<and> re_buf e = [] \<and> re_count e = 0)"

lemma rle_inv_write:
  assumes inv: "rle_inv e vs" and len: "length vs \<le> 2147483647"
  shows "rle_inv (rle_writeValue e v) (vs @ [v])"
proof (cases "re_started e")
  case False
  with inv show ?thesis
    by (auto simp: rle_inv_def rle_writeValue_def intro!: exI [of _ "[]"])
next
  case True
  with inv obtain ws B where c: "re_count e > 0" and vs: "vs = ws @ replicate (re_count e) (re_state e)"
    and buf: "re_buf e = B @ [re_state e]"
    and rd: "\<And>t s0. \<exists>s1. reads rle_readValue \<lparr>rd_buf = B @ t, rd_state = s0, rd_count = 0\<rparr> ws
                \<lparr>rd_buf = t, rd_state = s1, rd_count = 0\<rparr>"
    by (auto simp: rle_inv_def)
  show ?thesis
  proof (cases "re_state e = v")
    case eq: True
    then have "rle_writeValue e v = e\<lparr>re_count := Suc (re_count e)\<rparr>"
      using True by (simp add: rle_writeValue_def)
    then show ?thesis using True eq vs buf rd
      by (auto simp: rle_inv_def replicate_append_same intro!: exI [of _ ws])
  next
    case False
    let ?blk = "re_state e # WriteVarUint [] (of_nat (re_count e - 1))"
    have "rle_writeValue e v = e\<lparr>re_count := 1, re_buf := B @ ?blk @ [v], re_state := v\<rparr>"
      using False True c by (simp add: rle_writeValue_def buf WriteVarUint_append [of "B @ _"])
    moreover have "\<exists>s1. reads rle_readValue \<lparr>rd_buf = B @ ?blk @ t, rd_state = s0, rd_count = 0\<rparr> vs
        \<lparr>rd_buf = t, rd_state = s1, rd_count = 0\<rparr>" for t s0
      using rd [of "?blk @ t" s0] rle_reads_block [of "re_count e" "re_state e" t] c len
      by (auto simp: vs reads_append)
    ultimately show ?thesis
      using True by (auto simp: rle_inv_def intro!: exI [of _ vs] exI [of _ "B @ ?blk"])
  qed
qed

lemma rle_inv_foldl:
  "length vs \<le> 2147483647 \<Longrightarrow> rle_inv (foldl rle_writeValue newRLEEncoder vs) vs"
proof (induction vs rule: rev_induct)
  case Nil
  then show ?case by (auto simp: rle_inv_def newRLEEncoder_def)
next
  case (snoc v vs)
  then show ?case using rle_inv_write by simp
qed

lemma rle_inv_delivers:
  assumes "rle_inv e vs" shows "delivers rle_readValue (newRLEDecoder (rle_bytes e)) vs"
proof (cases "re_started e")
  case False
  with assms show ?thesis by (simp add: rle_inv_def)
next
  case True
  with assms obtain ws B n where "re_count e = Suc n" and vs: "vs = ws @ replicate (Suc n) (re_state e)"
    and buf: "re_buf e = B @ [re_state e]"
    and rd: "\<And>t s0. \<exists>s1. reads rle_readValue \<lparr>rd_buf = B @ t, rd_state = s0, rd_count = 0\<rparr> ws
                \<lparr>rd_buf = t, rd_state = s1, rd_count = 0\<rparr>"
    by (auto simp: rle_inv_def gr0_conv_Suc)
  have tail: "reads rle_readValue \<lparr>rd_buf = [re_state e], rd_state = s1, rd_count = 0\<rparr>
      (replicate (Suc n) (re_state e)) \<lparr>rd_buf = [], rd_state = re_state e, rd_count = - 2 - int n\<rparr>" for s1
    by (rule reads_replicate_Suc [OF _ rle_reads_forever]) (simp_all add: rle_readValue_def ReadByte_def)
  have "\<exists>d'. reads rle_readValue (newRLEDecoder (rle_bytes e)) vs d'"
    using rd [of "[re_state e]" 0] tail
    unfolding vs newRLEDecoder_def rle_bytes_def buf reads_append by blast
  then show ?thesis by (auto dest: reads_delivers)
qed

definition rle_write :: "rleEncoder \<Rightarrow> byte \<Rightarrow> go_error option \<times> rleEncoder" where
  "rle_write e v = (None, rle_writeValue e v)"

lemma snd_rle_write [simp]: "(\<lambda>e v. snd (rle_write e v)) = rle_writeValue"
  by (simp add: rle_write_def fun_eq_iff)

interpretation rle_col: column_codec newRLEEncoder rle_write "\<lambda>e. Inr (rle_bytes e)"
  newRLEDecoder rle_readValue short_column
  by unfold_locales (auto simp: rle_write_def short_column_def intro!: rle_inv_delivers rle_inv_foldl)

section \<open>Differential columns\<close>

text \<open>\<open>n\<close> values that follow \<open>s\<close> at distance \<open>d\<close>.\<close>

definition arith_run :: "int \<Rightarrow> int \<Rightarrow> nat \<Rightarrow> int list" where
  "arith_run s d n = map (\<lambda>k. s + d * int (Suc k)) [0..<n]"

lemma arith_run_0 [simp]: "arith_run s d 0 = []"
  by (simp add: arith_run_def)

lemma arith_run_Suc: "arith_run s d (Suc n) = (s + d) # arith_run (s + d) d n"
  unfolding arith_run_def by (simp add: upt_conv_Cons map_Suc_upt [symmetric] algebra_simps del: upt_Suc)

lemma arith_run_snoc: "arith_run s d (Suc n) = arith_run s d n @ [s + d * int (Suc n)]"
  by (simp add: arith_run_def)

lemma length_arith_run [simp]: "length (arith_run s d n) = n"
  by (simp add: arith_run_def)

lemma int_readValue_step:
  "int64_ok (s + d) \<Longrightarrow> int_readValue \<lparr>id_buf = b, id_s = s, id_count = Suc n, id_diff = d\<rparr>
    = (Inr (s + d), \<lparr>id_buf = b, id_s = s + d, id_count = n, id_diff = d\<rparr>)"
  by (auto simp: int_readValue_def int64_ok_def Let_def)

lemma int_reads_run:
  assumes "\<forall>v \<in> set (arith_run s d n). int64_ok v"
  shows "reads int_readValue \<lparr>id_buf = b, id_s = s, id_count = n, id_diff = d\<rparr> (arith_run s d n)
    \<lparr>id_buf = b, id_s = s + d * int n, id_count = 0, id_diff = d\<rparr>"
  using assms
proof (induction n arbitrary: s)
  case (Suc n)
  from Suc.IH [of "s + d"] Suc.prems show ?case
    by (simp add: arith_run_Suc int_readValue_step algebra_simps)
qed simp

definition diff_ok :: "int \<Rightarrow> bool" where
  "diff_ok d \<longleftrightarrow> - maxIntDiffOptRleDiff \<le> d \<and> d \<le> maxIntDiffOptRleDiff"

text \<open>The header of a run is read back as the run's difference and length.\<close>

lemma int_readRun_int_run:
  assumes d: "diff_ok d" and n: "0 < n" "n \<le> 2147483647"
  shows "\<exists>blk. (\<forall>buf. int_run buf d n = buf @ blk) \<and>
    (\<forall>t s d0. int_readRun \<lparr>id_buf = blk @ t, id_s = s, id_count = 0, id_diff = d0\<rparr>
       = (None, \<lparr>id_buf = t, id_s = s, id_count = n, id_diff = d\<rparr>))"
proof -
  define enc where "enc = d * 2 + (if n = 1 then 0 else 1)"
  define mag where "mag = (word_of_int \<bar>enc\<bar> :: uint64)"
  have range: "\<bar>enc\<bar> \<le> 4611686018427387905" and d2: "int64_ok (d * 2)"
    using d by (auto simp: enc_def diff_ok_def maxIntDiffOptRleDiff_def int64_ok_def MinInt_def MaxInt_def)
  have ok: "int64_ok enc" "int64_ok (- enc)"
    using range by (auto simp: int64_ok_def MinInt_def MaxInt_def)
  have umag: "uint mag = \<bar>enc\<bar>" unfolding mag_def
    using range by (intro uint_word_of_int_64) (auto simp: MaxInt_def)
  have smag: "sint mag = \<bar>enc\<bar>" using umag range sint_of_small [of mag] by (simp add: MaxInt_def)
  have small: "\<not> mag > word_of_int MaxInt"
    using umag range by (simp add: word_less_def MaxInt_def)
  have wenc: "wrap64 (wrap64 (d * 2) + (if n = 1 then 0 else 1)) = enc"
    using d2 ok by (simp add: wrap_simps enc_def)
  have magn: "(if enc < 0 then word_of_int (wrap64 (- enc)) else word_of_int enc) = mag"
    using ok by (simp add: wrap_simps mag_def)
  have senc: "(if enc < 0 then - sint mag else sint mag) = enc" using smag by simp
  have bits: "enc AND 1 = (if n = 1 then 0 else 1)" "drop_bit 1 enc = d" "drop_bit (Suc 0) enc = d"
    by (simp_all add: enc_def and_one_eq drop_bit_eq_div)
  have n2: "Suc (Suc (n - 2)) = n" if "1 < n" using that by simp
  define blk where "blk = writeVarIntMag [] mag (enc < 0) @
    (if n > 1 then WriteVarUint [] (of_nat (n - 2)) else [])"
  have "int_run buf d n = buf @ blk" for buf
    unfolding int_run_def Let_def wenc magn
    using n by (simp add: blk_def appendVarIntMag_eq appendVarUint_eq writeVarIntMag_append [of buf] WriteVarUint_append [of "buf @ _"] WriteVarUint_append [of "writeVarIntMag _ _ _"])
  moreover have "int_readRun \<lparr>id_buf = blk @ t, id_s = s, id_count = 0, id_diff = d0\<rparr>
       = (None, \<lparr>id_buf = t, id_s = s, id_count = n, id_diff = d\<rparr>)" for t s d0
    using n run_bound [OF n(2)] small
    by (auto simp: int_readRun_def blk_def roundtrip_simps senc bits n2)
  ultimately show ?thesis by blast
qed

lemma int_reads_block:
  assumes d: "diff_ok d" and n: "0 < n" "n \<le> 2147483647" and ok: "\<forall>v \<in> set (arith_run s d n). int64_ok v"
  shows "\<exists>blk. (\<forall>buf. int_run buf d n = buf @ blk) \<and>
    (\<forall>t d0. reads int_readValue \<lparr>id_buf = blk @ t, id_s = s, id_count = 0, id_diff = d0\<rparr> (arith_run s d n)
        \<lparr>id_buf = t, id_s = s + d * int n, id_count = 0, id_diff = d\<rparr>)"
proof -
  obtain blk where blk: "\<And>buf. int_run buf d n = buf @ blk"
    "\<And>t s d0. int_readRun \<lparr>id_buf = blk @ t, id_s = s, id_count = 0, id_diff = d0\<rparr>
       = (None, \<lparr>id_buf = t, id_s = s, id_count = n, id_diff = d\<rparr>)"
    using int_readRun_int_run [OF d n] by blast
  have "int_readValue \<lparr>id_buf = blk @ t, id_s = s, id_count = 0, id_diff = d0\<rparr>
      = int_readValue \<lparr>id_buf = t, id_s = s, id_count = n, id_diff = d\<rparr>" for t d0
    using n by (simp add: int_readValue_def blk(2))
  then have "reads int_readValue \<lparr>id_buf = blk @ t, id_s = s, id_count = 0, id_diff = d0\<rparr> (arith_run s d n)
        \<lparr>id_buf = t, id_s = s + d * int n, id_count = 0, id_diff = d\<rparr>" for t d0
    using int_reads_run [OF ok, of t] n by (cases n) (simp_all add: arith_run_Suc)
  with blk(1) show ?thesis by blast
qed

definition clock_ok :: "int \<Rightarrow> bool" where
  "clock_ok v \<longleftrightarrow> - 1152921504606846976 \<le> v \<and> v \<le> 1152921504606846976"

definition int_column_ok :: "int list \<Rightarrow> bool" where
  "int_column_ok vs \<longleftrightarrow> length vs \<le> 2147483647 \<and> (\<forall>v \<in> set vs. clock_ok v)"

lemma clock_ok_int64: "clock_ok v \<Longrightarrow> int64_ok v"
  by (simp add: clock_ok_def int64_ok_def MinInt_def MaxInt_def)

lemma clock_ok_diff:
  assumes "clock_ok v" "clock_ok s"
  shows "wrap64 (v - s) = v - s" and "diff_ok (v - s)"
  using assms by (auto simp: clock_ok_def diff_ok_def maxIntDiffOptRleDiff_def int64_ok_def MinInt_def
      MaxInt_def intro!: wrap64_in_range)

definition int_inv :: "intDiffOptRLEEncoder \<Rightarrow> int list \<Rightarrow> bool" where
  "int_inv e vs \<longleftrightarrow> clock_ok (ie_s e) \<and> diff_ok (ie_diff e) \<and> (vs = [] \<longleftrightarrow> ie_count e = 0) \<and>
     (\<exists>ws s. vs = ws @ arith_run s (ie_diff e) (ie_count e) \<and> ie_s e = s + ie_diff e * int (ie_count e) \<and>
       (\<forall>t d0. \<exists>d1. reads int_readValue \<lparr>id_buf = ie_buf e @ t, id_s = 0, id_count = 0, id_diff = d0\<rparr> ws
          \<lparr>id_buf = t, id_s = s, id_count = 0, id_diff = d1\<rparr>))"

lemma int_inv_flush:
  assumes inv: "int_inv e vs" and ok: "int_column_ok vs"
  shows "\<exists>buf. int_flush e = Inr (e\<lparr>ie_buf := buf\<rparr>) \<and>
     (\<forall>t d0. \<exists>d1. reads int_readValue \<lparr>id_buf = buf @ t, id_s = 0, id_count = 0, id_diff = d0\<rparr> vs
          \<lparr>id_buf = t, id_s = ie_s e, id_count = 0, id_diff = d1\<rparr>)"
proof -
  obtain ws s where d: "diff_ok (ie_diff e)" and vs: "vs = ws @ arith_run s (ie_diff e) (ie_count e)"
    and s: "ie_s e = s + ie_diff e * int (ie_count e)" and
    rd: "\<And>t d0. \<exists>d1. reads int_readValue \<lparr>id_buf = ie_buf e @ t, id_s = 0, id_count = 0, id_diff = d0\<rparr> ws
          \<lparr>id_buf = t, id_s = s, id_count = 0, id_diff = d1\<rparr>"
    using inv by (auto simp: int_inv_def)
  show ?thesis
  proof (cases "ie_count e = 0")
    case True
    then have "int_flush e = Inr (e\<lparr>ie_buf := ie_buf e\<rparr>)" by (simp add: int_flush_def)
    with True vs s rd show ?thesis by (intro exI [of _ "ie_buf e"]) auto
  next
    case False
    have run_ok: "\<forall>v \<in> set (arith_run s (ie_diff e) (ie_count e)). int64_ok v"
      using ok by (auto simp: int_column_ok_def vs intro: clock_ok_int64)
    obtain blk where blk: "\<And>buf. int_run buf (ie_diff e) (ie_count e) = buf @ blk"
      "\<And>t d0. reads int_readValue \<lparr>id_buf = blk @ t, id_s = s, id_count = 0, id_diff = d0\<rparr>
         (arith_run s (ie_diff e) (ie_count e)) \<lparr>id_buf = t, id_s = ie_s e, id_count = 0, id_diff = ie_diff e\<rparr>"
      using int_reads_block [OF d _ _ run_ok] False ok by (auto simp: int_column_ok_def vs s)
    have "int_flush e = Inr (e\<lparr>ie_buf := ie_buf e @ blk\<rparr>)"
      using False d blk(1) by (auto simp: int_flush_def diff_ok_def)
    moreover have "\<exists>d1. reads int_readValue \<lparr>id_buf = (ie_buf e @ blk) @ t, id_s = 0, id_count = 0, id_diff = d0\<rparr> vs
          \<lparr>id_buf = t, id_s = ie_s e, id_count = 0, id_diff = d1\<rparr>" for t d0
      using rd [of "blk @ t" d0] blk(2) [of t] unfolding vs reads_append append_assoc by blast
    ultimately show ?thesis by blast
  qed
qed

lemma int_inv_write:
  assumes inv: "int_inv e vs" and ok: "int_column_ok (vs @ [v])"
  shows "\<exists>e'. int_writeValue e v = (None, e') \<and> int_inv e' (vs @ [v])"
proof -
  have okvs: "int_column_ok vs" and v: "clock_ok v" using ok by (auto simp: int_column_ok_def)
  have s: "clock_ok (ie_s e)" using inv by (simp add: int_inv_def)
  note diff = clock_ok_diff [OF v s]
  show ?thesis
  proof (cases "ie_count e > 0 \<and> ie_diff e = v - ie_s e")
    case True
    obtain ws s0 where "vs = ws @ arith_run s0 (ie_diff e) (ie_count e)" "ie_s e = s0 + ie_diff e * int (ie_count e)"
      "\<forall>t d0. \<exists>d1. reads int_readValue \<lparr>id_buf = ie_buf e @ t, id_s = 0, id_count = 0, id_diff = d0\<rparr> ws
          \<lparr>id_buf = t, id_s = s0, id_count = 0, id_diff = d1\<rparr>"
      using inv by (auto simp: int_inv_def)
    moreover have "v = s0 + ie_diff e * int (Suc (ie_count e))"
      using True \<open>ie_s e = _\<close> by (simp add: algebra_simps)
    ultimately have "int_inv (e\<lparr>ie_s := v, ie_count := Suc (ie_count e)\<rparr>) (vs @ [v])"
      using inv v unfolding int_inv_def by (auto simp: arith_run_snoc intro!: exI [of _ ws] exI [of _ s0])
    with True diff show ?thesis by (simp add: int_writeValue_def)
  next
    case False
    obtain buf where fl: "int_flush e = Inr (e\<lparr>ie_buf := buf\<rparr>)" and
      rd: "\<And>t d0. \<exists>d1. reads int_readValue \<lparr>id_buf = buf @ t, id_s = 0, id_count = 0, id_diff = d0\<rparr> vs
          \<lparr>id_buf = t, id_s = ie_s e, id_count = 0, id_diff = d1\<rparr>"
      using int_inv_flush [OF inv okvs] by blast
    let ?e' = "\<lparr>ie_buf = buf, ie_s = v, ie_count = 1, ie_diff = v - ie_s e\<rparr>"
    have "int_writeValue e v = (None, ?e')"
      using False diff fl by (auto simp: int_writeValue_def)
    moreover have "int_inv ?e' (vs @ [v])"
      unfolding int_inv_def using v diff rd
      by (auto simp: arith_run_Suc intro!: exI [of _ vs] exI [of _ "ie_s e"])
    ultimately show ?thesis by blast
  qed
qed

lemma int_inv_foldl:
  "int_column_ok vs \<Longrightarrow> int_inv (foldl (\<lambda>e v. snd (int_writeValue e v)) newIntDiffOptRLEEncoder vs) vs"
proof (induction vs rule: rev_induct)
  case Nil
  show ?case
    by (auto simp: int_inv_def newIntDiffOptRLEEncoder_def clock_ok_def diff_ok_def maxIntDiffOptRleDiff_def)
next
  case (snoc v vs)
  then have "int_column_ok vs" by (auto simp: int_column_ok_def)
  with snoc show ?case using int_inv_write [of _ vs v] by fastforce
qed

interpretation int_col: column_codec newIntDiffOptRLEEncoder int_writeValue int_bytes
  newIntDiffOptRLEDecoder int_readValue int_column_ok
proof unfold_locales
  fix vs ws :: "int list" and v
  show "int_column_ok vs" if "int_column_ok (vs @ ws)"
    using that by (auto simp: int_column_ok_def)
  show "fst (int_writeValue (foldl (\<lambda>e v. snd (int_writeValue e v)) newIntDiffOptRLEEncoder vs) v) = None"
    if "int_column_ok (vs @ [v])"
  proof -
    have "int_column_ok vs" using that by (auto simp: int_column_ok_def)
    with int_inv_write [OF int_inv_foldl that] show ?thesis by auto
  qed
  show "\<exists>bs. int_bytes (foldl (\<lambda>e v. snd (int_writeValue e v)) newIntDiffOptRLEEncoder vs) = Inr bs
      \<and> delivers int_readValue (newIntDiffOptRLEDecoder bs) vs" if ok: "int_column_ok vs"
  proof -
    obtain buf where "int_flush (foldl (\<lambda>e v. snd (int_writeValue e v)) newIntDiffOptRLEEncoder vs)
        = Inr ((foldl (\<lambda>e v. snd (int_writeValue e v)) newIntDiffOptRLEEncoder vs)\<lparr>ie_buf := buf\<rparr>)"
      and "\<exists>d'. reads int_readValue \<lparr>id_buf = buf @ [], id_s = 0, id_count = 0, id_diff = 0\<rparr> vs d'"
      using int_inv_flush [OF int_inv_foldl [OF ok] ok] by blast
    then show ?thesis
      by (auto simp: int_bytes_def newIntDiffOptRLEDecoder_def dest: reads_delivers)
  qed
qed

text \<open>The unchecked writer of the full-state encoder agrees with the checked one in range.\<close>

lemma int_writeTrusted_eq:
  assumes "int_writeValue e v = (None, e')"
  shows "int_writeTrusted e v = e'"
  using assms by (auto simp: int_writeValue_def int_writeTrusted_def int_flush_def Let_def split: if_splits)

lemma int_readRun_count:
  assumes "int_readRun d = (e, d')" "id_count d \<le> 2147483647"
  shows "id_count d' \<le> 2147483647" "id_s d' = id_s d"
proof -
  have "unat n + 2 \<le> 2147483647" if "\<not> n > maxRleRunCount - 2" for n :: uint64
    using that by (simp add: maxRleRunCount_def word_less_nat_alt)
  then show "id_count d' \<le> 2147483647" "id_s d' = id_s d"
    using assms by (auto simp: int_readRun_def Let_def split: prod.splits sum.splits if_splits)
qed

section \<open>Properties\<close>

text \<open>
  The uint column: writing up to 2 ^ 31 - 1 values, flushing and decoding the bytes delivers exactly these
  values, in order.
\<close>

theorem uint_column_roundtrip:
  assumes "length vs \<le> 2147483647"
  shows "delivers uint_readValue
    (newUintOptRLEDecoder (uint_bytes (foldl uint_writeValue newUintOptRLEEncoder vs))) vs"
  using uint_col.column_delivers [of vs] uint_col.bytes_written [of vs] assms
  by (simp add: short_column_def uint_col.written_def)

theorem uint_column_roundtrip_witness:
  "delivers uint_readValue
    (newUintOptRLEDecoder (uint_bytes (foldl uint_writeValue newUintOptRLEEncoder [5, 5, 5, 0, 300]))) [5, 5, 5, 0, 300]"
  by (rule uint_column_roundtrip) simp

text \<open>
  Claim C35. The byte column: decoding the bytes of a written column delivers exactly the values written. The last run
  has no stored length and the decoder repeats its value for every read after it.
\<close>

theorem rle_column_roundtrip:
  assumes "length vs \<le> 2147483647"
  shows "delivers rle_readValue (newRLEDecoder (rle_bytes (foldl rle_writeValue newRLEEncoder vs))) vs"
  using rle_col.column_delivers [of vs] rle_col.bytes_written [of vs] assms
  by (simp add: short_column_def rle_col.written_def)

theorem rle_column_roundtrip_witness:
  "delivers rle_readValue (newRLEDecoder (rle_bytes (foldl rle_writeValue newRLEEncoder [0x84, 0x84, 1, 1, 1]))) [0x84, 0x84, 1, 1, 1]"
  by (rule rle_column_roundtrip) simp

text \<open>
  Claim C33. The differential column: for values of magnitude at most 2 ^ 60 no write and no flush is refused, decoding
  delivers exactly the values written, and the unchecked writer of the full-state encoder builds
  the same encoder state as the checked one.
\<close>

theorem int_column_roundtrip:
  assumes "length vs \<le> 2147483647" "\<forall>v \<in> set vs. \<bar>v\<bar> \<le> 1152921504606846976"
  shows "\<exists>bs. int_bytes (foldl int_writeTrusted newIntDiffOptRLEEncoder vs) = Inr bs \<and>
      delivers int_readValue (newIntDiffOptRLEDecoder bs) vs \<and>
      foldl int_writeTrusted newIntDiffOptRLEEncoder vs =
        foldl (\<lambda>e v. snd (int_writeValue e v)) newIntDiffOptRLEEncoder vs"
proof -
  have ok: "int_column_ok vs" using assms by (auto simp: int_column_ok_def clock_ok_def abs_le_iff)
  then have "foldl int_writeTrusted newIntDiffOptRLEEncoder vs = int_col.written vs"
  proof (induction vs rule: rev_induct)
    case (snoc v vs)
    then have "int_column_ok vs" by (auto simp: int_column_ok_def)
    with snoc int_writeTrusted_eq [OF int_col.write_written [OF snoc.prems]] show ?case by simp
  qed (simp add: int_col.written_Nil)
  with int_col.bytes_written [OF ok] int_col.column_delivers [OF ok] show ?thesis
    by (simp add: int_col.written_def)
qed

theorem int_column_roundtrip_witness:
  "\<exists>bs. int_bytes (foldl int_writeTrusted newIntDiffOptRLEEncoder [3, 4, 5, 5, - 7]) = Inr bs \<and>
      delivers int_readValue (newIntDiffOptRLEDecoder bs) [3, 4, 5, 5, - 7] \<and>
      foldl int_writeTrusted newIntDiffOptRLEEncoder [3, 4, 5, 5, - 7] =
        foldl (\<lambda>e v. snd (int_writeValue e v)) newIntDiffOptRLEEncoder [3, 4, 5, 5, - 7]"
  by (rule int_column_roundtrip) simp_all

text \<open>
  Claim C37. The differential decoder on arbitrary bytes: from an accumulator in the 64-bit range every delivered value
  and the new accumulator are in range, so the accumulation never wraps; and a run is at most
  2 ^ 31 - 1 values long, whatever the bytes announce.
\<close>

theorem int_readValue_in_range:
  assumes "int64_ok (id_s d)" "id_count d \<le> 2147483647"
  shows "case int_readValue d of (r, d') \<Rightarrow> int64_ok (id_s d') \<and> id_count d' \<le> 2147483647 \<and>
    (case r of Inl _ \<Rightarrow> id_s d' = id_s d | Inr v \<Rightarrow> int64_ok v \<and> v = id_s d')"
proof -
  obtain e d1 where d1: "(if id_count d = 0 then int_readRun d else (None, d)) = (e, d1)" by fastforce
  then have "id_count d1 \<le> 2147483647" "id_s d1 = id_s d"
    using int_readRun_count assms(2) by (auto split: if_splits)
  with assms(1) show ?thesis
    unfolding int_readValue_def d1 by (auto simp: int64_ok_def Let_def MinInt_def MaxInt_def split: option.splits)
qed

theorem int_readValue_in_range_witness:
  "case int_readValue (newIntDiffOptRLEDecoder [0x02]) of (r, d') \<Rightarrow> int64_ok (id_s d') \<and> id_count d' \<le> 2147483647 \<and>
    (case r of Inl _ \<Rightarrow> id_s d' = id_s (newIntDiffOptRLEDecoder [0x02]) | Inr v \<Rightarrow> int64_ok v \<and> v = id_s d')"
  by (rule int_readValue_in_range) (simp_all add: newIntDiffOptRLEDecoder_def int64_ok_def MinInt_def MaxInt_def)

end
