(* ===== verification/Utf.thy ===== *)
theory Utf
  imports Lib0
begin

text \<open>
  Text as the program handles it: Go strings are bytes, JavaScript lengths are UTF-16 code units.
  \<^verbatim>\<open>crdt/utf8_text.go\<close> (normalisation of malformed UTF-8) and the string helpers of \<^verbatim>\<open>crdt/utils.go\<close>
  (\<^verbatim>\<open>charCodeAt\<close>, \<^verbatim>\<open>splitStringUTF16\<close>, \<^verbatim>\<open>stringLength\<close>), over a model of the functions of Go's
  \<^verbatim>\<open>unicode/utf8\<close> and \<^verbatim>\<open>unicode/utf16\<close> packages that they call. A rune is a natural number.
\<close>

section \<open>The Go library\<close>

type_synonym rune = nat
type_synonym uint16 = "16 word"

definition RuneError :: rune where
  "RuneError = 0xFFFD"

definition rune_ok :: "rune \<Rightarrow> bool" where
  "rune_ok r \<longleftrightarrow> r < 0xD800 \<or> (0xE000 \<le> r \<and> r \<le> 0x10FFFF)"

text \<open>\<open>utf8.AppendRune\<close>: an invalid rune is written as the replacement character.\<close>

definition encodeRune :: "rune \<Rightarrow> byte list" where
  "encodeRune rune =
     (let r = (if rune_ok rune then rune else RuneError)
      in if r < 0x80 then [of_nat r]
         else if r < 0x800 then [of_nat (0xC0 + r div 64), of_nat (0x80 + r mod 64)]
         else if r < 0x10000
         then [of_nat (0xE0 + r div 4096), of_nat (0x80 + r div 64 mod 64), of_nat (0x80 + r mod 64)]
         else [of_nat (0xF0 + r div 262144), of_nat (0x80 + r div 4096 mod 64),
               of_nat (0x80 + r div 64 mod 64), of_nat (0x80 + r mod 64)])"

definition appendRune :: "byte list \<Rightarrow> rune \<Rightarrow> byte list" where
  "appendRune out r = out @ encodeRune r"

definition cont :: "nat \<Rightarrow> nat \<Rightarrow> byte \<Rightarrow> bool" where
  "cont lo hi b \<longleftrightarrow> lo \<le> unat b \<and> unat b \<le> hi"

text \<open>\<open>utf8.DecodeRuneInString\<close>: the rune and the bytes it takes, \<open>(RuneError, 1)\<close> at a malformed byte.\<close>

definition decode2 :: "nat \<Rightarrow> byte list \<Rightarrow> rune \<times> nat" where
  "decode2 n0 s =
     (case s of b1 # _ \<Rightarrow> if cont 0x80 0xBF b1 then ((n0 - 0xC0) * 64 + (unat b1 - 0x80), 2) else (RuneError, 1)
      | [] \<Rightarrow> (RuneError, 1))"

definition decode3 :: "nat \<Rightarrow> byte list \<Rightarrow> rune \<times> nat" where
  "decode3 n0 s =
     (case s of
        b1 # b2 # _ \<Rightarrow>
          if cont (if n0 = 0xE0 then 0xA0 else 0x80) (if n0 = 0xED then 0x9F else 0xBF) b1 \<and> cont 0x80 0xBF b2
          then ((n0 - 0xE0) * 4096 + (unat b1 - 0x80) * 64 + (unat b2 - 0x80), 3) else (RuneError, 1)
      | _ \<Rightarrow> (RuneError, 1))"

definition decode4 :: "nat \<Rightarrow> byte list \<Rightarrow> rune \<times> nat" where
  "decode4 n0 s =
     (case s of
        b1 # b2 # b3 # _ \<Rightarrow>
          if cont (if n0 = 0xF0 then 0x90 else 0x80) (if n0 = 0xF4 then 0x8F else 0xBF) b1 \<and>
             cont 0x80 0xBF b2 \<and> cont 0x80 0xBF b3
          then ((n0 - 0xF0) * 262144 + (unat b1 - 0x80) * 4096 + (unat b2 - 0x80) * 64 + (unat b3 - 0x80), 4)
          else (RuneError, 1)
      | _ \<Rightarrow> (RuneError, 1))"

definition decodeRune :: "byte list \<Rightarrow> rune \<times> nat" where
  "decodeRune s =
     (case s of [] \<Rightarrow> (RuneError, 0)
      | b0 # s' \<Rightarrow>
          let n0 = unat b0
          in if n0 < 0x80 then (n0, 1)
             else if 0xC2 \<le> n0 \<and> n0 \<le> 0xDF then decode2 n0 s'
             else if 0xE0 \<le> n0 \<and> n0 \<le> 0xEF then decode3 n0 s'
             else if 0xF0 \<le> n0 \<and> n0 \<le> 0xF4 then decode4 n0 s'
             else (RuneError, 1))"

lemma decodeRune_size: "s \<noteq> [] \<Longrightarrow> 1 \<le> snd (decodeRune s)"
  by (auto simp: decodeRune_def decode2_def decode3_def decode4_def Let_def split: list.splits)

lemma decodeRune_shrinks [simp]: "s \<noteq> [] \<Longrightarrow> length s - snd (decodeRune s) < length s"
  using decodeRune_size [of s] by (cases s) auto

text \<open>The loop \<^verbatim>\<open>for _, r := range s\<close>, and the conversion \<^verbatim>\<open>[]rune(s)\<close>.\<close>

function runes :: "gostring \<Rightarrow> rune list" where
  "runes s = (if s = [] then [] else fst (decodeRune s) # runes (drop (snd (decodeRune s)) s))"
  by pat_completeness auto
termination
  by (relation "measure length") auto

definition utf8_encode :: "rune list \<Rightarrow> gostring" where
  "utf8_encode rs = concat (map encodeRune rs)"

text \<open>\<open>utf16.Encode\<close> and \<open>utf16.Decode\<close>.\<close>

definition encodeUnits :: "rune \<Rightarrow> uint16 list" where
  "encodeUnits r =
     (if \<not> rune_ok r then [0xFFFD]
      else if r < 0x10000 then [of_nat r]
      else [of_nat (0xD800 + (r - 0x10000) div 1024), of_nat (0xDC00 + (r - 0x10000) mod 1024)])"

definition utf16_Encode :: "rune list \<Rightarrow> uint16 list" where
  "utf16_Encode rs = concat (map encodeUnits rs)"

fun utf16_Decode :: "uint16 list \<Rightarrow> rune list" where
  "utf16_Decode [] = []"
| "utf16_Decode (u # us) =
     (if u < 0xD800 \<or> 0xE000 \<le> u then unat u # utf16_Decode us
      else case us of
             v # vs \<Rightarrow> if u < 0xDC00 \<and> 0xDC00 \<le> v \<and> v < 0xE000
                       then ((unat u - 0xD800) * 1024 + (unat v - 0xDC00) + 0x10000) # utf16_Decode vs
                       else RuneError # utf16_Decode us
           | [] \<Rightarrow> [RuneError])"

section \<open>Definitions\<close>

definition isASCIIText :: "gostring \<Rightarrow> bool" where
  "isASCIIText s \<longleftrightarrow> list_all (\<lambda>b. b < 0x80) s"

definition rune_width :: "rune \<Rightarrow> nat" where
  "rune_width r = (if r \<ge> 0x10000 then 2 else 1)"

definition stringLength :: "gostring \<Rightarrow> Number" where
  "stringLength s = foldl (\<lambda>n r. if r \<ge> 0x10000 then n + 2 else n + 1) 0 (runes s)"

text \<open>The replacement decoder: the variables of its loop.\<close>

record utf8_state =
  us_out :: gostring
  us_codePoint :: nat
  us_bytesNeeded :: nat
  us_bytesSeen :: nat
  us_lower :: byte
  us_upper :: byte

definition us_init :: utf8_state where
  "us_init = \<lparr>us_out = [], us_codePoint = 0, us_bytesNeeded = 0, us_bytesSeen = 0, us_lower = 0x80, us_upper = 0xBF\<rparr>"

text \<open>The branch for a possible leading byte; it always consumes the byte.\<close>

definition us_lead :: "byte \<Rightarrow> utf8_state \<Rightarrow> utf8_state" where
  "us_lead b st =
     (if b \<le> 0x7F then st\<lparr>us_out := us_out st @ [b]\<rparr>
      else if b \<ge> 0xC2 \<and> b \<le> 0xDF then st\<lparr>us_bytesNeeded := 1, us_codePoint := unat (b AND 0x1F)\<rparr>
      else if b \<ge> 0xE0 \<and> b \<le> 0xEF
      then st\<lparr>us_lower := (if b = 0xE0 then 0xA0 else us_lower st),
              us_upper := (if b = 0xED then 0x9F else us_upper st),
              us_bytesNeeded := 2, us_codePoint := unat (b AND 0x0F)\<rparr>
      else if b \<ge> 0xF0 \<and> b \<le> 0xF4
      then st\<lparr>us_lower := (if b = 0xF0 then 0x90 else us_lower st),
              us_upper := (if b = 0xF4 then 0x8F else us_upper st),
              us_bytesNeeded := 3, us_codePoint := unat (b AND 0x07)\<rparr>
      else st\<lparr>us_out := appendRune (us_out st) RuneError\<rparr>)"

definition us_cont :: "byte \<Rightarrow> utf8_state \<Rightarrow> utf8_state" where
  "us_cont b st =
     (let cp = push_bit 6 (us_codePoint st) OR unat (b AND 0x3F); seen = us_bytesSeen st + 1;
          st' = st\<lparr>us_lower := 0x80, us_upper := 0xBF, us_codePoint := cp, us_bytesSeen := seen\<rparr>
      in if seen = us_bytesNeeded st
         then st'\<lparr>us_out := appendRune (us_out st) cp, us_codePoint := 0, us_bytesNeeded := 0, us_bytesSeen := 0\<rparr>
         else st')"

text \<open>
  One pass over a byte: in the middle of a sequence a byte out of bounds ends the sequence with a
  replacement character and is looked at again as a leading byte.
\<close>

definition us_step :: "utf8_state \<Rightarrow> byte \<Rightarrow> utf8_state" where
  "us_step st b =
     (if us_bytesNeeded st = 0 then us_lead b st
      else if b < us_lower st \<or> b > us_upper st
      then us_lead b (st\<lparr>us_out := appendRune (us_out st) RuneError, us_codePoint := 0, us_bytesNeeded := 0,
             us_bytesSeen := 0, us_lower := 0x80, us_upper := 0xBF\<rparr>)
      else us_cont b st)"

definition replaceMalformedUTF8 :: "gostring \<Rightarrow> gostring" where
  "replaceMalformedUTF8 s =
     (let st = foldl us_step us_init s
      in if us_bytesNeeded st \<noteq> 0 then appendRune (us_out st) RuneError else us_out st)"

function normalize_loop :: "gostring \<Rightarrow> gostring \<Rightarrow> Number \<Rightarrow> gostring \<times> Number" where
  "normalize_loop s rest units =
     (if rest = [] then (s, units)
      else let (r, size) = decodeRune rest
           in if r = RuneError \<and> size = 1
              then let normalized = replaceMalformedUTF8 s in (normalized, stringLength normalized)
              else normalize_loop s (drop size rest) (if r \<ge> 0x10000 then units + 1 + 1 else units + 1))"
  by pat_completeness auto
termination
  by (relation "measure (\<lambda>(s, rest, units). length rest)") (auto simp: prod_eq_iff)

definition normalizeNonASCIITextUTF8WithLength :: "gostring \<Rightarrow> gostring \<times> Number" where
  "normalizeNonASCIITextUTF8WithLength s = normalize_loop s s 0"

definition normalizeTextUTF8WithLength :: "gostring \<Rightarrow> gostring \<times> Number" where
  "normalizeTextUTF8WithLength s =
     (if isASCIIText s then (s, int (length s)) else normalizeNonASCIITextUTF8WithLength s)"

definition normalizeTextUTF8 :: "gostring \<Rightarrow> gostring" where
  "normalizeTextUTF8 s = fst (normalizeTextUTF8WithLength s)"

fun charCodeAt_loop :: "rune list \<Rightarrow> Number \<Rightarrow> Number \<Rightarrow> go_error + uint16" where
  "charCodeAt_loop [] pos units = Inl NotFound"
| "charCodeAt_loop (r # rs) pos units =
     (if r < 0x10000
      then if units = pos then Inr (of_nat r) else charCodeAt_loop rs pos (units + 1)
      else let r' = r - 0x10000
           in if units = pos then Inr (of_nat (0xD800 + drop_bit 10 r'))
              else if units + 1 = pos then Inr (of_nat (0xDC00 + (r' AND 0x3FF)))
              else charCodeAt_loop rs pos (units + 2))"

definition charCodeAt :: "gostring \<Rightarrow> Number \<Rightarrow> go_error + uint16" where
  "charCodeAt str pos = (if pos \<ge> 0 then charCodeAt_loop (runes str) pos 0 else Inl NotFound)"

text \<open>
  \<open>splitStringUTF16AtBoundary\<close> for \<open>offset \<ge> 0\<close> (the code panics below): the bytes before the current rune, the
  bytes from it on, the units before it.
\<close>

function split_loop :: "gostring \<Rightarrow> gostring \<Rightarrow> Number \<Rightarrow> Number \<Rightarrow> gostring \<times> gostring \<times> bool" where
  "split_loop before rest units offset =
     (if rest = [] then (before, [], True)
      else if units = offset then (before, rest, True)
      else let (r, size) = decodeRune rest; width = (if r \<ge> 0x10000 then 2 else 1)
           in if units + width > offset
              then (before @ encodeRune RuneError, encodeRune RuneError @ drop size rest, False)
              else split_loop (before @ take size rest) (drop size rest) (units + width) offset)"
  by pat_completeness auto
termination
  by (relation "measure (\<lambda>(before, rest, units, offset). length rest)") (auto simp: prod_eq_iff)

definition splitStringUTF16AtBoundary :: "gostring \<Rightarrow> Number \<Rightarrow> gostring \<times> gostring \<times> bool" where
  "splitStringUTF16AtBoundary str offset =
     (if offset = 0 then ([], str, True) else split_loop [] str 0 offset)"

definition splitStringUTF16 :: "gostring \<Rightarrow> Number \<Rightarrow> gostring \<times> gostring" where
  "splitStringUTF16 str offset = (case splitStringUTF16AtBoundary str offset of (left, right, _) \<Rightarrow> (left, right))"

definition stringHeader :: "gostring \<Rightarrow> Number \<Rightarrow> gostring" where
  "stringHeader str offset = fst (splitStringUTF16 str offset)"

definition stringTail :: "gostring \<Rightarrow> Number \<Rightarrow> gostring" where
  "stringTail str offset = snd (splitStringUTF16 str offset)"

definition mergeString :: "gostring \<Rightarrow> gostring \<Rightarrow> gostring" where
  "mergeString str1 str2 =
     (if length str1 + length str2 \<le> 10000 then str1 @ str2 else ([] @ str1) @ str2)"

declare runes.simps [simp del] normalize_loop.simps [simp del] split_loop.simps [simp del]

section \<open>UTF-8\<close>

lemma unat_of_nat_byte: "n < 256 \<Longrightarrow> unat (of_nat n :: byte) = n"
  by (simp add: unsigned_of_nat take_bit_eq_mod)

lemma byte_eqI: "unat (b :: byte) = n \<Longrightarrow> of_nat n = b"
  by auto

lemma cont_bounds: "cont lo hi b \<Longrightarrow> lo \<le> unat b" "cont lo hi b \<Longrightarrow> unat b \<le> hi"
  by (simp_all add: cont_def)

lemma encodeRune_nonempty [simp]: "encodeRune r \<noteq> []"
  by (simp add: encodeRune_def Let_def)

text \<open>The bytes of a scalar value.\<close>

lemma encodeRune1: "r < 0x80 \<Longrightarrow> \<exists>b0. encodeRune r = [b0] \<and> unat b0 = r"
  by (simp add: encodeRune_def rune_ok_def unat_of_nat_byte)

lemma encodeRune2:
  assumes "0x80 \<le> r" "r < 0x800"
  shows "\<exists>b0 b1. encodeRune r = [b0, b1] \<and> unat b0 = 0xC0 + r div 64 \<and> unat b1 = 0x80 + r mod 64"
proof (intro exI conjI)
  have "rune_ok r" using assms by (simp add: rune_ok_def)
  then show "encodeRune r = [of_nat (0xC0 + r div 64), of_nat (0x80 + r mod 64)]"
    using assms by (simp add: encodeRune_def)
  show "unat (of_nat (0xC0 + r div 64) :: byte) = 0xC0 + r div 64" using assms by (intro unat_of_nat_byte) simp
  show "unat (of_nat (0x80 + r mod 64) :: byte) = 0x80 + r mod 64" by (intro unat_of_nat_byte) simp
qed

lemma encodeRune3:
  assumes "rune_ok r" "0x800 \<le> r" "r < 0x10000"
  shows "\<exists>b0 b1 b2. encodeRune r = [b0, b1, b2] \<and> unat b0 = 0xE0 + r div 4096 \<and>
    unat b1 = 0x80 + r div 64 mod 64 \<and> unat b2 = 0x80 + r mod 64"
proof (intro exI conjI)
  show "encodeRune r = [of_nat (0xE0 + r div 4096), of_nat (0x80 + r div 64 mod 64), of_nat (0x80 + r mod 64)]"
    using assms by (simp add: encodeRune_def)
  show "unat (of_nat (0xE0 + r div 4096) :: byte) = 0xE0 + r div 4096" using assms by (intro unat_of_nat_byte) simp
  show "unat (of_nat (0x80 + r div 64 mod 64) :: byte) = 0x80 + r div 64 mod 64" by (intro unat_of_nat_byte) simp
  show "unat (of_nat (0x80 + r mod 64) :: byte) = 0x80 + r mod 64" by (intro unat_of_nat_byte) simp
qed

lemma encodeRune4:
  assumes "0x10000 \<le> r" "r \<le> 0x10FFFF"
  shows "\<exists>b0 b1 b2 b3. encodeRune r = [b0, b1, b2, b3] \<and> unat b0 = 0xF0 + r div 262144 \<and>
    unat b1 = 0x80 + r div 4096 mod 64 \<and> unat b2 = 0x80 + r div 64 mod 64 \<and> unat b3 = 0x80 + r mod 64"
proof (intro exI conjI)
  have "rune_ok r" using assms by (simp add: rune_ok_def)
  then show "encodeRune r = [of_nat (0xF0 + r div 262144), of_nat (0x80 + r div 4096 mod 64),
      of_nat (0x80 + r div 64 mod 64), of_nat (0x80 + r mod 64)]"
    using assms by (simp add: encodeRune_def)
  show "unat (of_nat (0xF0 + r div 262144) :: byte) = 0xF0 + r div 262144" using assms by (intro unat_of_nat_byte) simp
  show "unat (of_nat (0x80 + r div 4096 mod 64) :: byte) = 0x80 + r div 4096 mod 64" by (intro unat_of_nat_byte) simp
  show "unat (of_nat (0x80 + r div 64 mod 64) :: byte) = 0x80 + r div 64 mod 64" by (intro unat_of_nat_byte) simp
  show "unat (of_nat (0x80 + r mod 64) :: byte) = 0x80 + r mod 64" by (intro unat_of_nat_byte) simp
qed

text \<open>Six-bit groups.\<close>

lemma groups3:
  assumes "y < 64" "z < 64" "r = x * 4096 + y * 64 + (z :: nat)"
  shows "r div 4096 = x" "r div 64 mod 64 = y" "r mod 64 = z"
proof -
  have r: "r = (x * 64 + y) * 64 + z" using assms(3) by simp
  then have d: "r div 64 = x * 64 + y" using assms(2) by simp
  have "((x * 64 + y) * 64 + z) mod 64 = z" using assms(2) by (simp only: mod_mult_self3 mod_less)
  then show "r mod 64 = z" using r by simp
  show "r div 64 mod 64 = y" using d assms(1) by simp
  have "r div 4096 = r div 64 div 64" by (simp add: div_mult2_eq [symmetric])
  also have "\<dots> = x" using d assms(1) by simp
  finally show "r div 4096 = x" .
qed

lemma groups3_ex: "(r :: nat) = r div 4096 * 4096 + r div 64 mod 64 * 64 + r mod 64"
proof -
  have "r = r div 64 * 64 + r mod 64" by simp
  also have "r div 64 = r div 64 div 64 * 64 + r div 64 mod 64" by simp
  also have "r div 64 div 64 = r div 4096" by (simp add: div_mult2_eq [symmetric])
  finally show ?thesis by (simp add: algebra_simps)
qed

lemma groups4:
  assumes "y < 64" "z < 64" "w < 64" "r = x * 262144 + y * 4096 + z * 64 + (w :: nat)"
  shows "r div 262144 = x" "r div 4096 mod 64 = y" "r div 64 mod 64 = z" "r mod 64 = w"
proof -
  have g: "r div 4096 = x * 64 + y" "r div 64 mod 64 = z" "r mod 64 = w"
    using groups3 [of z w r "x * 64 + y"] assms by simp_all
  then show "r div 64 mod 64 = z" "r mod 64 = w" by simp_all
  show "r div 4096 mod 64 = y" using g(1) assms(1) by simp
  have "r div 262144 = r div 4096 div 64" by (simp add: div_mult2_eq [symmetric])
  also have "\<dots> = x" using g(1) assms(1) by simp
  finally show "r div 262144 = x" .
qed

lemma groups4_ex:
  "(r :: nat) = r div 262144 * 262144 + r div 4096 mod 64 * 4096 + r div 64 mod 64 * 64 + r mod 64"
proof -
  have "r div 4096 = r div 4096 div 64 * 64 + r div 4096 mod 64" by simp
  also have "r div 4096 div 64 = r div 262144" by (simp add: div_mult2_eq [symmetric])
  finally have "r div 4096 * 4096 = r div 262144 * 262144 + r div 4096 mod 64 * 4096" by simp
  with groups3_ex [of r] show ?thesis by simp
qed

text \<open>Decoding what was encoded.\<close>

lemma decodeRune_encodeRune:
  assumes "rune_ok r"
  shows "decodeRune (encodeRune r @ rest) = (r, length (encodeRune r))"
proof -
  consider "r < 0x80" | "0x80 \<le> r" "r < 0x800" | "0x800 \<le> r" "r < 0x10000" | "0x10000 \<le> r" "r \<le> 0x10FFFF"
    using assms unfolding rune_ok_def by atomize_elim linarith
  then show ?thesis
  proof cases
    case 1
    then show ?thesis using encodeRune1 [of r] by (auto simp: decodeRune_def)
  next
    case 2
    then obtain b0 b1 where e: "encodeRune r = [b0, b1]" "unat b0 = 0xC0 + r div 64" "unat b1 = 0x80 + r mod 64"
      using encodeRune2 by blast
    have "2 \<le> r div 64" "r div 64 \<le> 31" "r mod 64 \<le> 63" "r div 64 * 64 + r mod 64 = r" using 2 by simp_all
    then show ?thesis unfolding e(1) decodeRune_def decode2_def cont_def using e(2,3) by (simp add: Let_def)
  next
    case 3
    then obtain b0 b1 b2 where e: "encodeRune r = [b0, b1, b2]" "unat b0 = 0xE0 + r div 4096"
      "unat b1 = 0x80 + r div 64 mod 64" "unat b2 = 0x80 + r mod 64"
      using encodeRune3 assms by blast
    have b: "r div 4096 \<le> 15" "r div 64 mod 64 \<le> 63" "r mod 64 \<le> 63" using 3 by simp_all
    note val = groups3_ex [of r, symmetric]
    have lo: "0x20 \<le> r div 64 mod 64" if "r div 4096 = 0" using 3(1) that val b by linarith
    have hi: "r div 64 mod 64 \<le> 0x1F" if "r div 4096 = 0xD"
      using assms that val b unfolding rune_ok_def by linarith
    show ?thesis
      unfolding e(1) decodeRune_def decode3_def cont_def using e(2-4) b lo hi val by (simp add: Let_def)
  next
    case 4
    then obtain b0 b1 b2 b3 where e: "encodeRune r = [b0, b1, b2, b3]" "unat b0 = 0xF0 + r div 262144"
      "unat b1 = 0x80 + r div 4096 mod 64" "unat b2 = 0x80 + r div 64 mod 64" "unat b3 = 0x80 + r mod 64"
      using encodeRune4 by blast
    have b: "r div 262144 \<le> 4" "r div 4096 mod 64 \<le> 63" "r div 64 mod 64 \<le> 63" "r mod 64 \<le> 63"
      using 4 by simp_all
    note val = groups4_ex [of r, symmetric]
    have lo: "0x10 \<le> r div 4096 mod 64" if "r div 262144 = 0" using 4(1) that val b by linarith
    have hi: "r div 4096 mod 64 \<le> 0xF" if "r div 262144 = 4" using 4(2) that val b by linarith
    show ?thesis
      unfolding e(1) decodeRune_def decode4_def cont_def using e(2-5) b lo hi val by (simp add: Let_def)
  qed
qed

lemma runes_encode:
  assumes "list_all rune_ok rs"
  shows "runes (utf8_encode rs @ rest) = rs @ runes rest"
  using assms
proof (induction rs)
  case (Cons r rs)
  let ?s = "encodeRune r @ utf8_encode rs @ rest"
  have d: "decodeRune ?s = (r, length (encodeRune r))" using Cons.prems by (simp add: decodeRune_encodeRune)
  have "runes ?s = r # runes (utf8_encode rs @ rest)" by (simp add: runes.simps [of ?s] d)
  with Cons show ?case by (simp add: utf8_encode_def)
qed (simp add: utf8_encode_def)

lemma utf8_encode_append [simp]: "utf8_encode (xs @ ys) = utf8_encode xs @ utf8_encode ys"
  by (simp add: utf8_encode_def)

lemma utf8_encode_Nil [simp]: "utf8_encode [] = []"
  by (simp add: utf8_encode_def)

lemma utf8_encode_Cons: "utf8_encode (r # rs) = encodeRune r @ utf8_encode rs"
  by (simp add: utf8_encode_def)

lemma runes_Nil [simp]: "runes [] = []"
  by (simp add: runes.simps)

lemma runes_utf8_encode: "list_all rune_ok rs \<Longrightarrow> runes (utf8_encode rs) = rs"
  using runes_encode [of rs "[]"] by simp

text \<open>A string is well-formed when it encodes scalar values.\<close>

definition utf8_valid :: "gostring \<Rightarrow> bool" where
  "utf8_valid s \<longleftrightarrow> list_all rune_ok (runes s) \<and> utf8_encode (runes s) = s"

lemma utf8_validI: "list_all rune_ok rs \<Longrightarrow> utf8_valid (utf8_encode rs)"
  by (simp add: utf8_valid_def runes_utf8_encode)

lemma utf8_validE:
  assumes "utf8_valid s"
  obtains rs where "list_all rune_ok rs" "s = utf8_encode rs" "runes s = rs"
  using assms by (auto simp: utf8_valid_def)

lemma utf8_valid_append: "utf8_valid s \<Longrightarrow> utf8_valid t \<Longrightarrow> utf8_valid (s @ t)"
  by (metis utf8_valid_def utf8_validI utf8_encode_append list_all_append)

lemma runes_append: "utf8_valid s \<Longrightarrow> runes (s @ t) = runes s @ runes t"
  by (metis utf8_valid_def runes_encode)

lemma RuneError_ok [simp]: "rune_ok RuneError"
  by (simp add: rune_ok_def RuneError_def)

lemma encodeRune_replaced: "encodeRune r = encodeRune (if rune_ok r then r else RuneError)"
  by (simp add: encodeRune_def)

lemma utf8_valid_encodeRune [simp]: "utf8_valid (encodeRune r)"
proof -
  have "encodeRune r = utf8_encode [if rune_ok r then r else RuneError]"
    by (subst encodeRune_replaced) (simp add: utf8_encode_def)
  then show ?thesis by (simp add: utf8_validI)
qed

lemma utf8_valid_Nil [simp]: "utf8_valid []"
  by (simp add: utf8_valid_def)

text \<open>Conversely, what decodes without an error is an encoded scalar value.\<close>

lemma decodeRune_ok:
  assumes "decodeRune s = (r, sz)" "s \<noteq> []" "\<not> (r = RuneError \<and> sz = 1)"
  shows "rune_ok r \<and> s = encodeRune r @ drop sz s \<and> sz = length (encodeRune r)"
proof -
  obtain b0 s' where s: "s = b0 # s'" using assms(2) by (cases s) auto
  let ?n = "unat b0"
  have n256: "?n < 256" using unsigned_less [of b0, where 'a = nat] by simp
  consider (a) "?n < 0x80" "r = ?n" "sz = 1"
    | (b) b1 t where "0xC2 \<le> ?n" "?n \<le> 0xDF" "s' = b1 # t" "cont 0x80 0xBF b1"
        "r = (?n - 0xC0) * 64 + (unat b1 - 0x80)" "sz = 2"
    | (c) b1 b2 t where "0xE0 \<le> ?n" "?n \<le> 0xEF" "s' = b1 # b2 # t"
        "cont (if ?n = 0xE0 then 0xA0 else 0x80) (if ?n = 0xED then 0x9F else 0xBF) b1" "cont 0x80 0xBF b2"
        "r = (?n - 0xE0) * 4096 + (unat b1 - 0x80) * 64 + (unat b2 - 0x80)" "sz = 3"
    | (d) b1 b2 b3 t where "0xF0 \<le> ?n" "?n \<le> 0xF4" "s' = b1 # b2 # b3 # t"
        "cont (if ?n = 0xF0 then 0x90 else 0x80) (if ?n = 0xF4 then 0x8F else 0xBF) b1" "cont 0x80 0xBF b2"
        "cont 0x80 0xBF b3" "sz = 4"
        "r = (?n - 0xF0) * 262144 + (unat b1 - 0x80) * 4096 + (unat b2 - 0x80) * 64 + (unat b3 - 0x80)"
    using assms(1,3) unfolding s decodeRune_def decode2_def decode3_def decode4_def
    by (auto simp: Let_def split: list.splits if_splits)
  then show ?thesis
  proof cases
    case a
    then show ?thesis using encodeRune1 [of r] by (auto simp: s rune_ok_def word_unat_eq_iff)
  next
    case b
    define x y where "x = ?n - 0xC0" and "y = unat b1 - 0x80"
    have xy: "?n = 0xC0 + x" "unat b1 = 0x80 + y" "2 \<le> x" "x < 32" "y < 64"
      using b(1,2,4) unfolding x_def y_def cont_def by linarith+
    have r: "r = x * 64 + y" using b(5) by (simp only: x_def y_def)
    have d: "r div 64 = x" "r mod 64 = y" "0x80 \<le> r" "r < 0x800" using r xy(3-5) by simp_all
    obtain c0 c1 where "encodeRune r = [c0, c1]" "unat c0 = unat b0" "unat c1 = unat b1"
      using encodeRune2 [OF d(3,4)] d(1,2) xy(1,2) by auto
    moreover have "rune_ok r" using d(4) by (simp add: rune_ok_def)
    ultimately show ?thesis using b(3,6) by (simp add: s word_unat_eq_iff)
  next
    case c
    define x y z where "x = ?n - 0xE0" and "y = unat b1 - 0x80" and "z = unat b2 - 0x80"
    have xyz: "?n = 0xE0 + x" "unat b1 = 0x80 + y" "unat b2 = 0x80 + z" "x < 16" "y < 64" "z < 64"
      using c(1,2) cont_bounds [OF c(4)] cont_bounds [OF c(5)] unfolding x_def y_def z_def
      by (simp_all split: if_splits)
    have lim: "x \<noteq> 0 \<or> 32 \<le> y" "x \<noteq> 13 \<or> y < 32"
      using c(1,2) cont_bounds [OF c(4)] unfolding x_def y_def by (simp_all split: if_splits)
    have r: "r = x * 4096 + y * 64 + z" using c(6) by (simp only: x_def y_def z_def)
    note d = groups3 [OF xyz(5,6) r]
    have "0x800 \<le> r" "r < 0x10000" using r xyz(4-6) lim(1) by linarith+
    moreover have ok: "rune_ok r" unfolding rune_ok_def
      using r xyz(4-6) lim(2) by (cases x "13 :: nat" rule: linorder_cases) auto
    ultimately obtain c0 c1 c2 where "encodeRune r = [c0, c1, c2]" "unat c0 = unat b0" "unat c1 = unat b1" "unat c2 = unat b2"
      using encodeRune3 [of r] d xyz(1-3) by auto
    then show ?thesis using c(3,7) ok by (simp add: s word_unat_eq_iff)
  next
    case d
    define x y z w where "x = ?n - 0xF0" and "y = unat b1 - 0x80" and "z = unat b2 - 0x80" and "w = unat b3 - 0x80"
    have xyz: "?n = 0xF0 + x" "unat b1 = 0x80 + y" "unat b2 = 0x80 + z" "unat b3 = 0x80 + w"
      "x < 5" "y < 64" "z < 64" "w < 64"
      using d(1,2) cont_bounds [OF d(4)] cont_bounds [OF d(5)] cont_bounds [OF d(6)]
      unfolding x_def y_def z_def w_def by (simp_all split: if_splits)
    have lim: "x \<noteq> 0 \<or> 16 \<le> y" "x \<noteq> 4 \<or> y < 16"
      using d(1,2) cont_bounds [OF d(4)] unfolding x_def y_def by (simp_all split: if_splits)
    have r: "r = x * 262144 + y * 4096 + z * 64 + w" using d(8) by (simp only: x_def y_def z_def w_def)
    note dd = groups4 [OF xyz(6-8) r]
    have rr: "0x10000 \<le> r" "r \<le> 0x10FFFF" using r xyz(5-8) lim by linarith+
    then have ok: "rune_ok r" by (simp add: rune_ok_def)
    obtain c0 c1 c2 c3 where "encodeRune r = [c0, c1, c2, c3]" "unat c0 = unat b0" "unat c1 = unat b1"
        "unat c2 = unat b2" "unat c3 = unat b3"
      using encodeRune4 [OF rr] dd xyz(1-4) by auto
    then show ?thesis using d(3,7) ok by (simp add: s word_unat_eq_iff)
  qed
qed

lemma decodeRune_error: "decodeRune s = (r, sz) \<Longrightarrow> s = [] \<or> r = RuneError \<and> sz = 1 \<or> rune_ok r"
  using decodeRune_ok by blast

lemma runes_rune_ok: "list_all rune_ok (runes s)"
proof (induction s rule: runes.induct)
  case (1 s)
  show ?case
  proof (cases "s = []")
    case False
    obtain r sz where d: "decodeRune s = (r, sz)" by fastforce
    with decodeRune_error [OF d] False have "rune_ok r" by auto
    with 1 False d show ?thesis by (simp add: runes.simps [of s])
  qed simp
qed

section \<open>UTF-16\<close>

lemma length_encodeUnits: "rune_ok r \<Longrightarrow> length (encodeUnits r) = rune_width r"
  by (simp add: encodeUnits_def rune_width_def)

lemma length_utf16_Encode: "list_all rune_ok rs \<Longrightarrow> length (utf16_Encode rs) = sum_list (map rune_width rs)"
  by (induction rs) (simp_all add: utf16_Encode_def length_encodeUnits)

lemma stringLength_sum: "stringLength s = int (sum_list (map rune_width (runes s)))"
proof -
  have "foldl (\<lambda>n r. if r \<ge> 0x10000 then n + 2 else n + 1) k rs = k + int (sum_list (map rune_width rs))"
    for k and rs :: "rune list"
    by (induction rs arbitrary: k) (simp_all add: rune_width_def)
  from this [of 0] show ?thesis by (simp add: stringLength_def)
qed

lemma stringLength_units: "stringLength s = int (length (utf16_Encode (runes s)))"
  by (simp add: stringLength_sum length_utf16_Encode runes_rune_ok)

lemma stringLength_append: "utf8_valid s \<Longrightarrow> stringLength (s @ t) = stringLength s + stringLength t"
  by (simp add: stringLength_sum runes_append)

lemma stringLength_Nil [simp]: "stringLength [] = 0"
  by (simp add: stringLength_sum)

lemma stringLength_nonneg [simp]: "0 \<le> stringLength s"
  by (simp add: stringLength_sum)

lemma unat_of_nat_unit: "n < 65536 \<Longrightarrow> unat (of_nat n :: uint16) = n"
  by (simp add: unsigned_of_nat take_bit_eq_mod)

lemma encodeUnits1:
  assumes "rune_ok r" "r < 0x10000"
  shows "\<exists>u. encodeUnits r = [u] \<and> unat u = r"
  using assms by (simp add: encodeUnits_def unat_of_nat_unit)

lemma encodeUnits2:
  assumes "0x10000 \<le> r" "r \<le> 0x10FFFF"
  shows "\<exists>u v. encodeUnits r = [u, v] \<and> unat u = 0xD800 + (r - 0x10000) div 1024 \<and> unat v = 0xDC00 + (r - 0x10000) mod 1024"
proof (intro exI conjI)
  have "rune_ok r" using assms by (simp add: rune_ok_def)
  then show "encodeUnits r = [of_nat (0xD800 + (r - 0x10000) div 1024), of_nat (0xDC00 + (r - 0x10000) mod 1024)]"
    using assms by (simp add: encodeUnits_def)
  show "unat (of_nat (0xD800 + (r - 0x10000) div 1024) :: uint16) = 0xD800 + (r - 0x10000) div 1024"
    using assms by (intro unat_of_nat_unit) simp
  show "unat (of_nat (0xDC00 + (r - 0x10000) mod 1024) :: uint16) = 0xDC00 + (r - 0x10000) mod 1024"
    by (intro unat_of_nat_unit) simp
qed

lemma utf16_Decode_encodeUnits:
  assumes "rune_ok r"
  shows "utf16_Decode (encodeUnits r @ us) = r # utf16_Decode us"
proof (cases "r < 0x10000")
  case True
  with assms obtain u where u: "encodeUnits r = [u]" "unat u = r" using encodeUnits1 by blast
  then show ?thesis using assms True by (auto simp: word_less_nat_alt word_le_nat_alt rune_ok_def)
next
  case False
  with assms have r: "0x10000 \<le> r" "r \<le> 0x10FFFF" by (auto simp: rune_ok_def)
  then obtain u v where u: "encodeUnits r = [u, v]" "unat u = 0xD800 + (r - 0x10000) div 1024"
      "unat v = 0xDC00 + (r - 0x10000) mod 1024"
    using encodeUnits2 by blast
  have "(r - 0x10000) div 1024 < 1024" "(r - 0x10000) mod 1024 < 1024" using r by simp_all
  moreover have "(r - 0x10000) div 1024 * 1024 + (r - 0x10000) mod 1024 + 0x10000 = r" using r by simp
  ultimately show ?thesis
    unfolding u(1) using u(2,3) by (simp add: word_less_nat_alt word_le_nat_alt)
qed

lemma utf16_roundtrip: "list_all rune_ok rs \<Longrightarrow> utf16_Decode (utf16_Encode rs) = rs"
  by (induction rs) (simp_all add: utf16_Encode_def utf16_Decode_encodeUnits)

lemma utf16_Encode_append: "utf16_Encode (xs @ ys) = utf16_Encode xs @ utf16_Encode ys"
  by (simp add: utf16_Encode_def)

section \<open>Normalisation\<close>

lemma us_lead_valid: "utf8_valid (us_out st) \<Longrightarrow> utf8_valid (us_out (us_lead b st))"
proof -
  assume v: "utf8_valid (us_out st)"
  have "utf8_valid [b]" if "b \<le> 0x7F"
  proof -
    have "[b] = encodeRune (unat b)"
      using that by (simp add: encodeRune_def rune_ok_def word_le_nat_alt)
    then show ?thesis by (metis utf8_valid_encodeRune)
  qed
  with v show ?thesis by (auto simp: us_lead_def appendRune_def intro: utf8_valid_append)
qed

lemma us_step_valid: "utf8_valid (us_out st) \<Longrightarrow> utf8_valid (us_out (us_step st b))"
  by (auto simp: us_step_def us_cont_def Let_def appendRune_def intro!: us_lead_valid utf8_valid_append)

lemma replaceMalformedUTF8_valid: "utf8_valid (replaceMalformedUTF8 s)"
proof -
  have "utf8_valid (us_out (foldl us_step st s))" if "utf8_valid (us_out st)" for st
    using that by (induction s arbitrary: st) (simp_all add: us_step_valid)
  from this [of us_init] show ?thesis
    by (auto simp: replaceMalformedUTF8_def Let_def appendRune_def us_init_def intro: utf8_valid_append)
qed

lemma normalize_loop_spec:
  "normalize_loop s rest units =
     (if utf8_valid rest then (s, units + stringLength rest)
      else (replaceMalformedUTF8 s, stringLength (replaceMalformedUTF8 s)))"
proof (induction s rest units rule: normalize_loop.induct)
  case (1 s rest units)
  show ?case
  proof (cases "rest = []")
    case True
    then show ?thesis by (simp add: normalize_loop.simps stringLength_sum)
  next
    case False
    obtain r sz where d: "decodeRune rest = (r, sz)" by fastforce
    show ?thesis
    proof (cases "r = RuneError \<and> sz = 1")
      case bad: True
      have "\<not> utf8_valid rest"
      proof
        assume "utf8_valid rest"
        then have "utf8_encode (runes rest) = rest" by (simp add: utf8_valid_def)
        moreover have "runes rest = RuneError # runes (drop 1 rest)"
          using False d bad by (simp add: runes.simps [of rest])
        ultimately have "decodeRune rest = (RuneError, length (encodeRune RuneError))"
          using decodeRune_encodeRune [OF RuneError_ok] by (metis utf8_encode_Cons)
        with d bad show False by (simp add: encodeRune_def RuneError_def rune_ok_def)
      qed
      with False d bad show ?thesis by (simp add: normalize_loop.simps [of s rest] Let_def)
    next
      case good: False
      note ok = decodeRune_ok [OF d False good]
      have r: "runes rest = r # runes (drop sz rest)" using False d by (simp add: runes.simps [of rest])
      have "utf8_valid rest \<longleftrightarrow> utf8_valid (drop sz rest)"
      proof
        assume "utf8_valid (drop sz rest)"
        then show "utf8_valid rest" using ok by (metis utf8_valid_append utf8_valid_encodeRune)
      next
        assume "utf8_valid rest"
        then have "encodeRune r @ utf8_encode (runes (drop sz rest)) = rest"
          using r by (simp add: utf8_valid_def utf8_encode_Cons)
        with ok have "encodeRune r @ utf8_encode (runes (drop sz rest)) = encodeRune r @ drop sz rest" by metis
        then show "utf8_valid (drop sz rest)" by (simp add: utf8_valid_def runes_rune_ok)
      qed
      moreover have "stringLength rest = int (rune_width r) + stringLength (drop sz rest)"
        by (simp add: stringLength_sum r)
      moreover have "normalize_loop s rest units =
          normalize_loop s (drop sz rest) (if r \<ge> 0x10000 then units + 1 + 1 else units + 1)"
        using False d good by (auto simp: normalize_loop.simps [of s rest])
      ultimately show ?thesis
        using 1 [OF False d [symmetric] refl good] by (auto simp: rune_width_def)
    qed
  qed
qed

lemma ascii_valid: "isASCIIText s \<Longrightarrow> utf8_valid s \<and> stringLength s = int (length s)"
proof (induction s)
  case (Cons b s)
  then have b: "b < 0x80" and s: "utf8_valid s" "stringLength s = int (length s)" by (simp_all add: isASCIIText_def)
  have e: "[b] = encodeRune (unat b)"
    using b by (simp add: encodeRune_def rune_ok_def word_less_nat_alt)
  have v: "utf8_valid [b]" unfolding e by simp
  have "runes [b] = [unat b]"
    using b by (simp add: runes.simps [of "[b]"] decodeRune_def word_less_nat_alt)
  then have l: "stringLength [b] = 1"
    using b by (simp add: stringLength_sum rune_width_def word_less_nat_alt)
  have "utf8_valid ([b] @ s)" "stringLength ([b] @ s) = stringLength [b] + stringLength s"
    using v s(1) by (rule utf8_valid_append, intro stringLength_append)
  with l s(2) show ?case by simp
qed (simp add: stringLength_sum)

lemma normalize_spec:
  "normalizeTextUTF8WithLength s =
     (if utf8_valid s then (s, stringLength s) else (replaceMalformedUTF8 s, stringLength (replaceMalformedUTF8 s)))"
  using ascii_valid [of s]
  by (simp add: normalizeTextUTF8WithLength_def normalizeNonASCIITextUTF8WithLength_def normalize_loop_spec)

text \<open>The replacement decoder leaves well-formed text as it is.\<close>

lemma byte_masks:
  "unat (b AND 0x3F :: byte) = unat b mod 64" "unat (b AND 0x1F :: byte) = unat b mod 32"
  "unat (b AND 0x0F :: byte) = unat b mod 16" "unat (b AND 0x07 :: byte) = unat b mod 8"
proof -
  have m: "unat (b AND mask n :: byte) = unat b mod 2 ^ n" for n
    unfolding take_bit_eq_mask [symmetric] unsigned_take_bit_eq by (rule take_bit_eq_mod)
  show "unat (b AND 0x3F :: byte) = unat b mod 64" "unat (b AND 0x1F :: byte) = unat b mod 32"
    "unat (b AND 0x0F :: byte) = unat b mod 16" "unat (b AND 0x07 :: byte) = unat b mod 8"
    using m [of 6] m [of 5] m [of 4] m [of 3] by (simp_all add: mask_eq_exp_minus_1)
qed

lemma push_or_add: "x < 64 \<Longrightarrow> push_bit 6 (c :: nat) OR x = c * 64 + x"
proof -
  assume "x < 64"
  then have "take_bit 6 x = x" by (simp add: take_bit_eq_mod)
  then have "push_bit 6 c AND x = 0"
    by (metis bit_eqI bit_0_eq bit_and_iff bit_push_bit_iff bit_take_bit_iff bot_apply bot_bool_def not_less)
  then have "push_bit 6 c + x = push_bit 6 c OR x" by (rule disjunctive_add_eq_or)
  then show ?thesis by (simp add: push_bit_eq_mult)
qed

definition idle :: "gostring \<Rightarrow> utf8_state" where
  "idle out = us_init\<lparr>us_out := out\<rparr>"

definition busy :: "gostring \<Rightarrow> nat \<Rightarrow> nat \<Rightarrow> nat \<Rightarrow> byte \<Rightarrow> byte \<Rightarrow> utf8_state" where
  "busy out cp need seen lo hi =
     \<lparr>us_out = out, us_codePoint = cp, us_bytesNeeded = need, us_bytesSeen = seen, us_lower = lo, us_upper = hi\<rparr>"

lemma us_step_more:
  assumes "unat lo \<le> unat b" "unat b \<le> unat hi" "Suc seen < need"
  shows "us_step (busy out cp need seen lo hi) b =
    busy out (cp * 64 + unat b mod 64) need (Suc seen) 0x80 0xBF"
  using assms push_or_add [of "unat b mod 64" cp]
  by (simp add: us_step_def busy_def us_cont_def byte_masks word_less_nat_alt Let_def)

lemma us_step_last:
  assumes "unat lo \<le> unat b" "unat b \<le> unat hi" "Suc seen = need"
  shows "us_step (busy out cp need seen lo hi) b = idle (out @ encodeRune (cp * 64 + unat b mod 64))"
  using assms push_or_add [of "unat b mod 64" cp]
  by (simp add: us_step_def busy_def us_cont_def byte_masks word_less_nat_alt Let_def idle_def us_init_def appendRune_def)

lemma us_step_lead:
  "unat b < 0x80 \<Longrightarrow> us_step (idle out) b = idle (out @ [b])"
  "0xC2 \<le> unat b \<Longrightarrow> unat b \<le> 0xDF \<Longrightarrow> us_step (idle out) b = busy out (unat b mod 32) 1 0 0x80 0xBF"
  "0xE0 \<le> unat b \<Longrightarrow> unat b \<le> 0xEF \<Longrightarrow> us_step (idle out) b =
     busy out (unat b mod 16) 2 0 (if unat b = 0xE0 then 0xA0 else 0x80) (if unat b = 0xED then 0x9F else 0xBF)"
  "0xF0 \<le> unat b \<Longrightarrow> unat b \<le> 0xF4 \<Longrightarrow> us_step (idle out) b =
     busy out (unat b mod 8) 3 0 (if unat b = 0xF0 then 0x90 else 0x80) (if unat b = 0xF4 then 0x8F else 0xBF)"
  by (auto simp: us_step_def idle_def us_init_def us_lead_def byte_masks word_le_nat_alt busy_def word_unat_eq_iff)

lemma lead_mods:
  "x < 32 \<Longrightarrow> (192 + x) mod 32 = (x :: nat)" "x < 64 \<Longrightarrow> (128 + x) mod 64 = x"
  "x < 16 \<Longrightarrow> (224 + x) mod 16 = x" "x < 8 \<Longrightarrow> (240 + x) mod 8 = x"
  using mod_mult_self3 [of 6 32 x] mod_mult_self3 [of 2 64 x] mod_mult_self3 [of 14 16 x] mod_mult_self3 [of 30 8 x]
  by simp_all

lemma us_steps_encodeRune:
  assumes "rune_ok r"
  shows "foldl us_step (idle out) (encodeRune r) = idle (out @ encodeRune r)"
proof -
  consider "r < 0x80" | "0x80 \<le> r" "r < 0x800" | "0x800 \<le> r" "r < 0x10000" | "0x10000 \<le> r" "r \<le> 0x10FFFF"
    using assms unfolding rune_ok_def by atomize_elim linarith
  then show ?thesis
  proof cases
    case 1
    then show ?thesis using encodeRune1 [of r] us_step_lead(1) by auto
  next
    case 2
    then obtain b0 b1 where e: "encodeRune r = [b0, b1]" "unat b0 = 0xC0 + r div 64" "unat b1 = 0x80 + r mod 64"
      using encodeRune2 by blast
    have d: "2 \<le> r div 64" "r div 64 < 32" "r mod 64 < 64" "r div 64 * 64 + r mod 64 = r" using 2 by simp_all
    have "unat b0 mod 32 = r div 64" using e(2) d(2) by (simp add: lead_mods)
    then have s0: "us_step (idle out) b0 = busy out (r div 64) 1 0 0x80 0xBF"
      using us_step_lead(2) [of b0 out] e(2) d by simp
    have "us_step (busy out (r div 64) 1 0 0x80 0xBF) b1 = idle (out @ encodeRune (r div 64 * 64 + unat b1 mod 64))"
      using e(3) d(3) by (intro us_step_last) simp_all
    also have "unat b1 mod 64 = r mod 64" using e(3) by (simp add: lead_mods)
    finally show ?thesis unfolding e(1) using s0 d(4) e(1) by simp
  next
    case 3
    then obtain b0 b1 b2 where e: "encodeRune r = [b0, b1, b2]" "unat b0 = 0xE0 + r div 4096"
      "unat b1 = 0x80 + r div 64 mod 64" "unat b2 = 0x80 + r mod 64"
      using encodeRune3 assms by blast
    have b: "r div 4096 \<le> 15" "r div 64 mod 64 \<le> 63" "r mod 64 \<le> 63" using 3 by simp_all
    note val = groups3_ex [of r, symmetric]
    have lo: "0x20 \<le> r div 64 mod 64" if "r div 4096 = 0" using 3(1) that val b by linarith
    have hi: "r div 64 mod 64 \<le> 0x1F" if "r div 4096 = 0xD"
      using assms that val b unfolding rune_ok_def by linarith
    have m: "unat b0 mod 16 = r div 4096" "unat b1 mod 64 = r div 64 mod 64" "unat b2 mod 64 = r mod 64"
      unfolding e(2-4) using b by (intro lead_mods; linarith)+
    define l h where "l = (if unat b0 = 0xE0 then 0xA0 else 0x80 :: byte)"
      and "h = (if unat b0 = 0xED then 0x9F else 0xBF :: byte)"
    have "0xE0 \<le> unat b0" "unat b0 \<le> 0xEF" using e(2) b(1) by simp_all
    note s0 = us_step_lead(3) [OF this, of out, folded l_def h_def, unfolded m(1)]
    have lh: "unat l \<le> unat b1" "unat b1 \<le> unat h"
      unfolding l_def h_def e(2,3) using lo hi b(2) by simp_all
    have s1: "us_step (busy out (r div 4096) 2 0 l h) b1 = busy out (r div 4096 * 64 + unat b1 mod 64) 2 (Suc 0) 0x80 0xBF"
      using lh by (intro us_step_more) simp_all
    have s2: "us_step (busy out (r div 4096 * 64 + unat b1 mod 64) 2 (Suc 0) 0x80 0xBF) b2 =
        idle (out @ encodeRune ((r div 4096 * 64 + unat b1 mod 64) * 64 + unat b2 mod 64))"
      using e(4) b by (intro us_step_last) simp_all
    have "(r div 4096 * 64 + unat b1 mod 64) * 64 + unat b2 mod 64 = r" unfolding m(2,3) using val by simp
    then show ?thesis unfolding e(1) using s0 s1 s2 e(1) by simp
  next
    case 4
    then obtain b0 b1 b2 b3 where e: "encodeRune r = [b0, b1, b2, b3]" "unat b0 = 0xF0 + r div 262144"
      "unat b1 = 0x80 + r div 4096 mod 64" "unat b2 = 0x80 + r div 64 mod 64" "unat b3 = 0x80 + r mod 64"
      using encodeRune4 by blast
    have b: "r div 262144 \<le> 4" "r div 4096 mod 64 \<le> 63" "r div 64 mod 64 \<le> 63" "r mod 64 \<le> 63"
      using 4 by simp_all
    note val = groups4_ex [of r, symmetric]
    have lo: "0x10 \<le> r div 4096 mod 64" if "r div 262144 = 0" using 4(1) that val b by linarith
    have hi: "r div 4096 mod 64 \<le> 0xF" if "r div 262144 = 4" using 4(2) that val b by linarith
    have m: "unat b0 mod 8 = r div 262144" "unat b1 mod 64 = r div 4096 mod 64" "unat b2 mod 64 = r div 64 mod 64"
      "unat b3 mod 64 = r mod 64"
      unfolding e(2-5) using b by (intro lead_mods; linarith)+
    let ?c1 = "r div 262144 * 64 + unat b1 mod 64"
    let ?c2 = "?c1 * 64 + unat b2 mod 64"
    define l h where "l = (if unat b0 = 0xF0 then 0x90 else 0x80 :: byte)"
      and "h = (if unat b0 = 0xF4 then 0x8F else 0xBF :: byte)"
    have "0xF0 \<le> unat b0" "unat b0 \<le> 0xF4" using e(2) b(1) by simp_all
    note s0 = us_step_lead(4) [OF this, of out, folded l_def h_def, unfolded m(1)]
    have lh: "unat l \<le> unat b1" "unat b1 \<le> unat h"
      unfolding l_def h_def e(2,3) using lo hi b(2) by simp_all
    have s1: "us_step (busy out (r div 262144) 3 0 l h) b1 = busy out ?c1 3 (Suc 0) 0x80 0xBF"
      using lh by (intro us_step_more) simp_all
    have s2: "us_step (busy out ?c1 3 (Suc 0) 0x80 0xBF) b2 = busy out ?c2 3 (Suc (Suc 0)) 0x80 0xBF"
      using e(4) b by (intro us_step_more) simp_all
    have s3: "us_step (busy out ?c2 3 (Suc (Suc 0)) 0x80 0xBF) b3 = idle (out @ encodeRune (?c2 * 64 + unat b3 mod 64))"
      using e(5) b by (intro us_step_last) simp_all
    have "?c2 * 64 + unat b3 mod 64 = r" unfolding m(2-4) using val by simp
    then show ?thesis unfolding e(1) using s0 s1 s2 s3 e(1) by simp
  qed
qed

lemma replaceMalformedUTF8_id:
  assumes "utf8_valid s"
  shows "replaceMalformedUTF8 s = s"
proof -
  obtain rs where rs: "list_all rune_ok rs" "s = utf8_encode rs" using assms by (rule utf8_validE)
  have "foldl us_step (idle out) (utf8_encode rs) = idle (out @ utf8_encode rs)" for out
    using rs(1) by (induction rs arbitrary: out) (simp_all add: utf8_encode_Cons us_steps_encodeRune)
  from this [of "[]"] have "foldl us_step us_init s = idle s" by (simp add: rs(2) idle_def us_init_def)
  then show ?thesis by (simp add: replaceMalformedUTF8_def idle_def us_init_def)
qed

section \<open>Code units and splitting\<close>

lemma charCodeAt_loop_spec:
  assumes "list_all rune_ok rs" "units \<le> pos"
  shows "charCodeAt_loop rs pos units =
    (if pos - units < int (length (utf16_Encode rs)) then Inr (utf16_Encode rs ! nat (pos - units)) else Inl NotFound)"
  using assms
proof (induction rs arbitrary: units)
  case Nil
  then show ?case by (simp add: utf16_Encode_def)
next
  case (Cons r rs)
  have E: "utf16_Encode (r # rs) = encodeUnits r @ utf16_Encode rs" by (simp add: utf16_Encode_def)
  show ?case
  proof (cases "r < 0x10000")
    case True
    then have e: "encodeUnits r = [of_nat r]" using Cons.prems(1) by (simp add: encodeUnits_def)
    show ?thesis
    proof (cases "units = pos")
      case False
      then have "nat (pos - units) = Suc (nat (pos - (units + 1)))" using Cons.prems(2) by simp
      with True False Cons.IH [of "units + 1"] Cons.prems show ?thesis by (simp add: E e)
    qed (use True in \<open>simp add: E e\<close>)
  next
    case False
    define q where "q = r - 0x10000"
    have e: "encodeUnits r = [of_nat (0xD800 + drop_bit 10 q), of_nat (0xDC00 + (q AND 0x3FF))]"
    proof -
      have "q AND 0x3FF = take_bit 10 q" by (simp add: take_bit_eq_mask mask_eq_exp_minus_1)
      then show ?thesis
        using False Cons.prems(1) by (simp add: encodeUnits_def q_def drop_bit_eq_div take_bit_eq_mod)
    qed
    consider "units = pos" | "units + 1 = pos" | "units + 2 \<le> pos" using Cons.prems(2) by linarith
    then show ?thesis
    proof cases
      case 1
      with False show ?thesis by (simp add: E e Let_def q_def)
    next
      case 2
      then have "nat (pos - units) = 1" by simp
      with 2 False show ?thesis by (simp add: E e Let_def q_def)
    next
      case 3
      then have "nat (pos - units) = Suc (Suc (nat (pos - (units + 2))))" by simp
      with 3 False Cons.IH [of "units + 2"] Cons.prems show ?thesis by (simp add: E e Let_def)
    qed
  qed
qed

lemma split_loop_spec:
  assumes "utf8_valid before" "utf8_valid rest" "units = stringLength before" "units \<le> offset"
    "split_loop before rest units offset = (l, r, b)"
  shows "utf8_valid l \<and> utf8_valid r \<and> stringLength l = min offset (units + stringLength rest) \<and>
    stringLength l + stringLength r = units + stringLength rest \<and> b = (l @ r = before @ rest)"
  using assms
proof (induction before rest units offset rule: split_loop.induct)
  case (1 before rest units offset)
  consider (fin) "rest = []" | (here) "rest \<noteq> []" "units = offset" | (go) "rest \<noteq> []" "units < offset"
    using "1.prems"(4) by linarith
  then show ?case
  proof cases
    case fin
    then have "split_loop before rest units offset = (before, [], True)" by (simp add: split_loop.simps)
    with "1.prems" fin show ?thesis by simp
  next
    case here
    then have "split_loop before rest units offset = (before, rest, True)" by (simp add: split_loop.simps [of before rest])
    with "1.prems" here show ?thesis by simp
  next
    case go
    obtain c cs where rs: "runes rest = c # cs" "rune_ok c" "list_all rune_ok cs" "rest = encodeRune c @ utf8_encode cs"
      using "1.prems"(2) go(1) by (cases "runes rest") (auto simp: utf8_valid_def utf8_encode_Cons)
    have d: "decodeRune rest = (c, length (encodeRune c))" using rs by (simp add: decodeRune_encodeRune)
    have tail: "drop (length (encodeRune c)) rest = utf8_encode cs" "take (length (encodeRune c)) rest = encodeRune c"
      "utf8_valid (utf8_encode cs)"
      using rs by (simp_all add: utf8_validI)
    have len: "stringLength rest = int (rune_width c) + stringLength (utf8_encode cs)"
      "stringLength (encodeRune c) = int (rune_width c)"
      using rs runes_utf8_encode [of "[c]"] by (simp_all add: stringLength_sum runes_utf8_encode utf8_encode_Cons)
    have err: "stringLength (encodeRune RuneError) = 1"
      using runes_utf8_encode [of "[RuneError]"]
      by (simp add: stringLength_sum utf8_encode_Cons rune_width_def) (simp add: RuneError_def)
    show ?thesis
    proof (cases "units + int (rune_width c) > offset")
      case True
      then have w: "rune_width c = 2" "offset = units + 1" using go(2) by (auto simp: rune_width_def split: if_splits)
      then have "split_loop before rest units offset =
          (before @ encodeRune RuneError, encodeRune RuneError @ utf8_encode cs, False)"
        using go True d tail by (auto simp: split_loop.simps [of before rest] rune_width_def split: if_splits)
      moreover have "length (encodeRune c) = 4" "length (encodeRune RuneError) = 3"
        using rs(2) w(1) by (auto simp: encodeRune_def RuneError_def rune_ok_def rune_width_def split: if_splits)
      then have "length ((before @ encodeRune RuneError) @ encodeRune RuneError @ utf8_encode cs) \<noteq> length (before @ rest)"
        by (simp add: rs(4))
      then have "(before @ encodeRune RuneError) @ encodeRune RuneError @ utf8_encode cs \<noteq> before @ rest" by metis
      ultimately show ?thesis using "1.prems" len err w tail
        by (auto simp: stringLength_append utf8_valid_append)
    next
      case False
      let ?w = "if c \<ge> 0x10000 then 2 else 1 :: int"
      have w: "int (rune_width c) = ?w" by (simp add: rune_width_def)
      have "split_loop before rest units offset =
          split_loop (before @ encodeRune c) (utf8_encode cs) (units + ?w) offset"
        using go False d tail w by (simp add: split_loop.simps [of before rest])
      moreover have "utf8_valid (before @ encodeRune c)" "units + ?w = stringLength (before @ encodeRune c)"
        using "1.prems"(1,3) len w by (auto intro: utf8_valid_append simp: stringLength_append)
      ultimately show ?thesis
        using "1.IH" [OF go(1) _ d [symmetric] refl] go(2) False "1.prems"(5) tail len w rs(4) by simp
    qed
  qed
qed

section \<open>Properties\<close>

text \<open>
  Claim C29. Normalisation of text: whatever the bytes, the result is well-formed UTF-8 and the second result is its length
  in UTF-16 code units; well-formed text is returned unchanged, so normalising twice changes
  nothing. The replacement decoder itself leaves well-formed text as it is.
\<close>

theorem normalizeTextUTF8_correct:
  "utf8_valid (normalizeTextUTF8 s) \<and>
   snd (normalizeTextUTF8WithLength s) = stringLength (normalizeTextUTF8 s) \<and>
   (utf8_valid s = (normalizeTextUTF8 s = s)) \<and>
   normalizeTextUTF8 (normalizeTextUTF8 s) = normalizeTextUTF8 s \<and>
   replaceMalformedUTF8 (normalizeTextUTF8 s) = normalizeTextUTF8 s"
proof -
  have v: "utf8_valid (normalizeTextUTF8 s)"
    by (simp add: normalizeTextUTF8_def normalize_spec replaceMalformedUTF8_valid)
  moreover have id: "normalizeTextUTF8 t = t" if "utf8_valid t" for t
    using that by (simp add: normalizeTextUTF8_def normalize_spec)
  moreover have "snd (normalizeTextUTF8WithLength s) = stringLength (normalizeTextUTF8 s)"
    by (simp add: normalizeTextUTF8_def normalize_spec)
  ultimately show ?thesis using replaceMalformedUTF8_id by metis
qed

text \<open>
  Lengths and code units: \<open>stringLength\<close> counts the UTF-16 code units of a string, \<open>charCodeAt\<close> returns the
  unit at a position and an error exactly outside the string, and decoding the units gives the
  runes back.
\<close>

theorem charCodeAt_correct:
  "stringLength s = int (length (utf16_Encode (runes s))) \<and>
   charCodeAt s pos =
     (if 0 \<le> pos \<and> pos < stringLength s then Inr (utf16_Encode (runes s) ! nat pos) else Inl NotFound) \<and>
   utf16_Decode (utf16_Encode (runes s)) = runes s"
  by (simp add: charCodeAt_def charCodeAt_loop_spec runes_rune_ok stringLength_units utf16_roundtrip)



end
