(* ===== verification/StringCodec.thy ===== *)
theory StringCodec
  imports ColumnCodecs Utf
begin

text \<open>
  The string column of the V2 wire format (\<^verbatim>\<open>crdt/string_codec.go\<close>): all strings concatenated as one
  length-prefixed string, followed by a uint column of their lengths in UTF-16 code units. It is
  another instance of the interface \<open>column_codec\<close>, for well-formed strings.

  The Go encoder keeps ten unused bytes in front of the text and writes the length prefix into
  them, in place. The buffer is a value here; \<open>prefix_fits\<close> shows that the prefix ends exactly where
  the text begins, so the in-place writes touch no text.
\<close>

section \<open>Definitions\<close>

definition stringEncoderPrefixHeadroom :: nat where
  "stringEncoderPrefixHeadroom = 10"

record stringEncoder =
  se_text :: "byte list"
  se_lens :: uintOptRLEEncoder

definition newDefaultStringEncoder :: stringEncoder where
  "newDefaultStringEncoder =
     \<lparr>se_text = replicate stringEncoderPrefixHeadroom 0, se_lens = newUintOptRLEEncoder\<rparr>"

definition string_writeWithLength :: "stringEncoder \<Rightarrow> gostring \<Rightarrow> Number \<Rightarrow> stringEncoder" where
  "string_writeWithLength e s len =
     e\<lparr>se_text := se_text e @ s, se_lens := uint_writeValue (se_lens e) (word_of_int len)\<rparr>"

definition string_writeValue :: "stringEncoder \<Rightarrow> gostring \<Rightarrow> stringEncoder" where
  "string_writeValue e s = string_writeWithLength e s (stringLength s)"

definition string_bytes :: "stringEncoder \<Rightarrow> byte list" where
  "string_bytes e =
     (let lens = uint_bytes (se_lens e);
          textLength = length (se_text e) - stringEncoderPrefixHeadroom;
          out = appendVarUint [] (of_nat textLength);
          out = out @ drop stringEncoderPrefixHeadroom (se_text e)
      in out @ lens)"

record stringDecoder =
  sd_units :: "uint16 list"
  sd_ascii :: gostring
  sd_asciiMode :: bool
  sd_spos :: nat
  sd_lens :: uintOptRLEDecoder
  sd_initErr :: "go_error option"

definition newStringDecoder :: "byte list \<Rightarrow> stringDecoder" where
  "newStringDecoder data =
     (case ReadString data of (r, lensBuffer) \<Rightarrow>
        let str = (case r of Inl _ \<Rightarrow> [] | Inr s \<Rightarrow> s);
            d = \<lparr>sd_units = [], sd_ascii = [], sd_asciiMode = list_all (\<lambda>b. b < 0x80) str, sd_spos = 0,
                 sd_lens = newUintOptRLEDecoder lensBuffer,
                 sd_initErr = (case r of Inl e \<Rightarrow> Some e | Inr _ \<Rightarrow> None)\<rparr>
        in if sd_asciiMode d then d\<lparr>sd_ascii := str\<rparr>
           else d\<lparr>sd_units := utf16_Encode (runes (normalizeTextUTF8 str))\<rparr>)"

definition string_textLength :: "stringDecoder \<Rightarrow> nat" where
  "string_textLength d = (if sd_asciiMode d then length (sd_ascii d) else length (sd_units d))"

definition string_remaining :: "stringDecoder \<Rightarrow> nat" where
  "string_remaining d = uint_remaining (sd_lens d) + (string_textLength d - sd_spos d)"

definition string_readValue :: "stringDecoder \<Rightarrow> (go_error + gostring) \<times> stringDecoder" where
  "string_readValue d =
     (case sd_initErr d of
        Some err \<Rightarrow> (Inl err, d)
      | None \<Rightarrow>
          (case uint_readValue (sd_lens d) of
             (Inl err, lens) \<Rightarrow> (Inl err, d\<lparr>sd_lens := lens\<rparr>)
           | (Inr n, lens) \<Rightarrow>
               let d1 = d\<lparr>sd_lens := lens\<rparr>; remaining = string_textLength d - sd_spos d
               in if unat n > remaining then (Inl StringOverrun, d1)
                  else let end = sd_spos d + unat n
                       in if sd_asciiMode d
                          then (Inr (drop (sd_spos d) (take end (sd_ascii d))), d1\<lparr>sd_spos := end\<rparr>)
                          else (Inr (utf8_encode (utf16_Decode (drop (sd_spos d) (take end (sd_units d))))),
                                d1\<lparr>sd_spos := end\<rparr>)))"

section \<open>The encoder\<close>

lemma prefix_fits:
  "length (appendVarUint [] v) = varUintEncodedLen v \<and> varUintEncodedLen v \<le> stringEncoderPrefixHeadroom"
  by (simp add: appendVarUint_eq length_WriteVarUint stringEncoderPrefixHeadroom_def)

definition unit_length :: "gostring \<Rightarrow> uint64" where
  "unit_length s = word_of_int (stringLength s)"

lemma string_written:
  "se_text (foldl string_writeValue newDefaultStringEncoder ss) = replicate stringEncoderPrefixHeadroom 0 @ concat ss"
  "se_lens (foldl string_writeValue newDefaultStringEncoder ss) =
     foldl uint_writeValue newUintOptRLEEncoder (map unit_length ss)"
  by (induction ss rule: rev_induct)
    (simp_all add: newDefaultStringEncoder_def string_writeValue_def string_writeWithLength_def unit_length_def)

lemma string_bytes_written:
  "string_bytes (foldl string_writeValue newDefaultStringEncoder ss) =
     WriteString [] (concat ss) @ uint_col.column (map unit_length ss)"
  by (simp add: string_bytes_def string_written appendVarUint_eq WriteString_eq len64_def Let_def
    uint_col.column_def uint_col.written_def)

text \<open>Columns the codec carries: well-formed strings, the whole text within a Go slice.\<close>

definition string_column_ok :: "gostring list \<Rightarrow> bool" where
  "string_column_ok ss \<longleftrightarrow> length ss \<le> 2147483647 \<and> list_all utf8_valid ss \<and> int (length (concat ss)) \<le> MaxInt"

lemma string_column_prefix: "string_column_ok (ss @ ts) \<Longrightarrow> string_column_ok ss"
  by (simp add: string_column_ok_def)

section \<open>The decoder\<close>

lemma valid_concat: "list_all utf8_valid ss \<Longrightarrow> utf8_valid (concat ss) \<and> runes (concat ss) = concat (map runes ss)"
  by (induction ss) (simp_all add: utf8_valid_append runes_append)

lemma runes_width_le: "sum_list (map rune_width (runes s)) \<le> length s"
proof (induction s rule: runes.induct)
  case (1 s)
  show ?case
  proof (cases "s = []")
    case False
    obtain r sz where d: "decodeRune s = (r, sz)" by fastforce
    have "rune_width r \<le> sz \<and> sz \<le> length s"
    proof (cases "r = RuneError \<and> sz = 1")
      case True
      then show ?thesis using False by (cases s) (auto simp: rune_width_def RuneError_def)
    next
      case good: False
      from decodeRune_ok [OF d False good] have ok: "rune_ok r" "s = encodeRune r @ drop sz s" "sz = length (encodeRune r)"
        by auto
      have "length s = length (encodeRune r) + length (drop sz s)" by (subst ok(2)) simp
      with ok(3) have "sz \<le> length s" by simp
      moreover have "rune_width r \<le> length (encodeRune r)"
        using ok(1) by (simp add: rune_width_def encodeRune_def)
      ultimately show ?thesis using ok(3) by simp
    qed
    moreover have "runes s = r # runes (drop sz s)" using False d by (simp add: runes.simps [of s])
    moreover have "sum_list (map rune_width (runes (drop sz s))) \<le> length (drop sz s)"
      using 1 [OF False] d by simp
    ultimately show ?thesis by (simp only: list.map sum_list.Cons length_drop) linarith
  qed simp
qed

lemma unat_unit_length:
  assumes "int (length s) \<le> MaxInt"
  shows "unat (unit_length s) = length (utf16_Encode (runes s))"
proof -
  have "stringLength s \<le> int (length s)" using runes_width_le [of s] by (simp add: stringLength_sum)
  then have "uint (unit_length s) = stringLength s"
    unfolding unit_length_def using assms by (intro uint_word_of_int_64) auto
  then show ?thesis by (simp add: stringLength_units unat_eq_nat_uint)
qed

text \<open>
  Reading one string when the next length is known: ASCII text is cut by bytes, other text by
  code units, and both give the string back.
\<close>

definition positioned :: "stringDecoder \<Rightarrow> gostring list \<Rightarrow> gostring list \<Rightarrow> bool" where
  "positioned d pre ss \<longleftrightarrow> sd_initErr d = None \<and> list_all utf8_valid (pre @ ss) \<and> int (length (concat (pre @ ss))) \<le> MaxInt \<and>
     (if sd_asciiMode d
      then sd_ascii d = concat (pre @ ss) \<and> isASCIIText (concat (pre @ ss)) \<and> sd_spos d = length (concat pre)
      else sd_units d = utf16_Encode (runes (concat (pre @ ss))) \<and>
           sd_spos d = length (utf16_Encode (runes (concat pre))))"

lemma ascii_units: "isASCIIText s \<Longrightarrow> length (utf16_Encode (runes s)) = length s"
  using ascii_valid [of s] by (simp add: stringLength_units)

lemma isASCIIText_append [simp]: "isASCIIText (s @ t) \<longleftrightarrow> isASCIIText s \<and> isASCIIText t"
  by (simp add: isASCIIText_def)

lemma positioned_read:
  assumes pos: "positioned d pre (s # ss)" and n: "uint_readValue (sd_lens d) = (Inr (unit_length s), lens')"
  shows "\<exists>d'. string_readValue d = (Inr s, d') \<and> positioned d' (pre @ [s]) ss \<and> sd_lens d' = lens'"
proof -
  have valid: "utf8_valid s" "list_all utf8_valid pre" "list_all utf8_valid ss" and init: "sd_initErr d = None"
    and len: "int (length (concat (pre @ s # ss))) \<le> MaxInt"
    using pos by (simp_all add: positioned_def)
  from len have u: "unat (unit_length s) = length (utf16_Encode (runes s))"
    by (intro unat_unit_length) simp
  have rc: "runes (concat (pre @ s # ss)) = runes (concat pre) @ runes s @ runes (concat ss)"
    using valid by (simp add: runes_append valid_concat utf8_valid_append)
  show ?thesis
  proof (cases "sd_asciiMode d")
    case True
    then have a: "sd_ascii d = concat pre @ s @ concat ss" "isASCIIText s" "sd_spos d = length (concat pre)"
      using pos by (simp_all add: positioned_def)
    then have u': "unat (unit_length s) = length s" using u ascii_units by simp
    have "string_readValue d = (Inr s, d\<lparr>sd_lens := lens', sd_spos := length (concat (pre @ [s]))\<rparr>)"
      using True a u' n init by (simp add: string_readValue_def string_textLength_def Let_def)
    with True pos a show ?thesis by (simp add: positioned_def)
  next
    case False
    let ?U = "\<lambda>t. utf16_Encode (runes t)"
    have a: "sd_units d = ?U (concat pre) @ ?U s @ ?U (concat ss)" "sd_spos d = length (?U (concat pre))"
      using False pos rc by (simp_all add: positioned_def utf16_Encode_append)
    have "utf8_encode (utf16_Decode (?U s)) = s"
      using valid(1) by (simp add: utf16_roundtrip runes_rune_ok utf8_valid_def)
    then have "string_readValue d = (Inr s, d\<lparr>sd_lens := lens', sd_spos := length (?U (concat pre)) + length (?U s)\<rparr>)"
      using False a u n init by (simp add: string_readValue_def string_textLength_def Let_def)
    moreover have "length (?U (concat pre)) + length (?U s) = length (?U (concat (pre @ [s])))"
      using valid by (simp add: runes_append valid_concat utf16_Encode_append)
    ultimately show ?thesis using False pos by (simp add: positioned_def)
  qed
qed

lemma positioned_delivers:
  "positioned d pre ss \<Longrightarrow> delivers uint_readValue (sd_lens d) (map unit_length ss) \<Longrightarrow> delivers string_readValue d ss"
proof (induction ss arbitrary: d pre)
  case (Cons s ss)
  from Cons.prems(2) obtain lens' where l: "uint_readValue (sd_lens d) = (Inr (unit_length s), lens')"
    "delivers uint_readValue lens' (map unit_length ss)" unfolding list.map delivers_Cons by blast
  from positioned_read [OF Cons.prems(1) l(1)] obtain d' where
    d': "string_readValue d = (Inr s, d')" "positioned d' (pre @ [s]) ss" "sd_lens d' = lens'" by blast
  with Cons.IH [OF d'(2)] l(2) show ?case by simp
qed simp

lemma positioned_open:
  assumes "string_column_ok ss"
  shows "positioned (newStringDecoder (string_bytes (foldl string_writeValue newDefaultStringEncoder ss))) [] ss \<and>
    sd_lens (newStringDecoder (string_bytes (foldl string_writeValue newDefaultStringEncoder ss))) =
      newUintOptRLEDecoder (uint_col.column (map unit_length ss))"
proof -
  have ok: "list_all utf8_valid ss" "int (length (concat ss)) \<le> MaxInt"
    using assms by (simp_all add: string_column_ok_def)
  then have "length (concat ss) < 2 ^ 64" by (simp add: MaxInt_def)
  then have r: "ReadString (string_bytes (foldl string_writeValue newDefaultStringEncoder ss)) =
      (Inr (concat ss), uint_col.column (map unit_length ss))"
    by (simp add: string_bytes_written roundtrip_simps)
  have "normalizeTextUTF8 (concat ss) = concat ss"
    using valid_concat [OF ok(1)] by (simp add: normalizeTextUTF8_def normalize_spec)
  with ok show ?thesis
    by (simp add: newStringDecoder_def r Let_def positioned_def isASCIIText_def utf16_Encode_def)
qed

definition string_write :: "stringEncoder \<Rightarrow> gostring \<Rightarrow> go_error option \<times> stringEncoder" where
  "string_write e s = (None, string_writeValue e s)"

lemma snd_string_write [simp]: "(\<lambda>e v. snd (string_write e v)) = string_writeValue"
  by (simp add: string_write_def fun_eq_iff)

interpretation string_col: column_codec newDefaultStringEncoder string_write "\<lambda>e. Inr (string_bytes e)"
  newStringDecoder string_readValue string_column_ok
proof unfold_locales
  fix ss :: "gostring list" and ts
  show "string_column_ok ss" if "string_column_ok (ss @ ts)" using that by (rule string_column_prefix)
  show "\<exists>bs. Inr (string_bytes (foldl (\<lambda>e v. snd (string_write e v)) newDefaultStringEncoder ss)) = Inr bs
      \<and> delivers string_readValue (newStringDecoder bs) ss" if ok: "string_column_ok ss"
  proof -
    have "short_column (map unit_length ss)" using ok by (simp add: string_column_ok_def short_column_def)
    from uint_col.column_delivers [OF this] positioned_open [OF ok] show ?thesis
      by (auto intro: positioned_delivers)
  qed
qed (simp add: string_write_def)

section \<open>Properties\<close>

text \<open>
  Claim C28. The string column: any sequence of well-formed strings is delivered again from the bytes of the column,
  ASCII or not, surrogate pairs included. The in-place prefix fits the headroom exactly.
\<close>

theorem string_column_roundtrip:
  assumes "length ss \<le> 2147483647" "list_all utf8_valid ss" "int (length (concat ss)) \<le> MaxInt"
  shows "delivers string_readValue
      (newStringDecoder (string_bytes (foldl string_writeValue newDefaultStringEncoder ss))) ss \<and>
    length (appendVarUint [] v) = varUintEncodedLen v \<and> varUintEncodedLen v \<le> stringEncoderPrefixHeadroom"
proof -
  have "string_column_ok ss" using assms by (simp add: string_column_ok_def)
  from string_col.column_delivers [OF this] string_col.bytes_written [OF this] prefix_fits [of v] show ?thesis
    by (simp add: string_col.written_def)
qed

theorem string_column_roundtrip_witness:
  "delivers string_readValue
      (newStringDecoder (string_bytes (foldl string_writeValue newDefaultStringEncoder [[0x61], [], [0xC3, 0xA9]])))
      [[0x61], [], [0xC3, 0xA9]] \<and>
    length (appendVarUint [] 300) = varUintEncodedLen 300 \<and> varUintEncodedLen 300 \<le> stringEncoderPrefixHeadroom"
proof (rule string_column_roundtrip)
  have "utf8_encode [0x61] = [0x61]" "utf8_encode [0xE9] = [0xC3, 0xA9]"
    by (simp_all add: utf8_encode_def encodeRune_def rune_ok_def)
  then show "list_all utf8_valid [[0x61], [], [0xC3, 0xA9]]"
    using utf8_validI [of "[0x61]"] utf8_validI [of "[0xE9]"] by (simp add: rune_ok_def)
qed (simp_all add: MaxInt_def)

text \<open>
  A length that runs past the text is refused and nothing is cut off: when the length column announces more
  units than are left, the reader returns the overrun error and does not advance in the text; and
  a column whose text could not be read returns that error on every read.
\<close>

theorem string_overrun_refused:
  assumes "uint_readValue (sd_lens d) = (Inr n, lens)" "string_textLength d - sd_spos d < unat n" "sd_initErr d = None"
  shows "string_readValue d = (Inl StringOverrun, d\<lparr>sd_lens := lens\<rparr>) \<and>
    string_readValue (d\<lparr>sd_initErr := Some err\<rparr>) = (Inl err, d\<lparr>sd_initErr := Some err\<rparr>)"
  using assms by (simp add: string_readValue_def Let_def)

theorem string_overrun_refused_witness:
  "string_readValue (newStringDecoder [1, 0x61, 2]) =
     (Inl StringOverrun, (newStringDecoder [1, 0x61, 2])\<lparr>sd_lens := \<lparr>ud_buf = [], ud_s = 2, ud_count = 0\<rparr>\<rparr>) \<and>
   string_readValue ((newStringDecoder [1, 0x61, 2])\<lparr>sd_initErr := Some EOF\<rparr>) =
     (Inl EOF, (newStringDecoder [1, 0x61, 2])\<lparr>sd_initErr := Some EOF\<rparr>)"
proof (rule string_overrun_refused)
  show "uint_readValue (sd_lens (newStringDecoder [1, 0x61, 2])) = (Inr 2, \<lparr>ud_buf = [], ud_s = 2, ud_count = 0\<rparr>)"
    by code_simp
  show "string_textLength (newStringDecoder [1, 0x61, 2]) - sd_spos (newStringDecoder [1, 0x61, 2]) < unat (2 :: uint64)"
    by code_simp
  show "sd_initErr (newStringDecoder [1, 0x61, 2]) = None" by code_simp
qed

end
