(* ===== verification/OrderedObject.thy ===== *)
theory OrderedObject
  imports Prelude "HOL-Library.AList"
begin

text \<open>
  \<^verbatim>\<open>Object\<close> of \<^verbatim>\<open>crdt/type_define.go\<close>: a string-keyed map that keeps insertion order, the Go counterpart
  of a JavaScript object. Up to two entries are stored inline; a third key moves all of them into a
  key slice with a map. A nil handle is \<open>None\<close>, the Go map an association list with distinct keys, an
  unused inline slot \<open>None\<close>.

  The contract is the locale \<open>ordered_map\<close>: the object behaves as an association list in insertion
  order, where an update keeps the position of its key. Sharing of a handle between copies is not
  modelled; every operation returns the new state of the handle it is applied to.
\<close>

section \<open>Definitions\<close>

record 'v objectLargeData =
  lg_keys :: "gostring list"
  lg_m :: "(gostring \<times> 'v) list"

record 'v objectData =
  od_smallKeys :: "gostring list"
  od_smallValues :: "'v option list"
  od_smallLen :: nat
  od_large :: "'v objectLargeData option"

type_synonym 'v Object = "'v objectData option"

definition emptyData :: "'v objectData" where
  "emptyData = \<lparr>od_smallKeys = [[], []], od_smallValues = [None, None], od_smallLen = 0, od_large = None\<rparr>"

definition newObject :: "'v Object" where
  "newObject = Some emptyData"

definition newObjectWithCapacity :: "nat \<Rightarrow> 'v Object" where
  "newObjectWithCapacity capacity =
     (if capacity \<le> 2 then newObject else Some (emptyData\<lparr>od_large := Some \<lparr>lg_keys = [], lg_m = []\<rparr>\<rparr>))"

text \<open>The scan of the inline keys.\<close>

fun smallIndex :: "gostring list \<Rightarrow> nat \<Rightarrow> nat \<Rightarrow> gostring \<Rightarrow> nat option" where
  "smallIndex ks i 0 key = None"
| "smallIndex ks i (Suc n) key = (if ks ! i = key then Some i else smallIndex ks (Suc i) n key)"

definition findSmall :: "'v objectData \<Rightarrow> gostring \<Rightarrow> nat option" where
  "findSmall d key = smallIndex (od_smallKeys d) 0 (od_smallLen d) key"

definition putSmall :: "'v objectData \<Rightarrow> gostring \<Rightarrow> 'v \<Rightarrow> 'v objectData" where
  "putSmall d key value =
     (let i = od_smallLen d
      in d\<lparr>od_smallKeys := (od_smallKeys d)[i := key], od_smallValues := (od_smallValues d)[i := Some value],
           od_smallLen := i + 1\<rparr>)"

definition setLarge :: "'v objectLargeData \<Rightarrow> gostring \<Rightarrow> 'v \<Rightarrow> 'v objectLargeData" where
  "setLarge lg key value =
     (let lg1 = (case map_of (lg_m lg) key of None \<Rightarrow> lg\<lparr>lg_keys := lg_keys lg @ [key]\<rparr> | Some _ \<Rightarrow> lg)
      in lg1\<lparr>lg_m := AList.update key value (lg_m lg)\<rparr>)"

text \<open>The loop that moves the inline entries.\<close>

definition promoteEntry :: "'v objectData \<Rightarrow> 'v objectLargeData \<Rightarrow> nat \<Rightarrow> 'v objectLargeData" where
  "promoteEntry d lg i =
     (let k = od_smallKeys d ! i
      in lg\<lparr>lg_keys := lg_keys lg @ [k], lg_m := AList.update k (the (od_smallValues d ! i)) (lg_m lg)\<rparr>)"

definition promote :: "'v objectData \<Rightarrow> gostring \<Rightarrow> 'v \<Rightarrow> 'v objectData" where
  "promote d key value =
     (let lg = foldl (promoteEntry d) \<lparr>lg_keys = [], lg_m = []\<rparr> [0..<od_smallLen d]
      in \<lparr>od_smallKeys = replicate (od_smallLen d) [] @ drop (od_smallLen d) (od_smallKeys d),
          od_smallValues = replicate (od_smallLen d) None @ drop (od_smallLen d) (od_smallValues d),
          od_smallLen = 0,
          od_large = Some \<lparr>lg_keys = lg_keys lg @ [key], lg_m = AList.update key value (lg_m lg)\<rparr>\<rparr>)"

definition obj_Set :: "'v Object \<Rightarrow> gostring \<Rightarrow> 'v \<Rightarrow> 'v Object" where
  "obj_Set ob key value =
     (let d = (case ob of None \<Rightarrow> emptyData | Some d \<Rightarrow> d)
      in Some (case od_large d of
           None \<Rightarrow>
             (case findSmall d key of
                Some i \<Rightarrow> d\<lparr>od_smallValues := (od_smallValues d)[i := Some value]\<rparr>
              | None \<Rightarrow> if od_smallLen d < length (od_smallKeys d) then putSmall d key value else promote d key value)
         | Some lg \<Rightarrow> d\<lparr>od_large := Some (setLarge lg key value)\<rparr>))"

definition obj_appendNew :: "'v Object \<Rightarrow> gostring \<Rightarrow> 'v \<Rightarrow> 'v Object" where
  "obj_appendNew ob key value =
     (let d = (case ob of None \<Rightarrow> emptyData | Some d \<Rightarrow> d)
      in case od_large d of
           None \<Rightarrow> if od_smallLen d < length (od_smallKeys d) then Some (putSmall d key value) else obj_Set (Some d) key value
         | Some lg \<Rightarrow> Some (d\<lparr>od_large := Some \<lparr>lg_keys = lg_keys lg @ [key], lg_m = AList.update key value (lg_m lg)\<rparr>\<rparr>))"

definition obj_Get :: "'v Object \<Rightarrow> gostring \<Rightarrow> 'v option" where
  "obj_Get ob key =
     (case ob of None \<Rightarrow> None
      | Some d \<Rightarrow> (case od_large d of
                     None \<Rightarrow> (case findSmall d key of Some i \<Rightarrow> od_smallValues d ! i | None \<Rightarrow> None)
                   | Some lg \<Rightarrow> map_of (lg_m lg) key))"

definition obj_Has :: "'v Object \<Rightarrow> gostring \<Rightarrow> bool" where
  "obj_Has ob key =
     (case ob of None \<Rightarrow> False
      | Some d \<Rightarrow> (case od_large d of
                     None \<Rightarrow> findSmall d key \<noteq> None
                   | Some lg \<Rightarrow> map_of (lg_m lg) key \<noteq> None))"

text \<open>\<open>copy\<close> shifts the inline entries after the removed one to the left.\<close>

definition removeSmall :: "'v objectData \<Rightarrow> nat \<Rightarrow> 'v objectData" where
  "removeSmall d i =
     (let last = od_smallLen d - 1;
          ks = take i (od_smallKeys d) @ drop (i + 1) (take (last + 1) (od_smallKeys d)) @ drop last (od_smallKeys d);
          vs = take i (od_smallValues d) @ drop (i + 1) (take (last + 1) (od_smallValues d)) @ drop last (od_smallValues d)
      in d\<lparr>od_smallKeys := ks[last := []], od_smallValues := vs[last := None], od_smallLen := last\<rparr>)"

fun removeFirst :: "gostring list \<Rightarrow> gostring \<Rightarrow> gostring list" where
  "removeFirst [] key = []"
| "removeFirst (k # ks) key = (if k = key then ks else k # removeFirst ks key)"

definition obj_Delete :: "'v Object \<Rightarrow> gostring \<Rightarrow> 'v Object" where
  "obj_Delete ob key =
     (case ob of None \<Rightarrow> None
      | Some d \<Rightarrow> Some (case od_large d of
                     None \<Rightarrow> (case findSmall d key of Some i \<Rightarrow> removeSmall d i | None \<Rightarrow> d)
                   | Some lg \<Rightarrow>
                       (case map_of (lg_m lg) key of
                          None \<Rightarrow> d
                        | Some _ \<Rightarrow> d\<lparr>od_large := Some \<lparr>lg_keys = removeFirst (lg_keys lg) key,
                                                        lg_m = AList.delete key (lg_m lg)\<rparr>\<rparr>)))"

definition obj_Len :: "'v Object \<Rightarrow> nat" where
  "obj_Len ob =
     (case ob of None \<Rightarrow> 0
      | Some d \<Rightarrow> (case od_large d of None \<Rightarrow> od_smallLen d | Some lg \<Rightarrow> length (lg_m lg)))"

definition obj_IsNil :: "'v Object \<Rightarrow> bool" where
  "obj_IsNil ob \<longleftrightarrow> ob = None"

definition obj_Keys :: "'v Object \<Rightarrow> gostring list" where
  "obj_Keys ob =
     (case ob of None \<Rightarrow> []
      | Some d \<Rightarrow> (case od_large d of None \<Rightarrow> take (od_smallLen d) (od_smallKeys d) | Some lg \<Rightarrow> lg_keys lg))"

text \<open>\<open>Range\<close>: the pairs in the order the callback sees them.\<close>

definition obj_Range :: "'v Object \<Rightarrow> (gostring \<times> 'v) list" where
  "obj_Range ob =
     (case ob of None \<Rightarrow> []
      | Some d \<Rightarrow> (case od_large d of
                     None \<Rightarrow> map (\<lambda>i. (od_smallKeys d ! i, the (od_smallValues d ! i))) [0..<od_smallLen d]
                   | Some lg \<Rightarrow> map (\<lambda>k. (k, the (map_of (lg_m lg) k))) (lg_keys lg)))"

definition obj_ShallowClone :: "'v Object \<Rightarrow> 'v Object" where
  "obj_ShallowClone ob =
     (case ob of None \<Rightarrow> None
      | Some d \<Rightarrow> (case od_large d of
                     None \<Rightarrow> Some \<lparr>od_smallKeys = od_smallKeys d, od_smallValues = od_smallValues d,
                                  od_smallLen = od_smallLen d, od_large = None\<rparr>
                   | Some lg \<Rightarrow> Some (emptyData\<lparr>od_large := Some \<lparr>lg_keys = lg_keys lg, lg_m = lg_m lg\<rparr>\<rparr>)))"

text \<open>\<open>MakeObject\<close> of a list of pairs.\<close>

definition MakeObject :: "(gostring \<times> 'v) list \<Rightarrow> 'v Object" where
  "MakeObject kvs = foldl (\<lambda>ob (k, v). obj_Set ob k v) newObject kvs"

section \<open>The invariant\<close>

definition small_ok :: "'v objectData \<Rightarrow> bool" where
  "small_ok d \<longleftrightarrow> length (od_smallKeys d) = 2 \<and> length (od_smallValues d) = 2 \<and> od_smallLen d \<le> 2 \<and>
     distinct (take (od_smallLen d) (od_smallKeys d)) \<and> None \<notin> set (take (od_smallLen d) (od_smallValues d))"

definition large_ok :: "'v objectLargeData \<Rightarrow> bool" where
  "large_ok lg \<longleftrightarrow> distinct (lg_keys lg) \<and> distinct (map fst (lg_m lg)) \<and> set (lg_keys lg) = fst ` set (lg_m lg)"

definition obj_ok :: "'v Object \<Rightarrow> bool" where
  "obj_ok ob \<longleftrightarrow> (case ob of None \<Rightarrow> True
     | Some d \<Rightarrow> small_ok d \<and> (case od_large d of None \<Rightarrow> True | Some lg \<Rightarrow> od_smallLen d = 0 \<and> large_ok lg))"

text \<open>An inline object in one of its three shapes.\<close>

lemma small_cases:
  assumes "small_ok d"
  obtains (zero) k0 k1 v0 v1 where "od_smallLen d = 0" "od_smallKeys d = [k0, k1]" "od_smallValues d = [v0, v1]"
  | (one) k0 k1 x v1 where "od_smallLen d = 1" "od_smallKeys d = [k0, k1]" "od_smallValues d = [Some x, v1]"
  | (two) k0 k1 x y where "od_smallLen d = 2" "od_smallKeys d = [k0, k1]" "od_smallValues d = [Some x, Some y]" "k0 \<noteq> k1"
proof -
  obtain k0 k1 v0 v1 where kv: "od_smallKeys d = [k0, k1]" "od_smallValues d = [v0, v1]"
    using assms by (auto simp: small_ok_def length_Suc_conv numeral_2_eq_2)
  consider "od_smallLen d = 0" | "od_smallLen d = 1" | "od_smallLen d = 2"
    using assms by (auto simp: small_ok_def le_Suc_eq numeral_2_eq_2)
  then show ?thesis
  proof cases
    case 1
    with kv zero show ?thesis by blast
  next
    case 2
    with kv assms one show ?thesis by (cases v0) (auto simp: small_ok_def)
  next
    case 3
    with kv assms two show ?thesis by (cases v0; cases v1) (auto simp: small_ok_def numeral_2_eq_2)
  qed
qed

lemmas small_defs = findSmall_def putSmall_def small_ok_def numeral_2_eq_2

section \<open>The interface\<close>

text \<open>
  What an insertion-ordered map promises, in terms of the list of its entries.
\<close>

locale ordered_map =
  fixes empty :: 'o and set :: "'o \<Rightarrow> gostring \<Rightarrow> 'v \<Rightarrow> 'o" and get :: "'o \<Rightarrow> gostring \<Rightarrow> 'v option"
    and del :: "'o \<Rightarrow> gostring \<Rightarrow> 'o" and entries :: "'o \<Rightarrow> (gostring \<times> 'v) list" and inv :: "'o \<Rightarrow> bool"
  assumes inv_empty: "inv empty" and entries_empty: "entries empty = []"
    and inv_set: "inv ob \<Longrightarrow> inv (set ob k v)" and entries_set: "inv ob \<Longrightarrow> entries (set ob k v) = AList.update k v (entries ob)"
    and inv_del: "inv ob \<Longrightarrow> inv (del ob k)" and entries_del: "inv ob \<Longrightarrow> entries (del ob k) = AList.delete k (entries ob)"
    and get_entries: "inv ob \<Longrightarrow> get ob k = map_of (entries ob) k"
    and distinct_entries: "inv ob \<Longrightarrow> distinct (map fst (entries ob))"
begin

definition build :: "(gostring \<times> 'v) list \<Rightarrow> 'o" where
  "build kvs = foldl (\<lambda>ob (k, v). set ob k v) empty kvs"

lemma build_snoc: "build (kvs @ [kv]) = set (build kvs) (fst kv) (snd kv)"
  by (simp add: build_def split: prod.splits)

lemma inv_build: "inv (build kvs)"
  by (induction kvs rule: rev_induct) (simp_all add: build_snoc inv_set, simp add: build_def inv_empty)

lemma get_set: "inv ob \<Longrightarrow> get (set ob k v) k' = (if k' = k then Some v else get ob k')"
  by (simp add: get_entries inv_set entries_set update_conv')

lemma get_del: "inv ob \<Longrightarrow> get (del ob k) k' = (if k' = k then None else get ob k')"
  by (simp add: get_entries inv_del entries_del delete_conv')

lemma entries_build: "distinct (map fst kvs) \<Longrightarrow> entries (build kvs) = kvs"
proof (induction kvs rule: rev_induct)
  case (snoc kv kvs)
  have "k \<notin> fst ` List.set xs \<Longrightarrow> AList.update k v xs = xs @ [(k, v)]" for k v and xs :: "(gostring \<times> 'v) list"
    by (induction xs) auto
  with snoc show ?case by (simp add: build_snoc entries_set inv_build)
qed (simp add: build_def entries_empty)

end

section \<open>The object implements it\<close>

lemma AList_update_new: "k \<notin> fst ` set xs \<Longrightarrow> AList.update k v xs = xs @ [(k, v)]"
  by (induction xs) auto

lemma AList_update_map:
  "distinct ks \<Longrightarrow> k \<in> set ks \<Longrightarrow>
     AList.update k v (map (\<lambda>k. (k, f k)) ks) = map (\<lambda>k'. (k', if k' = k then v else f k')) ks"
proof (induction ks)
  case (Cons a ks)
  have "map (\<lambda>k. (k, f k)) ks = map (\<lambda>k'. (k', if k' = k then v else f k')) ks" if "k \<notin> set ks"
    using that by (induction ks) auto
  with Cons show ?case by auto
qed simp

lemma AList_delete_map:
  "AList.delete k (map (\<lambda>k. (k, f k)) ks) = map (\<lambda>k. (k, f k)) (filter (\<lambda>k'. k' \<noteq> k) ks)"
  by (induction ks) auto

lemma map_of_map_pair: "map_of (map (\<lambda>k. (k, f k)) ks) k = (if k \<in> set ks then Some (f k) else None)"
  by (induction ks) auto

lemma removeFirst_filter: "distinct ks \<Longrightarrow> removeFirst ks key = filter (\<lambda>k. k \<noteq> key) ks"
proof (induction ks)
  case (Cons a ks)
  moreover have "filter (\<lambda>k. k \<noteq> key) ks = ks" if "key \<notin> set ks"
    using that by (auto simp: filter_id_conv)
  ultimately show ?case by auto
qed simp

subsection \<open>Inline objects\<close>

lemma inline_Set:
  assumes "small_ok d" "od_large d = None"
  shows "obj_ok (obj_Set (Some d) k v) \<and> obj_Range (obj_Set (Some d) k v) = AList.update k v (obj_Range (Some d))"
  using assms(1)
proof (cases rule: small_cases)
  case (zero k0 k1 v0 v1)
  with assms show ?thesis
    by (simp add: obj_Set_def obj_Range_def obj_ok_def findSmall_def putSmall_def small_ok_def Let_def)
next
  case (one k0 k1 x v1)
  with assms show ?thesis
    by (simp add: obj_Set_def obj_Range_def obj_ok_def findSmall_def putSmall_def small_ok_def Let_def numeral_2_eq_2)
next
  case (two k0 k1 x y)
  have "[0..<2] = [0, 1 :: nat]" by (simp add: upt_conv_Cons)
  with two assms show ?thesis
    by (auto simp: obj_Set_def obj_Range_def obj_ok_def findSmall_def promote_def promoteEntry_def small_ok_def
      large_ok_def Let_def numeral_2_eq_2)
qed

lemma inline_Delete:
  assumes "small_ok d" "od_large d = None"
  shows "obj_ok (obj_Delete (Some d) k) \<and> obj_Range (obj_Delete (Some d) k) = AList.delete k (obj_Range (Some d))"
  using assms(1)
proof (cases rule: small_cases)
  case (two k0 k1 x y)
  have "[0..<2] = [0, 1 :: nat]" by (simp add: upt_conv_Cons)
  with two assms show ?thesis
    by (auto simp: obj_Delete_def obj_Range_def obj_ok_def findSmall_def removeSmall_def small_ok_def Let_def numeral_2_eq_2)
qed (use assms in \<open>auto simp: obj_Delete_def obj_Range_def obj_ok_def findSmall_def removeSmall_def small_ok_def Let_def\<close>)

lemma inline_Get:
  assumes "small_ok d" "od_large d = None"
  shows "obj_Get (Some d) k = map_of (obj_Range (Some d)) k" "distinct (map fst (obj_Range (Some d)))"
  using assms(1)
  by (cases rule: small_cases; use assms(2) in \<open>auto simp: obj_Get_def obj_Range_def findSmall_def numeral_2_eq_2\<close>)+

subsection \<open>Large objects\<close>

lemma large_Range:
  assumes "od_large d = Some lg" "large_ok lg"
  shows "obj_Range (Some d) = map (\<lambda>k. (k, the (map_of (lg_m lg) k))) (lg_keys lg)"
    and "map_of (obj_Range (Some d)) = map_of (lg_m lg)"
proof -
  show r: "obj_Range (Some d) = map (\<lambda>k. (k, the (map_of (lg_m lg) k))) (lg_keys lg)"
    using assms(1) by (simp add: obj_Range_def)
  show "map_of (obj_Range (Some d)) = map_of (lg_m lg)"
  proof
    fix k
    show "map_of (obj_Range (Some d)) k = map_of (lg_m lg) k"
      using assms(2) map_of_eq_None_iff [of "lg_m lg" k] by (auto simp: r large_ok_def map_of_map_pair)
  qed
qed

lemma large_ok_setLarge: "large_ok lg \<Longrightarrow> large_ok (setLarge lg k v)"
  by (auto simp: large_ok_def setLarge_def Let_def dom_update distinct_update map_of_eq_None_iff
    dom_map_of_conv_image_fst [symmetric] update_conv' split: option.splits)

lemma large_Set:
  assumes "od_large d = Some lg" "large_ok lg"
  shows "obj_Range (obj_Set (Some d) k v) = AList.update k v (obj_Range (Some d))"
proof (cases "k \<in> set (lg_keys lg)")
  case True
  then obtain w where "map_of (lg_m lg) k = Some w"
    using assms(2) by (metis large_ok_def map_of_eq_None_iff not_None_eq)
  with True assms show ?thesis
    by (simp add: obj_Set_def obj_Range_def setLarge_def AList_update_map large_ok_def update_conv' if_distrib
      cong: if_cong)
next
  case False
  then have "map_of (lg_m lg) k = None" using assms(2) by (simp add: large_ok_def map_of_eq_None_iff)
  with False assms show ?thesis
    by (simp add: obj_Set_def obj_Range_def setLarge_def AList_update_new update_conv' image_image)
qed

lemma large_Delete:
  assumes "od_large d = Some lg" "large_ok lg" "small_ok d" "od_smallLen d = 0"
  shows "obj_ok (obj_Delete (Some d) k) \<and> obj_Range (obj_Delete (Some d) k) = AList.delete k (obj_Range (Some d))"
proof (cases "map_of (lg_m lg) k")
  case None
  then have "k \<notin> set (lg_keys lg)" using assms(2) by (simp add: large_ok_def map_of_eq_None_iff)
  then have "filter (\<lambda>k'. k' \<noteq> k) (lg_keys lg) = lg_keys lg" by (auto simp: filter_id_conv)
  with None assms show ?thesis
    by (simp add: obj_Delete_def obj_ok_def obj_Range_def AList_delete_map)
next
  case (Some w)
  have "map (\<lambda>k'. (k', the (map_of (AList.delete k (lg_m lg)) k'))) (filter (\<lambda>k'. k' \<noteq> k) ks) =
      map (\<lambda>k'. (k', the (map_of (lg_m lg) k'))) (filter (\<lambda>k'. k' \<noteq> k) ks)" for ks
    by (induction ks) (auto simp: delete_conv')
  moreover have "large_ok \<lparr>lg_keys = removeFirst (lg_keys lg) k, lg_m = AList.delete k (lg_m lg)\<rparr>"
    using assms(2) by (auto simp: large_ok_def removeFirst_filter distinct_removeAll delete_keys
      dom_map_of_conv_image_fst [symmetric] delete_conv')
  ultimately show ?thesis
    using Some assms by (simp add: obj_Delete_def obj_ok_def obj_Range_def AList_delete_map removeFirst_filter
      large_ok_def [of lg] small_ok_def)
qed

subsection \<open>The interpretation\<close>

lemma obj_ok_cases:
  assumes "obj_ok ob"
  obtains (nil) "ob = None"
  | (inline) d where "ob = Some d" "od_large d = None" "small_ok d"
  | (large) d lg where "ob = Some d" "od_large d = Some lg" "small_ok d" "od_smallLen d = 0" "large_ok lg"
proof (cases ob)
  case None
  then show thesis by (rule nil)
next
  case (Some d)
  with assms inline large show thesis by (cases "od_large d") (auto simp: obj_ok_def)
qed

lemma small_ok_empty [simp]: "small_ok emptyData" "od_large emptyData = None" "obj_Range (Some emptyData) = []"
  by (simp_all add: small_ok_def emptyData_def obj_Range_def)

lemma obj_Set_nil: "obj_Set None k v = obj_Set (Some emptyData) k v"
  by (simp add: obj_Set_def)

interpretation obj: ordered_map newObject obj_Set obj_Get obj_Delete obj_Range obj_ok
proof unfold_locales
  show "obj_ok newObject" "obj_Range newObject = []"
    by (simp_all add: newObject_def obj_ok_def)
  fix ob :: "'v Object" and k v
  assume ok: "obj_ok ob"
  show "obj_ok (obj_Set ob k v)"
    using ok
  proof (cases rule: obj_ok_cases)
    case nil
    then show ?thesis using inline_Set [of emptyData k v] by (simp add: obj_Set_nil)
  next
    case (inline d)
    then show ?thesis by (simp add: inline_Set)
  next
    case (large d lg)
    then show ?thesis by (simp add: obj_Set_def obj_ok_def large_ok_setLarge small_ok_def)
  qed
  show "obj_Range (obj_Set ob k v) = AList.update k v (obj_Range ob)"
    using ok
  proof (cases rule: obj_ok_cases)
    case nil
    then show ?thesis using inline_Set [of emptyData k v] by (simp add: obj_Set_nil) (simp add: obj_Range_def)
  next
    case (inline d)
    then show ?thesis by (simp add: inline_Set)
  next
    case (large d lg)
    then show ?thesis by (simp add: large_Set)
  qed
  show "obj_ok (obj_Delete ob k)" "obj_Range (obj_Delete ob k) = AList.delete k (obj_Range ob)"
    using ok by (cases rule: obj_ok_cases; simp add: inline_Delete large_Delete; simp add: obj_Delete_def obj_Range_def obj_ok_def)+
  show "obj_Get ob k = map_of (obj_Range ob) k"
    using ok by (cases rule: obj_ok_cases) (auto simp: inline_Get large_Range(2), simp_all add: obj_Get_def obj_Range_def)
  show "distinct (map fst (obj_Range ob))"
    using ok by (cases rule: obj_ok_cases) (auto simp: inline_Get large_Range(1) large_ok_def comp_def, simp add: obj_Range_def)
qed

lemma obj_views:
  assumes "obj_ok ob"
  shows "obj_Keys ob = map fst (obj_Range ob)" "obj_Len ob = length (obj_Range ob)"
    "obj_Has ob k = (map_of (obj_Range ob) k \<noteq> None)"
    "obj_ok (obj_ShallowClone ob)" "obj_Range (obj_ShallowClone ob) = obj_Range ob"
proof -
  have len: "length (lg_m lg) = length (lg_keys lg)" if "large_ok lg" for lg :: "'v objectLargeData"
    using that distinct_card [of "lg_keys lg"] distinct_card [of "map fst (lg_m lg)"] by (simp add: large_ok_def)
  have two: "[0..<2] = [0, 1 :: nat]" by (simp add: upt_conv_Cons)
  show "obj_Keys ob = map fst (obj_Range ob)"
    using assms
  proof (cases rule: obj_ok_cases)
    case (inline d)
    from inline(3) show ?thesis
      by (cases rule: small_cases) (simp_all add: inline obj_Keys_def obj_Range_def two numeral_2_eq_2)
  qed (simp_all add: obj_Keys_def obj_Range_def comp_def)
  show "obj_Len ob = length (obj_Range ob)"
    using assms by (cases rule: obj_ok_cases) (simp_all add: obj_Len_def obj_Range_def len)
  show "obj_Has ob k = (map_of (obj_Range ob) k \<noteq> None)"
    using assms
  proof (cases rule: obj_ok_cases)
    case (inline d)
    from inline(3) show ?thesis
      by (cases rule: small_cases) (auto simp: inline obj_Has_def obj_Range_def findSmall_def two numeral_2_eq_2)
  next
    case (large d lg)
    then show ?thesis by (simp add: large_Range(2)) (simp add: obj_Has_def)
  qed (simp add: obj_Has_def obj_Range_def)
  show "obj_ok (obj_ShallowClone ob)" "obj_Range (obj_ShallowClone ob) = obj_Range ob"
    using assms by (cases rule: obj_ok_cases; simp add: obj_ShallowClone_def obj_ok_def obj_Range_def small_ok_def
      large_ok_def emptyData_def)+
qed

lemma obj_appendNew_ok:
  assumes "obj_ok ob" "\<not> obj_Has ob k"
  shows "obj_appendNew ob k v = obj_Set ob k v"
  using assms(1)
proof (cases rule: obj_ok_cases)
  case nil
  then show ?thesis by (simp add: obj_appendNew_def obj_Set_def findSmall_def emptyData_def)
next
  case (inline d)
  with assms(2) show ?thesis by (simp add: obj_appendNew_def obj_Set_def obj_Has_def)
next
  case (large d lg)
  with assms(2) show ?thesis by (simp add: obj_appendNew_def obj_Set_def obj_Has_def setLarge_def)
qed

section \<open>Properties\<close>

text \<open>
  Claim C27. An object is an association list in insertion order: setting a key updates it in place or appends it,
  deleting removes it, and lookup, membership, keys, length, iteration and the shallow clone agree
  with that list, whichever of the two representations is in use. Appending a key that is absent is
  the same as setting it.
\<close>

theorem object_refines_association_list:
  assumes "obj_ok ob" "\<not> obj_Has ob k'"
  shows "obj_ok (obj_Set ob k v) \<and> obj_Range (obj_Set ob k v) = AList.update k v (obj_Range ob) \<and>
    obj_ok (obj_Delete ob k) \<and> obj_Range (obj_Delete ob k) = AList.delete k (obj_Range ob) \<and>
    obj_Get ob k = map_of (obj_Range ob) k \<and> obj_Has ob k = (map_of (obj_Range ob) k \<noteq> None) \<and>
    obj_Keys ob = map fst (obj_Range ob) \<and> distinct (obj_Keys ob) \<and> obj_Len ob = length (obj_Range ob) \<and>
    obj_ok (obj_ShallowClone ob) \<and> obj_Range (obj_ShallowClone ob) = obj_Range ob \<and>
    obj_appendNew ob k' v = obj_Set ob k' v"
  using assms by (simp add: obj.inv_set obj.entries_set obj.inv_del obj.entries_del obj.get_entries
    obj.distinct_entries obj_views obj_appendNew_ok)

theorem object_refines_association_list_witness:
  "let ob = MakeObject [([97], 1), ([98], 2), ([99], 3)] :: int Object in
    obj_ok (obj_Set ob [97] 9) \<and> obj_Range (obj_Set ob [97] 9) = AList.update [97] 9 (obj_Range ob) \<and>
    obj_ok (obj_Delete ob [97]) \<and> obj_Range (obj_Delete ob [97]) = AList.delete [97] (obj_Range ob) \<and>
    obj_Get ob [97] = map_of (obj_Range ob) [97] \<and> obj_Has ob [97] = (map_of (obj_Range ob) [97] \<noteq> None) \<and>
    obj_Keys ob = map fst (obj_Range ob) \<and> distinct (obj_Keys ob) \<and> obj_Len ob = length (obj_Range ob) \<and>
    obj_ok (obj_ShallowClone ob) \<and> obj_Range (obj_ShallowClone ob) = obj_Range ob \<and>
    obj_appendNew ob [100] 9 = obj_Set ob [100] 9"
  unfolding Let_def
proof (rule object_refines_association_list)
  show "obj_ok (MakeObject [([97], 1), ([98], 2), ([99], 3)] :: int Object)" by code_simp
  show "\<not> obj_Has (MakeObject [([97], 1), ([98], 2), ([99], 3)] :: int Object) [100]" by code_simp
qed

text \<open>
  The last write wins and keeps its position: an object made from pairs with distinct keys iterates in exactly
  that order, and reading a key gives the value set last.
\<close>

theorem object_insertion_order:
  assumes "distinct (map fst kvs)"
  shows "obj_Range (MakeObject kvs) = kvs \<and> obj_ok (MakeObject kvs) \<and>
    obj_Get (obj_Set (MakeObject kvs) k v) k' = (if k' = k then Some v else map_of kvs k') \<and>
    obj_Get (obj_Delete (MakeObject kvs) k) k' = (if k' = k then None else map_of kvs k')"
proof -
  have m: "MakeObject kvs = obj.build kvs" by (simp add: MakeObject_def obj.build_def)
  have ok: "obj_ok (MakeObject kvs)" unfolding m by (rule obj.inv_build)
  have r: "obj_Range (MakeObject kvs) = kvs" unfolding m using assms by (rule obj.entries_build)
  with ok show ?thesis by (simp add: obj.get_set obj.get_del obj.get_entries)
qed

theorem object_insertion_order_witness:
  "let kvs = [([98], 2), ([97], 1), ([99], 3)] :: (gostring \<times> int) list in
    obj_Range (MakeObject kvs) = kvs \<and> obj_ok (MakeObject kvs) \<and>
    obj_Get (obj_Set (MakeObject kvs) [97] 9) [97] = (if [97] = ([97] :: gostring) then Some 9 else map_of kvs [97]) \<and>
    obj_Get (obj_Delete (MakeObject kvs) [97]) [98] = (if [98] = ([97] :: gostring) then None else map_of kvs [98])"
  unfolding Let_def
  using object_insertion_order [of "[([98], 2), ([97], 1), ([99], 3)] :: (gostring \<times> int) list" "[97]" 9]
  by simp

end
