(* ===== verification/AnyCodec.thy ===== *)
theory AnyCodec
  imports Lib0 OrderedObject
begin

text \<open>
  The tagged encoding of arbitrary values: \<^verbatim>\<open>writeAny\<close> of \<^verbatim>\<open>crdt/encoding.go\<close> and \<^verbatim>\<open>readAny\<close> of
  \<^verbatim>\<open>crdt/decoding.go\<close>. A Go interface value is an element of \<open>any\<close>, one constructor per Go type the code
  tells apart; the Go integer types that are all converted to \<^verbatim>\<open>float64\<close> share \<open>AInt\<close>. A float is its IEEE
  754 bit pattern, with the conversions between integers, \<^verbatim>\<open>float64\<close> and \<^verbatim>\<open>float32\<close> written out. An object
  is the list of its entries in insertion order (theory \<open>OrderedObject\<close>).

  The recursion depth of the decoder is counted down: budget \<open>n\<close> is depth \<open>101 - n\<close>, so the code's
  test \<^verbatim>\<open>depth > maxAnyDepth\<close> is budget 0.
\<close>

section \<open>Floating-point numbers\<close>

type_synonym float64 = "64 word"
type_synonym float32 = "32 word"

fun ilog2 :: "nat \<Rightarrow> nat" where
  "ilog2 n = (if n < 2 then 0 else Suc (ilog2 (n div 2)))"

declare ilog2.simps [simp del]

text \<open>Division by \<open>2 ^ s\<close>, rounded to nearest, ties to even.\<close>

definition rne :: "nat \<Rightarrow> nat \<Rightarrow> nat" where
  "rne m s =
     (let q = m div 2 ^ s; r = m mod 2 ^ s
      in if 2 * r > 2 ^ s \<or> (2 * r = 2 ^ s \<and> odd q) then q + 1 else q)"

definition f64_neg :: "float64 \<Rightarrow> bool" where
  "f64_neg b \<longleftrightarrow> 2 ^ 63 \<le> unat b"

definition f64_exp :: "float64 \<Rightarrow> nat" where
  "f64_exp b = unat b div 2 ^ 52 mod 2048"

definition f64_man :: "float64 \<Rightarrow> nat" where
  "f64_man b = unat b mod 2 ^ 52"

definition f64_isNaN :: "float64 \<Rightarrow> bool" where
  "f64_isNaN b \<longleftrightarrow> f64_exp b = 2047 \<and> f64_man b \<noteq> 0"

definition f64_isZero :: "float64 \<Rightarrow> bool" where
  "f64_isZero b \<longleftrightarrow> f64_exp b = 0 \<and> f64_man b = 0"

text \<open>The operator \<^verbatim>\<open>==\<close>.\<close>

definition f64_eq :: "float64 \<Rightarrow> float64 \<Rightarrow> bool" where
  "f64_eq a b \<longleftrightarrow> \<not> f64_isNaN a \<and> \<not> f64_isNaN b \<and> (a = b \<or> f64_isZero a \<and> f64_isZero b)"

text \<open>
  \<open>f64_int f = Some n\<close>: \<open>f\<close> is the integer \<open>n\<close>, which is the test \<^verbatim>\<open>f == math.Trunc(f) && !math.IsInf(f, 0)\<close> together
  with the conversion \<^verbatim>\<open>int(f)\<close>.
\<close>

definition f64_int :: "float64 \<Rightarrow> int option" where
  "f64_int b =
     (let e = f64_exp b; m = f64_man b; sg = (if f64_neg b then - 1 else 1 :: int); M = 2 ^ 52 + m
      in if e = 2047 then None
         else if e = 0 then (if m = 0 then Some 0 else None)
         else if e \<ge> 1075 then Some (sg * int (M * 2 ^ (e - 1075)))
         else if M mod 2 ^ (1075 - e) = 0 then Some (sg * int (M div 2 ^ (1075 - e)))
         else None)"

text \<open>The conversion \<^verbatim>\<open>float64(n)\<close> of an integer; the mantissa carries into the exponent.\<close>

definition f64_of_int :: "int \<Rightarrow> float64" where
  "f64_of_int n =
     (let a = nat \<bar>n\<bar>; k = ilog2 a
      in if a = 0 then 0
         else of_nat ((if n < 0 then 2 ^ 63 else 0) + (k + 1022) * 2 ^ 52 +
                      (if k \<le> 52 then a * 2 ^ (52 - k) else rne a (k - 52))))"

text \<open>The conversions \<^verbatim>\<open>float32(f)\<close>, to nearest with overflow to infinity, and \<^verbatim>\<open>float64(f)\<close>, exact.\<close>

definition f32_of_f64 :: "float64 \<Rightarrow> float32" where
  "f32_of_f64 b =
     (let e = f64_exp b; m = f64_man b; sg = (if f64_neg b then 2 ^ 31 else 0);
          k = (if e = 0 then 1 else e); M = (if e = 0 then m else 2 ^ 52 + m);
          bits = (if k \<ge> 897 then (k - 897) * 2 ^ 23 + rne M 29 else rne M (926 - k))
      in if f64_isNaN b then of_nat (sg + 255 * 2 ^ 23 + 2 ^ 22)
         else of_nat (sg + min (255 * 2 ^ 23) bits))"

definition f64_of_f32 :: "float32 \<Rightarrow> float64" where
  "f64_of_f32 b =
     (let e = unat b div 2 ^ 23 mod 256; m = unat b mod 2 ^ 23; sg = (if 2 ^ 31 \<le> unat b then 2 ^ 63 else 0)
      in if e = 255 then of_nat (sg + 2047 * 2 ^ 52 + m * 2 ^ 29)
         else if e = 0 then
           (if m = 0 then of_nat sg
            else let k = ilog2 m in of_nat (sg + (k + 873) * 2 ^ 52 + m * 2 ^ (52 - k)))
         else of_nat (sg + (e + 896) * 2 ^ 52 + m * 2 ^ 29))"

section \<open>Definitions\<close>

definition bits31 :: int where
  "bits31 = 2147483647"

definition maxAnyDepth :: nat where
  "maxAnyDepth = 100"

datatype any =
    AUndefined | ANull | ABool bool | AString gostring | AInt int | ABigInt int
  | AFloat32 float32 | AFloat64 float64 | ABytes "byte list"
  | AArray "any list" | AObject "(gostring \<times> any) list" | AOther

subsection \<open>Writing\<close>

definition writeFloat32 :: "byte list \<Rightarrow> float32 \<Rightarrow> byte list" where
  "writeFloat32 buf f = buf @ PutUint 4 (ucast f)"

definition writeFloat64 :: "byte list \<Rightarrow> float64 \<Rightarrow> byte list" where
  "writeFloat64 buf f = buf @ PutUint 8 f"

definition isFloat32 :: "float64 \<Rightarrow> bool" where
  "isFloat32 f \<longleftrightarrow> f64_eq (f64_of_f32 (f32_of_f64 f)) f"

definition writeAnyNumber :: "byte list \<Rightarrow> float64 \<Rightarrow> byte list" where
  "writeAnyNumber buf f =
     (case f64_int f of
        Some n \<Rightarrow>
          if - bits31 \<le> n \<and> n \<le> bits31 then writeVarInt (buf @ [125]) n
          else if isFloat32 f then writeFloat32 (buf @ [124]) (f32_of_f64 f)
          else writeFloat64 (buf @ [123]) f
      | None \<Rightarrow>
          if isFloat32 f then writeFloat32 (buf @ [124]) (f32_of_f64 f)
          else writeFloat64 (buf @ [123]) f)"

text \<open>\<open>writeArray\<close> and \<open>writeObject\<close> are the folds in the last two equations.\<close>

fun writeAny :: "byte list \<Rightarrow> any \<Rightarrow> byte list" where
  "writeAny buf AUndefined = buf @ [127]"
| "writeAny buf ANull = buf @ [126]"
| "writeAny buf (AString s) = WriteString (buf @ [119]) s"
| "writeAny buf (AInt n) = writeAnyNumber buf (f64_of_int n)"
| "writeAny buf (ABigInt n) = writeInt64 (buf @ [122]) n"
| "writeAny buf (AFloat32 f) = writeAnyNumber buf (f64_of_f32 f)"
| "writeAny buf (AFloat64 f) = writeAnyNumber buf f"
| "writeAny buf (ABool b) = buf @ [if b then 120 else 121]"
| "writeAny buf (ABytes bs) = WriteVarUint8Array (buf @ [116]) bs"
| "writeAny buf (AArray vs) = foldl writeAny (WriteVarUint (buf @ [117]) (of_nat (length vs))) vs"
| "writeAny buf (AObject kvs) =
     foldl (\<lambda>b kv. writeAny (WriteString b (fst kv)) (snd kv)) (WriteVarUint (buf @ [118]) (of_nat (length kvs))) kvs"
| "writeAny buf AOther = buf @ [127]"

subsection \<open>Reading\<close>

definition readFloat32 :: "any reader" where
  "readFloat32 = rbind (readFixedWidth 4) (\<lambda>bs. rret (AFloat32 (ucast (Uint bs))))"

definition readFloat64 :: "any reader" where
  "readFloat64 = rbind (readFixedWidth 8) (\<lambda>bs. rret (AFloat64 (Uint bs)))"

definition readVarString :: "gostring reader" where
  "readVarString = rbind ReadVarUint (\<lambda>sz decoder.
     if sz = 0 then (Inr [], decoder)
     else if unat sz > length decoder then (Inl BufferNotEnough, decoder)
     else (Inr (take (unat sz) decoder), drop (unat sz) decoder))"

fun readEntries :: "any reader \<Rightarrow> nat \<Rightarrow> (gostring \<times> any) list \<Rightarrow> (gostring \<times> any) list reader" where
  "readEntries rd 0 obj = rret obj"
| "readEntries rd (Suc n) obj =
     rbind readVarString (\<lambda>key. rbind rd (\<lambda>value. readEntries rd n (AList.update key value obj)))"

fun readElems :: "any reader \<Rightarrow> nat \<Rightarrow> any list \<Rightarrow> any list reader" where
  "readElems rd 0 array = rret array"
| "readElems rd (Suc n) array = rbind rd (\<lambda>value. readElems rd n (array @ [value]))"

definition readObjectDepth :: "any reader \<Rightarrow> any reader" where
  "readObjectDepth rd = rbind ReadVarUint (\<lambda>sz. rbind (readEntries rd (unat sz) []) (\<lambda>obj. rret (AObject obj)))"

definition readArrayDepth :: "any reader \<Rightarrow> any reader" where
  "readArrayDepth rd = rbind ReadVarUint (\<lambda>sz decoder.
     if sz = 0 then (Inr (AArray []), decoder)
     else if boundExceeded sz (int (length decoder)) 1 then (Inl LengthExceedsRemaining, decoder)
     else rbind (readElems rd (unat sz) []) (\<lambda>array. rret (AArray array)) decoder)"

text \<open>The lookup table, for the tags 127 down to 116.\<close>

primrec readAnyDepth :: "nat \<Rightarrow> any reader" where
  "readAnyDepth 0 = rfail DepthExceeded"
| "readAnyDepth (Suc n) = rbind ReadByte (\<lambda>tag.
     let refID = 127 - tag
     in if unat refID \<ge> 12 then rfail TagOutOfRange
        else if tag = 118 then readObjectDepth (readAnyDepth n)
        else if tag = 117 then readArrayDepth (readAnyDepth n)
        else if tag = 127 then rret AUndefined
        else if tag = 126 then rret ANull
        else if tag = 125 then rbind readVarInt (\<lambda>v. rret (AInt v))
        else if tag = 124 then readFloat32
        else if tag = 123 then readFloat64
        else if tag = 122 then rbind readBigInt64 (\<lambda>v. rret (ABigInt v))
        else if tag = 121 then rret (ABool False)
        else if tag = 120 then rret (ABool True)
        else if tag = 119 then rbind readVarString (\<lambda>s. rret (AString s))
        else rbind ReadVarUint8Array (\<lambda>b. rret (ABytes b)))"

definition readAny :: "any reader" where
  "readAny = readAnyDepth (maxAnyDepth + 1)"

section \<open>Writers append\<close>

lemma writeInt64_append: "writeInt64 dst n = dst @ writeInt64 [] n"
  by (simp add: writeInt64_def)

lemma writeFloat_append: "writeFloat32 dst f = dst @ writeFloat32 [] f" "writeFloat64 dst g = dst @ writeFloat64 [] g"
  by (simp_all add: writeFloat32_def writeFloat64_def)

lemma writeAnyNumber_append: "writeAnyNumber buf f = buf @ writeAnyNumber [] f"
  using writeVarInt_append [of "buf @ [125]"] writeVarInt_append [of "[125]"]
  by (simp add: writeAnyNumber_def writeFloat32_def writeFloat64_def split: option.splits)

lemma foldl_append:
  assumes "\<And>x b. x \<in> set xs \<Longrightarrow> f b x = b @ f [] x"
  shows "foldl f b xs = b @ concat (map (f []) xs)"
  using assms
proof (induction xs arbitrary: b)
  case (Cons x xs)
  have "foldl f (f b x) xs = f b x @ concat (map (f []) xs)"
    by (rule Cons.IH) (rule Cons.prems, rule list.set_intros(2))
  moreover have "f b x = b @ f [] x" by (rule Cons.prems) (rule list.set_intros(1))
  ultimately show ?case by (simp only: foldl_Cons append_assoc list.map concat.simps)
qed simp

lemma writeAny_append: "writeAny buf v = buf @ writeAny [] v"
proof (induction v arbitrary: buf)
  case (AString s)
  then show ?case using WriteString_append [of "buf @ [119]" s] WriteString_append [of "[119]" s] by simp
next
  case (AInt n)
  then show ?case by (simp add: writeAnyNumber_append [of buf])
next
  case (ABigInt n)
  then show ?case by (simp add: writeInt64_def)
next
  case (AFloat32 f)
  then show ?case by (simp add: writeAnyNumber_append [of buf])
next
  case (AFloat64 f)
  then show ?case by (simp add: writeAnyNumber_append [of buf])
next
  case (ABytes bs)
  then show ?case
    using WriteVarUint8Array_append [of "buf @ [116]" bs] WriteVarUint8Array_append [of "[116]" bs] by simp
next
  case (AArray vs)
  have "foldl writeAny b vs = b @ concat (map (writeAny []) vs)" for b
    by (rule foldl_append) (rule AArray)
  then show ?case
    using WriteVarUint_append [of "buf @ [117]" "of_nat (length vs)"] WriteVarUint_append [of "[117]" "of_nat (length vs)"]
    by simp
next
  case (AObject kvs)
  let ?f = "\<lambda>b kv. writeAny (WriteString b (fst kv)) (snd kv)"
  have step: "?f b kv = b @ ?f [] kv" if kv: "kv \<in> set kvs" for b kv
  proof -
    have "snd kv \<in> Basic_BNFs.snds kv" by (cases kv) (simp add: snds.simps)
    with AObject [OF kv] have "writeAny (WriteString b (fst kv)) (snd kv) = WriteString b (fst kv) @ writeAny [] (snd kv)"
      "writeAny (WriteString [] (fst kv)) (snd kv) = WriteString [] (fst kv) @ writeAny [] (snd kv)" by blast+
    with WriteString_append [of b "fst kv"] show ?thesis by simp
  qed
  have "foldl ?f b kvs = b @ concat (map (?f []) kvs)" for b
    by (rule foldl_append) (rule step)
  then show ?case
    using WriteVarUint_append [of "buf @ [118]" "of_nat (length kvs)"] WriteVarUint_append [of "[118]" "of_nat (length kvs)"]
    by simp
qed simp_all

lemma writeAny_array:
  "writeAny [] (AArray vs) = 117 # WriteVarUint [] (of_nat (length vs)) @ concat (map (writeAny []) vs)"
proof -
  have "foldl writeAny b vs = b @ concat (map (writeAny []) vs)" for b
    by (rule foldl_append) (rule writeAny_append)
  then show ?thesis using WriteVarUint_append [of "[117]" "of_nat (length vs)"] by simp
qed

lemma writeAny_object:
  "writeAny [] (AObject kvs) =
     118 # WriteVarUint [] (of_nat (length kvs)) @ concat (map (\<lambda>kv. WriteString [] (fst kv) @ writeAny [] (snd kv)) kvs)"
proof -
  let ?f = "\<lambda>b kv. writeAny (WriteString b (fst kv)) (snd kv)"
  have "?f b kv = b @ ?f [] kv" for b and kv :: "gostring \<times> any"
    by (metis writeAny_append WriteString_append append.assoc)
  then have "foldl ?f b kvs = b @ concat (map (?f []) kvs)" for b
    by (intro foldl_append)
  moreover have "?f [] = (\<lambda>kv. WriteString [] (fst kv) @ writeAny [] (snd kv))"
    by (rule ext) (rule writeAny_append)
  ultimately show ?thesis using WriteVarUint_append [of "[118]" "of_nat (length kvs)"] by simp
qed

section \<open>Reading back\<close>

text \<open>The value a written value is read as: numbers take the smallest of the three encodings.\<close>

definition number_of :: "float64 \<Rightarrow> any" where
  "number_of f =
     (case f64_int f of
        Some n \<Rightarrow> if - bits31 \<le> n \<and> n \<le> bits31 then AInt n
                  else if isFloat32 f then AFloat32 (f32_of_f64 f) else AFloat64 f
      | None \<Rightarrow> if isFloat32 f then AFloat32 (f32_of_f64 f) else AFloat64 f)"

fun canon :: "any \<Rightarrow> any" where
  "canon (AInt n) = number_of (f64_of_int n)"
| "canon (AFloat32 f) = number_of (f64_of_f32 f)"
| "canon (AFloat64 f) = number_of f"
| "canon (AArray vs) = AArray (map canon vs)"
| "canon (AObject kvs) = AObject (map (\<lambda>kv. (fst kv, canon (snd kv))) kvs)"
| "canon AOther = AUndefined"
| "canon v = v"

text \<open>Values the encoding can carry, and their nesting depth.\<close>

fun any_ok :: "any \<Rightarrow> bool" where
  "any_ok (AString s) \<longleftrightarrow> int (length s) \<le> MaxInt"
| "any_ok (ABigInt n) \<longleftrightarrow> int64_ok n"
| "any_ok (ABytes bs) \<longleftrightarrow> int (length bs) \<le> MaxInt"
| "any_ok (AArray vs) \<longleftrightarrow> int (length vs) \<le> MaxInt \<and> list_all any_ok vs"
| "any_ok (AObject kvs) \<longleftrightarrow> int (length kvs) \<le> MaxInt \<and> distinct (map fst kvs) \<and>
     list_all (\<lambda>kv. int (length (fst kv)) \<le> MaxInt \<and> any_ok (snd kv)) kvs"
| "any_ok _ \<longleftrightarrow> True"

fun any_depth :: "any \<Rightarrow> nat" where
  "any_depth (AArray vs) = foldr (\<lambda>v. max (Suc (any_depth v))) vs 0"
| "any_depth (AObject kvs) = foldr (\<lambda>kv. max (Suc (any_depth (snd kv)))) kvs 0"
| "any_depth _ = 0"

lemma foldr_max_le: "(foldr (\<lambda>v. max (f v)) vs 0 \<le> (n :: nat)) \<longleftrightarrow> (\<forall>v \<in> set vs. f v \<le> n)"
  by (induction vs) auto

lemma readVarString_eq: "readVarString = ReadString"
  by (simp add: readVarString_def ReadString_def)

lemma read_number:
  "readAnyDepth (Suc n) (writeAnyNumber [] f @ rest) = (Inr (number_of f), rest)"
proof -
  have i: "readAnyDepth (Suc n) (125 # writeVarInt [] k @ rest) = (Inr (AInt k), rest)"
    if "- bits31 \<le> k" "k \<le> bits31" for k
    using that by (simp add: ReadByte_def readVarInt_writeVarInt bits31_def MaxInt_def Let_def)
  have f32: "readAnyDepth (Suc n) (124 # PutUint 4 (ucast g) @ rest) = (Inr (AFloat32 g), rest)" for g
  proof -
    have "(ucast (take_bit 32 (ucast g :: uint64)) :: float32) = g"
      by (rule bit_word_eqI) (auto simp: bit_simps)
    then show ?thesis
      by (simp add: ReadByte_def readFloat32_def readFixedWidth_PutUint Uint_PutUint Let_def)
  qed
  have f64: "readAnyDepth (Suc n) (123 # PutUint 8 g @ rest) = (Inr (AFloat64 g), rest)" for g
    by (simp add: ReadByte_def readFloat64_def readFixedWidth_PutUint Uint_PutUint Let_def take_bit_word_eq_self)
  show ?thesis
    using i f32 f64 writeVarInt_append [of "[125]"]
    by (simp add: writeAnyNumber_def number_of_def writeFloat32_def writeFloat64_def split: option.splits
      del: readAnyDepth.simps)
qed

lemma readElems_ok:
  "(\<And>v rest. v \<in> set vs \<Longrightarrow> int (length (w v @ rest)) \<le> MaxInt \<Longrightarrow> rd (w v @ rest) = (Inr (c v), rest)) \<Longrightarrow>
     int (length (concat (map w vs) @ rest)) \<le> MaxInt \<Longrightarrow>
     readElems rd (length vs) acc (concat (map w vs) @ rest) = (Inr (acc @ map c vs), rest)"
  by (induction vs arbitrary: acc) simp_all

lemma readEntries_ok:
  assumes "\<And>kv rest. kv \<in> set kvs \<Longrightarrow> int (length (w (snd kv) @ rest)) \<le> MaxInt \<Longrightarrow> rd (w (snd kv) @ rest) = (Inr (c (snd kv)), rest)"
    and "\<And>kv. kv \<in> set kvs \<Longrightarrow> int (length (fst kv)) \<le> MaxInt"
    and "distinct (map fst acc @ map fst kvs)"
    and "int (length (concat (map (\<lambda>kv. WriteString [] (fst kv) @ w (snd kv)) kvs) @ rest)) \<le> MaxInt"
  shows "readEntries rd (length kvs) acc (concat (map (\<lambda>kv. WriteString [] (fst kv) @ w (snd kv)) kvs) @ rest) =
    (Inr (acc @ map (\<lambda>kv. (fst kv, c (snd kv))) kvs), rest)"
  using assms
proof (induction kvs arbitrary: acc)
  case (Cons kv kvs)
  have "readVarString (WriteString [] (fst kv) @ t) = (Inr (fst kv), t)" for t
    using Cons.prems(2) [of kv] by (simp add: readVarString_eq ReadString_WriteString MaxInt_def)
  moreover have "AList.update (fst kv) (c (snd kv)) acc = acc @ [(fst kv, c (snd kv))]"
    using Cons.prems(3) by (intro AList_update_new) auto
  moreover have "readEntries rd (length kvs) (acc @ [(fst kv, c (snd kv))])
      (concat (map (\<lambda>kv. WriteString [] (fst kv) @ w (snd kv)) kvs) @ rest) =
      (Inr ((acc @ [(fst kv, c (snd kv))]) @ map (\<lambda>kv. (fst kv, c (snd kv))) kvs), rest)"
    using Cons.prems by (intro Cons.IH) auto
  ultimately show ?case using Cons.prems(1) [of kv] Cons.prems(4) by simp
qed simp

lemma writeAny_nonempty: "1 \<le> length (writeAny [] v)"
proof (cases v)
  case (AInt n)
  then show ?thesis using writeVarInt_append [of "[125]"]
    by (simp add: writeAnyNumber_def writeFloat32_def writeFloat64_def split: option.splits)
next
  case (AFloat32 f)
  then show ?thesis using writeVarInt_append [of "[125]"]
    by (simp add: writeAnyNumber_def writeFloat32_def writeFloat64_def split: option.splits)
next
  case (AFloat64 f)
  then show ?thesis using writeVarInt_append [of "[125]"]
    by (simp add: writeAnyNumber_def writeFloat32_def writeFloat64_def split: option.splits)
next
  case (AString s)
  then show ?thesis using WriteString_append [of "[119]" s] by simp
next
  case (ABytes bs)
  then show ?thesis using WriteVarUint8Array_append [of "[116]" bs] by simp
next
  case (ABigInt n)
  then show ?thesis by (simp add: writeInt64_def)
next
  case (AArray vs)
  then show ?thesis by (simp only: writeAny_array) simp
next
  case (AObject kvs)
  then show ?thesis by (simp only: writeAny_object) simp
qed simp_all

lemma length_concat_ge: "(\<And>v. v \<in> set vs \<Longrightarrow> 1 \<le> length (w v)) \<Longrightarrow> length vs \<le> length (concat (map w vs))"
proof (induction vs)
  case (Cons a vs)
  then have "1 \<le> length (w a)" "length vs \<le> length (concat (map w vs))" by simp_all
  then show ?case by simp
qed simp
lemma count_of_nat: "int n \<le> MaxInt \<Longrightarrow> unat (of_nat n :: uint64) = n" "int n \<le> MaxInt \<Longrightarrow> of_nat n = (0 :: uint64) \<longleftrightarrow> n = 0"
proof -
  assume n: "int n \<le> MaxInt"
  then show u: "unat (of_nat n :: uint64) = n" by (simp add: unsigned_of_nat take_bit_eq_mod MaxInt_def)
  show "of_nat n = (0 :: uint64) \<longleftrightarrow> n = 0"
  proof
    assume "of_nat n = (0 :: uint64)"
    with u have "n = unat (0 :: uint64)" by (simp only:)
    then show "n = 0" by simp
  qed simp
qed

lemma readAnyDepth_writeAny:
  "any_ok v \<Longrightarrow> any_depth v \<le> b \<Longrightarrow> int (length (writeAny [] v @ rest)) \<le> MaxInt \<Longrightarrow>
     readAnyDepth (Suc b) (writeAny [] v @ rest) = (Inr (canon v), rest)"
proof (induction v arbitrary: b rest)
  case (AString s)
  then show ?case
    using ReadString_WriteString [of s rest] WriteString_append [of "[119]" s]
    by (simp add: ReadByte_def readVarString_eq MaxInt_def)
next
  case (AInt n)
  show ?case using read_number [of b "f64_of_int n" rest] by (simp del: readAnyDepth.simps)
next
  case (ABigInt n)
  then show ?case
    using readBigInt64_writeInt64 [of n rest] writeInt64_append [of "[122]" n] by (simp add: ReadByte_def)
next
  case (AFloat32 f)
  show ?case using read_number [of b "f64_of_f32 f" rest] by (simp del: readAnyDepth.simps)
next
  case (AFloat64 f)
  show ?case using read_number [of b f rest] by (simp del: readAnyDepth.simps)
next
  case (ABytes bs)
  then show ?case
    using ReadVarUint8Array_WriteVarUint8Array [of bs rest] WriteVarUint8Array_append [of "[116]" bs]
    by (simp add: ReadByte_def MaxInt_def)
next
  case (AArray vs)
  have len: "int (length vs) \<le> MaxInt" using AArray.prems by simp
  let ?es = "concat (map (writeAny []) vs) @ rest"
  have tot: "int (length ?es) \<le> MaxInt"
    using AArray.prems(3) unfolding writeAny_array by simp
  have d: "\<forall>v \<in> set vs. Suc (any_depth v) \<le> b" using AArray.prems(2) by (simp add: foldr_max_le)
  have el: "readAnyDepth b (writeAny [] v @ t) = (Inr (canon v), t)" if "v \<in> set vs" "int (length (writeAny [] v @ t)) \<le> MaxInt" for v t
    using AArray.IH [of v] AArray.prems(1) d that by (cases b) (auto simp: list_all_iff simp del: readAnyDepth.simps)
  have els: "readElems (readAnyDepth b) (length vs) [] ?es = (Inr (map canon vs), rest)"
    using readElems_ok [where vs = vs and rd = "readAnyDepth b" and w = "writeAny []" and c = canon and acc = "[]"] el tot by simp
  have "length vs \<le> length ?es"
    using length_concat_ge [of vs "writeAny []"] writeAny_nonempty by fastforce
  then have g: "\<not> boundExceeded (of_nat (length vs)) (int (length ?es)) 1"
    using boundExceeded_fits [of 1 "length vs" "length ?es"] tot by simp
  show ?case
    using g els len
    by (simp add: writeAny_array ReadByte_def readArrayDepth_def ReadVarUint_WriteVarUint count_of_nat
        del: writeAny.simps of_nat_eq_0_iff)
next
  case (AObject kvs)
  have len: "int (length kvs) \<le> MaxInt" using AObject.prems by simp
  have d: "\<forall>kv \<in> set kvs. Suc (any_depth (snd kv)) \<le> b" using AObject.prems(2) by (simp add: foldr_max_le)
  have el: "readAnyDepth b (writeAny [] (snd kv) @ t) = (Inr (canon (snd kv)), t)" 
    if kv: "kv \<in> set kvs" "int (length (writeAny [] (snd kv) @ t)) \<le> MaxInt" for kv t
  proof -
    have "snd kv \<in> Basic_BNFs.snds kv" by (cases kv) (simp add: snds.simps)
    then show ?thesis
      using AObject.IH [of kv "snd kv"] AObject.prems(1) bspec [OF d kv(1)] kv
      by (cases b) (auto simp: list_all_iff simp del: readAnyDepth.simps)
  qed
  let ?es = "concat (map (\<lambda>kv. WriteString [] (fst kv) @ writeAny [] (snd kv)) kvs) @ rest"
  have tot: "int (length ?es) \<le> MaxInt"
    using AObject.prems(3) unfolding writeAny_object by simp
  have els: "readEntries (readAnyDepth b) (length kvs) [] ?es =
      (Inr (map (\<lambda>kv. (fst kv, canon (snd kv))) kvs), rest)"
    using readEntries_ok [where kvs = kvs and rd = "readAnyDepth b" and w = "writeAny []" and c = canon and acc = "[]"] el tot AObject.prems(1)
    by (auto simp: list_all_iff)
  show ?case
    using els len
    by (simp add: writeAny_object ReadByte_def readObjectDepth_def ReadVarUint_WriteVarUint count_of_nat
        del: writeAny.simps of_nat_eq_0_iff)
qed (simp_all add: ReadByte_def)
section \<open>Numbers survive the float conversions\<close>

lemma ilog2_bounds: "0 < a \<Longrightarrow> 2 ^ ilog2 a \<le> a \<and> a < 2 ^ Suc (ilog2 a)"
proof (induction a rule: ilog2.induct)
  case (1 n)
  show ?case
  proof (cases "n < 2")
    case True
    with "1.prems" show ?thesis by (simp add: ilog2.simps [of n])
  next
    case False
    then have ih: "2 ^ ilog2 (n div 2) \<le> n div 2" "n div 2 < 2 ^ Suc (ilog2 (n div 2))"
      using "1.IH" by simp_all
    have "ilog2 n = Suc (ilog2 (n div 2))" using False by (simp add: ilog2.simps [of n])
    moreover have "2 * p \<le> n \<and> n < 4 * p" if "p \<le> n div 2" "n div 2 < 2 * p" for p :: nat
      using that by linarith
    ultimately show ?thesis using ih by simp
  qed
qed

lemma ilog2_less: "0 < a \<Longrightarrow> a < 2 ^ n \<Longrightarrow> ilog2 a < n"
  using ilog2_bounds [of a] by (metis le_less_trans power_less_imp_less_exp one_less_numeral_iff semiring_norm(76))

lemma ilog2_shift:
  assumes "0 < a" "ilog2 a \<le> n"
  shows "2 ^ n \<le> a * 2 ^ (n - ilog2 a)" "a * 2 ^ (n - ilog2 a) < 2 * 2 ^ n"
proof -
  let ?k = "ilog2 a"
  have e: "(2 :: nat) ^ n = 2 ^ ?k * 2 ^ (n - ?k)"
    using assms(2) by (simp add: power_add [symmetric])
  show "2 ^ n \<le> a * 2 ^ (n - ?k)" using ilog2_bounds [OF assms(1)] by (simp add: e)
  have "a * 2 ^ (n - ?k) < 2 ^ Suc ?k * 2 ^ (n - ?k)" using ilog2_bounds [OF assms(1)] by simp
  then show "a * 2 ^ (n - ?k) < 2 * 2 ^ n" by (simp add: e)
qed

lemma unat_of_nat_64: "n < 2 ^ 64 \<Longrightarrow> unat (of_nat n :: uint64) = n"
  by (simp add: unsigned_of_nat take_bit_eq_mod)

lemma f64_fields:
  assumes "E < 2048" "m < 2 ^ 52" "sg = 0 \<or> sg = 2 ^ 63"
  shows "f64_neg (of_nat (sg + E * 2 ^ 52 + m)) \<longleftrightarrow> sg \<noteq> 0"
    and "f64_exp (of_nat (sg + E * 2 ^ 52 + m)) = E"
    and "f64_man (of_nat (sg + E * 2 ^ 52 + m)) = m"
proof -
  have lt: "E * 2 ^ 52 + m < 2 ^ 63" using assms(1,2) by simp
  then have u: "unat (of_nat (sg + E * 2 ^ 52 + m) :: float64) = sg + E * 2 ^ 52 + m"
    using assms(3) by (intro unat_of_nat_64) auto
  show "f64_neg (of_nat (sg + E * 2 ^ 52 + m)) \<longleftrightarrow> sg \<noteq> 0"
    unfolding f64_neg_def u using assms(3) lt by auto
  have split: "sg + E * 2 ^ 52 + m = (sg div 2 ^ 52 + E) * 2 ^ 52 + m" using assms(3) by auto
  have d: "(sg + E * 2 ^ 52 + m) div 2 ^ 52 = sg div 2 ^ 52 + E" "(sg + E * 2 ^ 52 + m) mod 2 ^ 52 = m"
    unfolding split using assms(2) by (simp_all only: div_mult_self3 mod_mult_self3 div_less mod_less)
  show "f64_exp (of_nat (sg + E * 2 ^ 52 + m)) = E"
    unfolding f64_exp_def u d using assms(1,3) by auto
  show "f64_man (of_nat (sg + E * 2 ^ 52 + m)) = m"
    unfolding f64_man_def u d ..
qed

lemma f64_int_of_int:
  assumes "\<bar>n\<bar> < 2 ^ 53"
  shows "f64_int (f64_of_int n) = Some n"
proof (cases "n = 0")
  case True
  then show ?thesis by (simp add: f64_of_int_def f64_int_def f64_exp_def f64_man_def Let_def)
next
  case False
  define a k sg where "a = nat \<bar>n\<bar>" and "k = ilog2 a" and "sg = (if n < 0 then 2 ^ 63 else 0 :: nat)"
  have a: "0 < a" "a < 2 ^ 53" using False assms by (auto simp: a_def)
  have k: "k \<le> 52" using ilog2_less [OF a] by (simp add: k_def)
  define M where "M = a * 2 ^ (52 - k)"
  have M: "2 ^ 52 \<le> M" "M < 2 * 2 ^ 52" using ilog2_shift [OF a(1), of 52] k by (simp_all add: M_def k_def)
  define m where "m = M - 2 ^ 52"
  have m: "m < 2 ^ 52" "2 ^ 52 + m = M" using M by (auto simp: m_def)
  have "f64_of_int n = of_nat (sg + (k + 1022) * 2 ^ 52 + M)"
    using a(1) k by (simp add: f64_of_int_def a_def [symmetric] k_def [symmetric] sg_def M_def Let_def del: of_nat_add of_nat_mult)
  also have "sg + (k + 1022) * 2 ^ 52 + M = sg + (k + 1023) * 2 ^ 52 + m" using m(2) by simp
  finally have f: "f64_of_int n = of_nat (sg + (k + 1023) * 2 ^ 52 + m)" .
  have sg: "sg = 0 \<or> sg = 2 ^ 63" by (simp add: sg_def)
  have lt: "k + 1023 < 2048" using k by simp
  note fields = f64_fields [OF lt m(1) sg]
  have s: "(if sg \<noteq> 0 then - 1 else 1) * int a = n" using False by (auto simp: sg_def a_def)
  show ?thesis
  proof (cases "k = 52")
    case True
    then show ?thesis using s m(2) unfolding f64_int_def f fields by (simp add: Let_def M_def)
  next
    case False
    then have "1075 - (k + 1023) = 52 - k" "\<not> 1075 \<le> k + 1023" "M mod 2 ^ (52 - k) = 0" "M div 2 ^ (52 - k) = a"
      using k by (auto simp: M_def)
    then show ?thesis using s m(2) lt unfolding f64_int_def f fields by (simp add: Let_def)
  qed
qed

lemma f64_isZero_int: "f64_isZero f \<Longrightarrow> f64_int f = Some 0"
  by (simp add: f64_isZero_def f64_int_def Let_def)

lemma writeAny_number_of: "writeAny buf (number_of f) = writeAnyNumber buf f"
proof -
  have i: "writeAnyNumber buf (f64_of_int n) = writeVarInt (buf @ [125]) n" if "- bits31 \<le> n" "n \<le> bits31" for n
  proof -
    have "f64_int (f64_of_int n) = Some n"
      using that by (intro f64_int_of_int) (simp add: bits31_def)
    with that show ?thesis by (simp add: writeAnyNumber_def)
  qed
  have s: "f64_of_f32 (f32_of_f64 f) = f" if "isFloat32 f" "f64_int f \<noteq> Some 0"
    using that by (auto simp: isFloat32_def f64_eq_def dest: f64_isZero_int)
  show ?thesis
  proof (cases "f64_int f")
    case None
    then show ?thesis using s by (simp add: number_of_def writeAnyNumber_def)
  next
    case (Some n)
    then show ?thesis using s i by (auto simp: number_of_def writeAnyNumber_def bits31_def)
  qed
qed

lemma writeAny_canon: "writeAny buf (canon v) = writeAny buf v"
proof (induction v arbitrary: buf)
  case (AArray vs)
  then have "foldl writeAny b (map canon vs) = foldl writeAny b vs" for b
    by (induction vs arbitrary: b) simp_all
  then show ?case by simp
next
  case (AObject kvs)
  have el: "writeAny b (canon (snd kv)) = writeAny b (snd kv)" if "kv \<in> set kvs" for kv b
    using AObject [OF that, of "snd kv"] by (cases kv) (simp add: snds.simps)
  have "foldl (\<lambda>b kv. writeAny (WriteString b (fst kv)) (snd kv)) b (map (\<lambda>kv. (fst kv, canon (snd kv))) kvs) =
      foldl (\<lambda>b kv. writeAny (WriteString b (fst kv)) (snd kv)) b kvs" for b
    using el by (induction kvs arbitrary: b) simp_all
  then show ?case by simp
qed (simp_all add: writeAny_number_of)
text \<open>A \<^verbatim>\<open>float32\<close> that is not a NaN survives the conversion to \<^verbatim>\<open>float64\<close> and back.\<close>

definition f32_isNaN :: "float32 \<Rightarrow> bool" where
  "f32_isNaN b \<longleftrightarrow> unat b div 2 ^ 23 mod 256 = 255 \<and> unat b mod 2 ^ 23 \<noteq> 0"

lemma rne_exact: "rne (q * 2 ^ s) s = q"
  by (simp add: rne_def)

lemma unat_of_nat_unat_inverse: "of_nat (unat b) = (b :: float32)"
  by simp

lemma f32_split:
  fixes b :: float32
  defines "e \<equiv> unat b div 2 ^ 23 mod 256" and "m \<equiv> unat b mod 2 ^ 23"
    and "sg \<equiv> (if 2 ^ 31 \<le> unat b then 2 ^ 31 else 0 :: nat)"
  shows "unat b = sg + e * 2 ^ 23 + m" "e < 256" "m < 2 ^ 23"
proof -
  have "unat b < 2 ^ 32" using unsigned_less [of b, where 'a = nat] by simp
  then have "unat b div 2 ^ 23 < 512" by simp
  then have "unat b div 2 ^ 23 = (if 256 \<le> unat b div 2 ^ 23 then 256 else 0) + e"
    unfolding e_def by (simp add: le_mod_geq)
  moreover have "256 \<le> unat b div 2 ^ 23 \<longleftrightarrow> 2 ^ 31 \<le> unat b" by (simp add: less_eq_div_iff_mult_less_eq)
  ultimately have d: "unat b div 2 ^ 23 = sg div 2 ^ 23 + e" by (simp add: sg_def)
  have "unat b = unat b div 2 ^ 23 * 2 ^ 23 + m" unfolding m_def by (rule div_mult_mod_eq [symmetric])
  then show "unat b = sg + e * 2 ^ 23 + m" unfolding d by (simp add: sg_def)
qed (simp_all add: e_def m_def)

lemma f32_of_fields:
  assumes "E < 2048" "m < 2 ^ 52" "sg = 0 \<or> sg = 2 ^ 63" "E = 2047 \<longrightarrow> m = 0"
    and k: "k = (if E = 0 then 1 else E)" and M: "M = (if E = 0 then m else 2 ^ 52 + m)"
  shows "f32_of_f64 (of_nat (sg + E * 2 ^ 52 + m)) =
    of_nat ((if sg = 0 then 0 else 2 ^ 31) +
      min (255 * 2 ^ 23) (if k \<ge> 897 then (k - 897) * 2 ^ 23 + rne M 29 else rne M (926 - k)))"
  using assms(4) unfolding f32_of_f64_def f64_isNaN_def f64_fields [OF assms(1-3)] k M Let_def by simp

lemma f32_of_f64_of_f32:
  assumes "\<not> f32_isNaN b"
  shows "f32_of_f64 (f64_of_f32 b) = b"
proof -
  define e m where "e = unat b div 2 ^ 23 mod 256" and "m = unat b mod 2 ^ 23"
  define sg sg' where "sg = (if 2 ^ 31 \<le> unat b then 2 ^ 31 else 0 :: nat)"
    and "sg' = (if 2 ^ 31 \<le> unat b then 2 ^ 63 else 0 :: nat)"
  have u: "unat b = sg + e * 2 ^ 23 + m" "e < 256" "m < 2 ^ 23"
    using f32_split [of b] by (simp_all add: e_def m_def sg_def)
  have b: "b = of_nat (sg + (e * 2 ^ 23 + m))" by (metis add.assoc u(1) unat_of_nat_unat_inverse)
  have nan: "e = 255 \<longrightarrow> m = 0" using assms by (auto simp: f32_isNaN_def e_def m_def)
  have sg': "sg' = 0 \<or> sg' = 2 ^ 63" "(if sg' = 0 then 0 else 2 ^ 31) = sg" by (simp_all add: sg_def sg'_def)
  have bits: "e * 2 ^ 23 + m \<le> 255 * 2 ^ 23" using u(2,3) nan by (cases "e = 255") auto
  note simps = f64_of_f32_def e_def [symmetric] m_def [symmetric] sg'_def [symmetric] Let_def
  consider "e = 255" | "e = 0" "m = 0" | "e = 0" "m \<noteq> 0" | "e \<noteq> 0" "e \<noteq> 255" by blast
  then show ?thesis
  proof cases
    case 1
    then have "f64_of_f32 b = of_nat (sg' + 2047 * 2 ^ 52 + 0)" using nan unfolding simps by simp
    then show ?thesis using 1 nan sg' b f32_of_fields [of 2047 0 sg' 2047 "2 ^ 52"] rne_exact [of "2 ^ 23" 29] by simp
  next
    case 2
    then have "f64_of_f32 b = of_nat (sg' + 0 * 2 ^ 52 + 0)" unfolding simps by simp
    then show ?thesis using 2 sg' b f32_of_fields [of 0 0 sg' 1 0] rne_exact [of 0 925] by simp
  next
    case 3
    define k where "k = ilog2 m"
    have k: "k < 23" using ilog2_less [of m 23] 3 u(3) by (simp add: k_def)
    define M where "M = m * 2 ^ (52 - k)"
    have M: "2 ^ 52 \<le> M" "M < 2 * 2 ^ 52" using ilog2_shift [of m 52] k 3 by (simp_all add: M_def k_def)
    have "f64_of_f32 b = of_nat (sg' + (k + 873) * 2 ^ 52 + M)"
      using 3 unfolding simps by (simp add: k_def [symmetric] M_def)
    also have "sg' + (k + 873) * 2 ^ 52 + M = sg' + (k + 874) * 2 ^ 52 + (M - 2 ^ 52)" using M by simp
    finally have f: "f64_of_f32 b = of_nat (sg' + (k + 874) * 2 ^ 52 + (M - 2 ^ 52))" .
    have "926 - (k + 874) = 52 - k" using k by simp
    then have "rne M (926 - (k + 874)) = m" unfolding M_def by (simp only: rne_exact)
    then show ?thesis using 3 k M sg' b bits unfolding f
      by (subst f32_of_fields [of _ _ sg' "k + 874" M]) auto
  next
    case 4
    have f: "f64_of_f32 b = of_nat (sg' + (e + 896) * 2 ^ 52 + m * 2 ^ 29)" using 4 unfolding simps by simp
    have M: "2 ^ 52 + m * 2 ^ 29 = (2 ^ 23 + m) * 2 ^ 29" by simp
    have "rne (2 ^ 52 + m * 2 ^ 29) 29 = 2 ^ 23 + m" unfolding M by (rule rne_exact)
    then have r: "(e + 896 - 897) * 2 ^ 23 + rne (2 ^ 52 + m * 2 ^ 29) 29 = e * 2 ^ 23 + m"
      using 4 by (cases e) auto
    show ?thesis using 4 u(2,3) sg' b bits r unfolding f
      by (subst f32_of_fields [of _ _ sg' "e + 896" "2 ^ 52 + m * 2 ^ 29"]) auto
  qed
qed
section \<open>The nesting limit\<close>

lemma rbind_fst_Inl: "fst (m s) = Inl e \<Longrightarrow> fst (rbind m f s) = Inl e"
  by (cases "m s") (simp add: rbind_def)

lemma readElems_fail:
  assumes "\<And>v t. v \<in> set vs \<Longrightarrow> good v \<Longrightarrow> int (length (w v @ t)) \<le> MaxInt \<Longrightarrow> rd (w v @ t) = (Inr (c v), t)"
    and "\<And>v t. v \<in> set vs \<Longrightarrow> \<not> good v \<Longrightarrow> int (length (w v @ t)) \<le> MaxInt \<Longrightarrow> fst (rd (w v @ t)) = Inl e"
    and "\<exists>v \<in> set vs. \<not> good v" and "int (length (concat (map w vs) @ rest)) \<le> MaxInt"
  shows "fst (readElems rd (length vs) acc (concat (map w vs) @ rest)) = Inl e"
  using assms
proof (induction vs arbitrary: acc)
  case (Cons v vs)
  let ?t = "concat (map w vs) @ rest"
  have len: "int (length (w v @ ?t)) \<le> MaxInt" "int (length ?t) \<le> MaxInt" using Cons.prems(4) by simp_all
  show ?case
  proof (cases "good v")
    case True
    have "fst (readElems rd (length vs) (acc @ [c v]) ?t) = Inl e"
      using Cons.prems True len by (intro Cons.IH) auto
    then show ?thesis using Cons.prems(1) [of v ?t] True len by simp
  next
    case False
    then show ?thesis using Cons.prems(2) [of v ?t] len by (simp add: rbind_fst_Inl)
  qed
qed simp

lemma readEntries_fail:
  assumes "\<And>kv t. kv \<in> set kvs \<Longrightarrow> good (snd kv) \<Longrightarrow> int (length (w (snd kv) @ t)) \<le> MaxInt \<Longrightarrow>
      rd (w (snd kv) @ t) = (Inr (c (snd kv)), t)"
    and "\<And>kv t. kv \<in> set kvs \<Longrightarrow> \<not> good (snd kv) \<Longrightarrow> int (length (w (snd kv) @ t)) \<le> MaxInt \<Longrightarrow>
      fst (rd (w (snd kv) @ t)) = Inl e"
    and "\<And>kv. kv \<in> set kvs \<Longrightarrow> int (length (fst kv)) \<le> MaxInt"
    and "\<exists>kv \<in> set kvs. \<not> good (snd kv)"
    and "int (length (concat (map (\<lambda>kv. WriteString [] (fst kv) @ w (snd kv)) kvs) @ rest)) \<le> MaxInt"
  shows "fst (readEntries rd (length kvs) acc
    (concat (map (\<lambda>kv. WriteString [] (fst kv) @ w (snd kv)) kvs) @ rest)) = Inl e"
  using assms
proof (induction kvs arbitrary: acc)
  case (Cons kv kvs)
  let ?t = "concat (map (\<lambda>kv. WriteString [] (fst kv) @ w (snd kv)) kvs) @ rest"
  have len: "int (length (w (snd kv) @ ?t)) \<le> MaxInt" "int (length ?t) \<le> MaxInt" using Cons.prems(5) by simp_all
  have key: "readVarString (WriteString [] (fst kv) @ t) = (Inr (fst kv), t)" for t
    using Cons.prems(3) [of kv] by (simp add: readVarString_eq ReadString_WriteString MaxInt_def)
  show ?case
  proof (cases "good (snd kv)")
    case True
    have "fst (readEntries rd (length kvs) (AList.update (fst kv) (c (snd kv)) acc) ?t) = Inl e"
      using Cons.prems True len by (intro Cons.IH) auto
    then show ?thesis using Cons.prems(1) [of kv ?t] key True len by simp
  next
    case False
    then show ?thesis using Cons.prems(2) [of kv ?t] key len by (simp add: rbind_fst_Inl)
  qed
qed simp

lemma readAnyDepth_too_deep:
  "any_ok v \<Longrightarrow> b < any_depth v \<Longrightarrow> int (length (writeAny [] v @ rest)) \<le> MaxInt \<Longrightarrow>
     fst (readAnyDepth (Suc b) (writeAny [] v @ rest)) = Inl DepthExceeded"
proof (induction v arbitrary: b rest)
  case (AArray vs)
  have len: "int (length vs) \<le> MaxInt" "list_all any_ok vs" using AArray.prems by simp_all
  let ?es = "concat (map (writeAny []) vs) @ rest"
  have tot: "int (length ?es) \<le> MaxInt"
    using AArray.prems(3) unfolding writeAny_array by simp
  have d: "\<exists>v \<in> set vs. \<not> any_depth v < b"
    using AArray.prems(2) foldr_max_le [of "\<lambda>v. Suc (any_depth v)" vs b] by force
  have els: "fst (readElems (readAnyDepth b) (length vs) [] ?es) = Inl DepthExceeded"
  proof (rule readElems_fail [OF _ _ d tot])
    fix v t assume v: "v \<in> set vs" "any_depth v < b" "int (length (writeAny [] v @ t)) \<le> MaxInt"
    then show "readAnyDepth b (writeAny [] v @ t) = (Inr (canon v), t)"
      using readAnyDepth_writeAny [of v "b - 1" t] len(2) by (simp add: list_all_iff del: readAnyDepth.simps)
  next
    fix v t assume v: "v \<in> set vs" "\<not> any_depth v < b" "int (length (writeAny [] v @ t)) \<le> MaxInt"
    then show "fst (readAnyDepth b (writeAny [] v @ t)) = Inl DepthExceeded"
      using AArray.IH [of v "b - 1" t] len(2) by (cases b) (auto simp: list_all_iff simp del: readAnyDepth.simps(2))
  qed
  have "length vs \<le> length ?es"
    using length_concat_ge [of vs "writeAny []"] writeAny_nonempty by fastforce
  then have g: "\<not> boundExceeded (of_nat (length vs)) (int (length ?es)) 1"
    using boundExceeded_fits [of 1 "length vs" "length ?es"] tot by simp
  show ?case
    using g els len d
    by (auto simp add: writeAny_array ReadByte_def readArrayDepth_def ReadVarUint_WriteVarUint count_of_nat rbind_fst_Inl
        simp del: writeAny.simps of_nat_eq_0_iff)
next
  case (AObject kvs)
  have len: "int (length kvs) \<le> MaxInt" "\<And>kv. kv \<in> set kvs \<Longrightarrow> int (length (fst kv)) \<le> MaxInt"
    "\<And>kv. kv \<in> set kvs \<Longrightarrow> any_ok (snd kv)" using AObject.prems by (simp_all add: list_all_iff)
  let ?es = "concat (map (\<lambda>kv. WriteString [] (fst kv) @ writeAny [] (snd kv)) kvs) @ rest"
  have tot: "int (length ?es) \<le> MaxInt"
    using AObject.prems(3) unfolding writeAny_object by simp
  have d: "\<exists>kv \<in> set kvs. \<not> any_depth (snd kv) < b"
    using AObject.prems(2) foldr_max_le [of "\<lambda>kv. Suc (any_depth (snd kv))" kvs b] by force
  have els: "fst (readEntries (readAnyDepth b) (length kvs) [] ?es) = Inl DepthExceeded"
  proof (rule readEntries_fail [OF _ _ len(2) d tot])
    fix kv t assume v: "kv \<in> set kvs" "any_depth (snd kv) < b" "int (length (writeAny [] (snd kv) @ t)) \<le> MaxInt"
    then show "readAnyDepth b (writeAny [] (snd kv) @ t) = (Inr (canon (snd kv)), t)"
      using readAnyDepth_writeAny [of "snd kv" "b - 1" t] len(3) by (simp del: readAnyDepth.simps)
  next
    fix kv t assume v: "kv \<in> set kvs" "\<not> any_depth (snd kv) < b" "int (length (writeAny [] (snd kv) @ t)) \<le> MaxInt"
    have "snd kv \<in> Basic_BNFs.snds kv" by (cases kv) (simp add: snds.simps)
    with v show "fst (readAnyDepth b (writeAny [] (snd kv) @ t)) = Inl DepthExceeded"
      using AObject.IH [of kv "snd kv" "b - 1" t] len(3) by (cases b) (auto simp del: readAnyDepth.simps(2))
  qed
  show ?case
    using els len(1)
    by (simp add: writeAny_object ReadByte_def readObjectDepth_def ReadVarUint_WriteVarUint count_of_nat rbind_fst_Inl
        del: writeAny.simps of_nat_eq_0_iff)
qed simp_all
section \<open>Properties\<close>

text \<open>Values that come back unchanged: each number is held in the type its encoding is read as.\<close>

definition not_small_int :: "float64 \<Rightarrow> bool" where
  "not_small_int f = (case f64_int f of Some n \<Rightarrow> \<bar>n\<bar> > bits31 | None \<Rightarrow> True)"

fun any_exact :: "any \<Rightarrow> bool" where
  "any_exact (AInt n) \<longleftrightarrow> \<bar>n\<bar> \<le> bits31"
| "any_exact (AFloat32 f) \<longleftrightarrow> \<not> f32_isNaN f \<and> not_small_int (f64_of_f32 f)"
| "any_exact (AFloat64 f) \<longleftrightarrow> \<not> isFloat32 f \<and> not_small_int f"
| "any_exact (AArray vs) \<longleftrightarrow> list_all any_exact vs"
| "any_exact (AObject kvs) \<longleftrightarrow> list_all (\<lambda>kv. any_exact (snd kv)) kvs"
| "any_exact AOther \<longleftrightarrow> False"
| "any_exact _ \<longleftrightarrow> True"

lemma number_of_not_small:
  "not_small_int f \<Longrightarrow> number_of f = (if isFloat32 f then AFloat32 (f32_of_f64 f) else AFloat64 f)"
  by (auto simp: number_of_def not_small_int_def split: option.splits)

lemma f32_of_f64_NaN: "f64_isNaN x \<Longrightarrow> f32_isNaN (f32_of_f64 x)"
  by (auto simp: f32_of_f64_def f32_isNaN_def Let_def)

lemma isFloat32_of_f32: "\<not> f32_isNaN f \<Longrightarrow> isFloat32 (f64_of_f32 f)"
  using f32_of_f64_NaN [of "f64_of_f32 f"] by (auto simp: isFloat32_def f64_eq_def f32_of_f64_of_f32)

lemma canon_exact: "any_exact v \<Longrightarrow> canon v = v"
proof (induction v)
  case (AInt n)
  then have "f64_int (f64_of_int n) = Some n" by (intro f64_int_of_int) (simp add: bits31_def)
  with AInt show ?case by (auto simp: number_of_def)
next
  case (AArray vs)
  then show ?case by (simp add: list_all_iff map_idI)
next
  case (AObject kvs)
  have "(fst kv, canon (snd kv)) = kv" if "kv \<in> set kvs" for kv
    using AObject that by (cases kv) (auto simp: list_all_iff snds.simps)
  then show ?case by (simp add: map_idI)
qed (simp_all add: number_of_not_small isFloat32_of_f32 f32_of_f64_of_f32)

text \<open>
  Claim C26. Decoding an encoded value returns the value with every number in its wire type, and leaves the
  bytes after it, exactly when the value nests at most 100 levels; one that nests deeper is refused
  with the depth error. Encoding the decoded value gives the same bytes again.
\<close>

theorem any_roundtrip:
  assumes "any_ok v" "int (length (writeAny [] v @ rest)) \<le> MaxInt"
  shows "(if any_depth v \<le> maxAnyDepth then readAny (writeAny [] v @ rest) = (Inr (canon v), rest)
     else fst (readAny (writeAny [] v @ rest)) = Inl DepthExceeded) \<and>
    writeAny buf (canon v) = writeAny buf v"
  using readAnyDepth_writeAny [of v maxAnyDepth rest] readAnyDepth_too_deep [of v maxAnyDepth rest] assms
  by (simp add: readAny_def writeAny_canon del: readAnyDepth.simps)

lemmas float_eval = f64_int_def f64_exp_def f64_man_def f64_neg_def not_small_int_def f64_of_f32_def f32_isNaN_def
  Let_def bits31_def

theorem any_roundtrip_witness:
  "readAny (writeAny [] (AArray [AInt (- 5), AObject [([97], ABool True)], AOther]) @ [7]) =
     (Inr (AArray [AInt (- 5), AObject [([97], ABool True)], AUndefined]), [7])"
proof -
  let ?v = "AArray [AInt (- 5), AObject [([97], ABool True)], AOther]"
  have i: "f64_int (f64_of_int (- 5)) = Some (- 5)" by (rule f64_int_of_int) simp
  have "any_ok ?v" "any_depth ?v \<le> maxAnyDepth" by (simp_all add: MaxInt_def maxAnyDepth_def)
  moreover have "canon ?v = AArray [AInt (- 5), AObject [([97], ABool True)], AUndefined]"
    using i by (simp add: number_of_def bits31_def)
  moreover have "length (writeAny [] ?v) = 10"
  proof -
    have "writeAnyNumber [] (f64_of_int (- 5)) = writeVarInt [125] (- 5)"
      using i by (simp add: writeAnyNumber_def bits31_def)
    moreover have "length (writeVarInt [125] (- 5)) = 2" "length (WriteVarUint [] 3) = 1" "length (WriteVarUint [] 1) = 1"
      "length (WriteString [] [97]) = 2" by code_simp+
    ultimately show ?thesis by (simp add: writeAny_array writeAny_object del: writeAny.simps(10,11))
  qed
  ultimately show ?thesis using any_roundtrip [of ?v "[7]"] by (simp add: MaxInt_def)
qed

text \<open>
  A value whose numbers are already in the type the encoding gives them (integers of 31 bits, floats that
  are not such integers, \<^verbatim>\<open>float64\<close> only where \<^verbatim>\<open>float32\<close> would lose precision) is decoded to exactly itself.
\<close>

theorem any_exact_roundtrip:
  assumes "any_ok v" "any_exact v" "any_depth v \<le> maxAnyDepth" "int (length (writeAny [] v @ rest)) \<le> MaxInt"
  shows "readAny (writeAny [] v @ rest) = (Inr v, rest)"
  using readAnyDepth_writeAny [of v maxAnyDepth rest] canon_exact assms
  by (simp add: readAny_def del: readAnyDepth.simps)

theorem any_exact_roundtrip_witness:
  "readAny (writeAny [] (AArray [AFloat32 0x3F000000, ABigInt (- 9), ANull]) @ [3]) =
     (Inr (AArray [AFloat32 0x3F000000, ABigInt (- 9), ANull]), [3])"
proof (rule any_exact_roundtrip)
  let ?v = "AArray [AFloat32 0x3F000000, ABigInt (- 9), ANull]"
  show "any_ok ?v" "any_depth ?v \<le> maxAnyDepth" by (simp_all add: MaxInt_def MinInt_def maxAnyDepth_def int64_ok_def)
  show "any_exact ?v" by (simp add: float_eval)
  have "f64_int (f64_of_f32 0x3F000000) = None" by (simp add: float_eval)
  then have "length (writeAnyNumber [] (f64_of_f32 0x3F000000)) \<le> 9"
    by (simp add: writeAnyNumber_def writeFloat32_def writeFloat64_def)
  moreover have "length (WriteVarUint [] 3) = 1" by code_simp
  ultimately show "int (length (writeAny [] ?v @ [3])) \<le> MaxInt"
    by (simp add: writeAny_array writeInt64_def MaxInt_def del: writeAny.simps(10,11))
qed

end
