(* ===== verification/Awareness.thy ===== *)
theory Awareness
  imports AnyCodec "HOL-Library.Multiset"
begin

text \<open>
  Presence (\<^verbatim>\<open>crdt/awareness.go\<close>) with the deep copier (\<^verbatim>\<open>crdt/data_clone.go\<close>) and the deep comparison
  (\<^verbatim>\<open>equalAttrsDeep\<close> of \<^verbatim>\<open>crdt/utils.go\<close>) it uses. An \<open>awareness\<close> holds the private maps as association
  lists keyed by client; an absent key reads as the zero \<^verbatim>\<open>Object\<close>, \<open>None\<close>. A metadata object, always made of a
  clock and a time, is the record \<open>aw_meta\<close>.

  Every operation returns the events it emits, in order, and the new state; \<open>now\<close> is the value of
  \<^verbatim>\<open>getUnixTime\<close>. The two JSON functions the code calls are arguments: \<open>str\<close> for \<^verbatim>\<open>jsonString\<close> and \<open>prs\<close> for
  \<^verbatim>\<open>unmarshalJSONOrdered\<close>. An unchecked type assertion on an absent clock is \<open>GoPanic\<close>.
\<close>

section \<open>Values\<close>

type_synonym entries = "(gostring \<times> any) list"

text \<open>\<^verbatim>\<open>cloneDataValue\<close> and \<^verbatim>\<open>cloneDataObjectDepth\<close>, with their loops.\<close>

fun cloneDataValue :: "nat \<Rightarrow> any \<Rightarrow> go_error + any"
  and cloneDataObjectDepth :: "nat \<Rightarrow> entries \<Rightarrow> go_error + entries"
  and cloneElems :: "nat \<Rightarrow> any list \<Rightarrow> go_error + any list"
  and cloneEntries :: "nat \<Rightarrow> entries \<Rightarrow> go_error + entries" where
  "cloneDataValue depth v =
     (if depth > maxAnyDepth then Inl UnsupportedDataValue
      else case v of
             AOther \<Rightarrow> Inl UnsupportedDataValue
           | AObject kvs \<Rightarrow> (case cloneDataObjectDepth depth kvs of Inl e \<Rightarrow> Inl e | Inr out \<Rightarrow> Inr (AObject out))
           | AArray vs \<Rightarrow> (case cloneElems (depth + 1) vs of Inl e \<Rightarrow> Inl e | Inr out \<Rightarrow> Inr (AArray out))
           | _ \<Rightarrow> Inr v)"
| "cloneDataObjectDepth depth kvs =
     (if depth > maxAnyDepth then Inl UnsupportedDataValue else cloneEntries (depth + 1) kvs)"
| "cloneElems depth [] = Inr []"
| "cloneElems depth (v # vs) =
     (case cloneDataValue depth v of
        Inl e \<Rightarrow> Inl e
      | Inr v' \<Rightarrow> (case cloneElems depth vs of Inl e \<Rightarrow> Inl e | Inr vs' \<Rightarrow> Inr (v' # vs')))"
| "cloneEntries depth [] = Inr []"
| "cloneEntries depth ((k, v) # kvs) =
     (case cloneDataValue depth v of
        Inl e \<Rightarrow> Inl e
      | Inr v' \<Rightarrow> (case cloneEntries depth kvs of Inl e \<Rightarrow> Inl e | Inr kvs' \<Rightarrow> Inr ((k, v') # kvs')))"

definition cloneDataObject :: "entries option \<Rightarrow> go_error + entries option" where
  "cloneDataObject ob =
     (case ob of None \<Rightarrow> Inr None
      | Some kvs \<Rightarrow> (case cloneDataObjectDepth 0 kvs of Inl e \<Rightarrow> Inl e | Inr out \<Rightarrow> Inr (Some out)))"

text \<open>\<^verbatim>\<open>equalAttrsDeep\<close>; \<^verbatim>\<open>reflect.DeepEqual\<close> compares floats with \<^verbatim>\<open>==\<close>.\<close>

definition scalarEqual :: "any \<Rightarrow> any \<Rightarrow> bool" where
  "scalarEqual a b =
     (case (a, b) of
        (AFloat64 f, AFloat64 g) \<Rightarrow> f64_eq f g
      | (AFloat32 f, AFloat32 g) \<Rightarrow> f64_eq (f64_of_f32 f) (f64_of_f32 g)
      | _ \<Rightarrow> a = b)"

function equalAttrsDeep :: "any \<Rightarrow> any \<Rightarrow> bool" where
  "equalAttrsDeep (AObject as) b =
     (case b of
        AObject bs \<Rightarrow> length as = length bs \<and>
          list_all (\<lambda>kv. case map_of bs (fst kv) of None \<Rightarrow> False | Some v \<Rightarrow> equalAttrsDeep (snd kv) v) as
      | _ \<Rightarrow> False)"
| "equalAttrsDeep (AArray as) b =
     (case b of
        AArray bs \<Rightarrow> length as = length bs \<and> list_all (\<lambda>i. equalAttrsDeep (as ! i) (bs ! i)) [0..<length as]
      | _ \<Rightarrow> False)"
| "equalAttrsDeep AUndefined b = scalarEqual AUndefined b"
| "equalAttrsDeep ANull b = scalarEqual ANull b"
| "equalAttrsDeep (ABool x) b = scalarEqual (ABool x) b"
| "equalAttrsDeep (AString x) b = scalarEqual (AString x) b"
| "equalAttrsDeep (AInt x) b = scalarEqual (AInt x) b"
| "equalAttrsDeep (ABigInt x) b = scalarEqual (ABigInt x) b"
| "equalAttrsDeep (AFloat32 x) b = scalarEqual (AFloat32 x) b"
| "equalAttrsDeep (AFloat64 x) b = scalarEqual (AFloat64 x) b"
| "equalAttrsDeep (ABytes x) b = scalarEqual (ABytes x) b"
| "equalAttrsDeep AOther b = scalarEqual AOther b"
  by pat_completeness auto

lemma size_any_elem: "v \<in> set vs \<Longrightarrow> size v < size (AArray vs)"
  by (induction vs) auto

lemma size_any_entry: "kv \<in> set kvs \<Longrightarrow> size (snd kv) < size (AObject kvs)"
  by (induction kvs) (auto simp: size_prod_def)

termination equalAttrsDeep
  by (relation "measure (\<lambda>(a, b). size a)") (use size_any_elem size_any_entry in force)+

section \<open>State and operations\<close>

record aw_meta =
  m_clock :: Number
  m_lastUpdated :: int

record awareness =
  aw_ClientID :: Number
  aw_states :: "(Number \<times> entries) list"
  aw_metas :: "(Number \<times> aw_meta) list"
  aw_destroyed :: bool

record awarenessEntry =
  ae_clientID :: Number
  ae_clock :: Number
  ae_state :: "entries option"

datatype aw_origin = LocalOrigin | TimeoutOrigin | GivenOrigin nat

datatype aw_event =
    EvChange "Number list" "Number list" "Number list" aw_origin
  | EvUpdate "Number list" "Number list" "Number list" aw_origin
  | EvDestroy

definition OutdatedTimeout :: int where
  "OutdatedTimeout = 30000"

definition aw_state :: "awareness \<Rightarrow> Number \<Rightarrow> entries option" where
  "aw_state a c = map_of (aw_states a) c"

definition aw_meta_of :: "awareness \<Rightarrow> Number \<Rightarrow> aw_meta option" where
  "aw_meta_of a c = map_of (aw_metas a) c"

definition put_state :: "Number \<Rightarrow> entries option \<Rightarrow> awareness \<Rightarrow> awareness" where
  "put_state c s a =
     a\<lparr>aw_states := (case s of None \<Rightarrow> AList.delete c (aw_states a) | Some kvs \<Rightarrow> AList.update c kvs (aw_states a))\<rparr>"

definition put_meta :: "Number \<Rightarrow> Number \<Rightarrow> int \<Rightarrow> awareness \<Rightarrow> awareness" where
  "put_meta c clock now a = a\<lparr>aw_metas := AList.update c \<lparr>m_clock = clock, m_lastUpdated = now\<rparr> (aw_metas a)\<rparr>"

definition GetLocalState :: "awareness \<Rightarrow> entries option" where
  "GetLocalState a = aw_state a (aw_ClientID a)"

definition setLocalState :: "int \<Rightarrow> entries option \<Rightarrow> bool \<Rightarrow> awareness \<Rightarrow> (go_error + aw_event list) \<times> awareness" where
  "setLocalState now state force a =
     (if aw_destroyed a \<and> \<not> force then (Inr [], a)
      else case cloneDataObject state of
        Inl err \<Rightarrow> (Inl err, a)
      | Inr ownedState \<Rightarrow>
          let clientID = aw_ClientID a;
              clock = (case aw_meta_of a clientID of None \<Rightarrow> 0 | Some m \<Rightarrow> wrap64 (m_clock m + 1));
              prevState = aw_state a clientID;
              a' = put_meta clientID clock now (put_state clientID ownedState a);
              removed = (if ownedState = None then [clientID] else []);
              added = (if ownedState \<noteq> None \<and> prevState = None then [clientID] else []);
              updated = (if ownedState \<noteq> None \<and> prevState \<noteq> None then [clientID] else []);
              filteredUpdated =
                (case (prevState, ownedState) of
                   (Some p, Some s) \<Rightarrow> if equalAttrsDeep (AObject p) (AObject s) then [] else [clientID]
                 | _ \<Rightarrow> []);
              change = (if added \<noteq> [] \<or> filteredUpdated \<noteq> [] \<or> removed \<noteq> []
                        then [EvChange added filteredUpdated removed LocalOrigin] else [])
          in (Inr (change @ [EvUpdate added updated removed LocalOrigin]), a'))"

definition SetLocalState :: "int \<Rightarrow> entries option \<Rightarrow> awareness \<Rightarrow> (go_error + aw_event list) \<times> awareness" where
  "SetLocalState now state a = setLocalState now state False a"

definition SetLocalStateField :: "int \<Rightarrow> gostring \<Rightarrow> any \<Rightarrow> awareness \<Rightarrow> (go_error + aw_event list) \<times> awareness" where
  "SetLocalStateField now field v a =
     (case GetLocalState a of
        None \<Rightarrow> (Inr [], a)
      | Some state \<Rightarrow> SetLocalState now (Some (AList.update field v state)) a)"

definition Destroy :: "int \<Rightarrow> awareness \<Rightarrow> aw_event list \<times> awareness" where
  "Destroy now a =
     (if aw_destroyed a then ([], a)
      else case setLocalState now None True (a\<lparr>aw_destroyed := True\<rparr>) of
             (Inl _, a') \<Rightarrow> ([EvDestroy], a')
           | (Inr evs, a') \<Rightarrow> (EvDestroy # evs, a'))"

definition GetStates :: "int \<Rightarrow> awareness \<Rightarrow> (Number \<times> entries) list" where
  "GetStates now a =
     filter (\<lambda>(k, v). k = aw_ClientID a \<or>
        (case aw_meta_of a k of None \<Rightarrow> True | Some m \<Rightarrow> \<not> now - m_lastUpdated m \<ge> OutdatedTimeout)) (aw_states a)"

definition GetMeta :: "awareness \<Rightarrow> (Number \<times> aw_meta) list" where
  "GetMeta a = aw_metas a"

definition NewAwareness :: "int \<Rightarrow> Number \<Rightarrow> awareness" where
  "NewAwareness now clientID =
     snd (SetLocalState now (Some []) \<lparr>aw_ClientID = clientID, aw_states = [], aw_metas = [], aw_destroyed = False\<rparr>)"

text \<open>The loop of \<^verbatim>\<open>RemoveAwarenessStates\<close>, with the clients removed so far.\<close>

fun removeLoop :: "int \<Rightarrow> Number list \<Rightarrow> Number list \<Rightarrow> awareness \<Rightarrow> (go_error + Number list) \<times> awareness" where
  "removeLoop now [] removed a = (Inr removed, a)"
| "removeLoop now (clientID # clients) removed a =
     (case aw_state a clientID of
        None \<Rightarrow> removeLoop now clients removed a
      | Some _ \<Rightarrow>
          let a1 = put_state clientID None a
          in if clientID = aw_ClientID a
             then case aw_meta_of a1 clientID of
                    None \<Rightarrow> (Inl GoPanic, a1)
                  | Some m \<Rightarrow> removeLoop now clients (removed @ [clientID])
                      (put_meta clientID (wrap64 (m_clock m + 1)) now a1)
             else removeLoop now clients (removed @ [clientID]) a1)"

definition RemoveAwarenessStates ::
  "int \<Rightarrow> Number list \<Rightarrow> aw_origin \<Rightarrow> awareness \<Rightarrow> (go_error + aw_event list) \<times> awareness" where
  "RemoveAwarenessStates now clients org a =
     (if aw_destroyed a then (Inr [], a)
      else case removeLoop now clients [] a of
        (Inl e, a') \<Rightarrow> (Inl e, a')
      | (Inr removed, a') \<Rightarrow>
          (Inr (if removed \<noteq> [] then [EvChange [] [] removed org, EvUpdate [] [] removed org] else []), a'))"

subsection \<open>Wire format\<close>

definition AwarenessStateJSON :: "(any \<Rightarrow> gostring) \<Rightarrow> entries option \<Rightarrow> gostring" where
  "AwarenessStateJSON str state =
     (case state of None \<Rightarrow> [0x6E, 0x75, 0x6C, 0x6C] | Some kvs \<Rightarrow> str (AObject kvs))"

definition EncodeAwarenessUpdate ::
  "(any \<Rightarrow> gostring) \<Rightarrow> awareness \<Rightarrow> Number list \<Rightarrow> (Number \<times> entries) list option \<Rightarrow> byte list" where
  "EncodeAwarenessUpdate str a clients states =
     (let sts = (case states of None \<Rightarrow> aw_states a | Some m \<Rightarrow> m);
          valid = filter (\<lambda>c. aw_meta_of a c \<noteq> None) clients
      in foldl (\<lambda>encoder c.
            WriteString
              (WriteVarUint (WriteVarUint encoder (word_of_int c)) (word_of_int (m_clock (the (aw_meta_of a c)))))
              (AwarenessStateJSON str (map_of sts c)))
          (WriteVarUint [] (of_nat (length valid))) valid)"

definition ParseAwarenessStateJSON :: "(gostring \<Rightarrow> go_error + any) \<Rightarrow> gostring \<Rightarrow> go_error + entries option" where
  "ParseAwarenessStateJSON prs data =
     (if data = [] then Inr None
      else case prs data of
             Inl err \<Rightarrow> Inl err
           | Inr ANull \<Rightarrow> Inr None
           | Inr (AObject kvs) \<Rightarrow> Inr (Some kvs)
           | Inr _ \<Rightarrow> Inl MalformedAwarenessState)"

text \<open>A reader whose error is wrapped in the given sentinel.\<close>

definition rwrap :: "go_error \<Rightarrow> 'a reader \<Rightarrow> 'a reader" where
  "rwrap e m = (\<lambda>buf. case m buf of (Inl _, buf') \<Rightarrow> (Inl e, buf') | (Inr v, buf') \<Rightarrow> (Inr v, buf'))"

fun decodeEntries_loop :: "(gostring \<Rightarrow> go_error + any) \<Rightarrow> nat \<Rightarrow> awarenessEntry list \<Rightarrow> awarenessEntry list reader" where
  "decodeEntries_loop prs 0 es = rret es"
| "decodeEntries_loop prs (Suc n) es =
     rbind (rwrap TruncatedAwarenessFrame readVarUintAsNumber) (\<lambda>clientID.
     rbind (rwrap TruncatedAwarenessFrame readVarUintAsNumber) (\<lambda>clock.
     rbind (rwrap TruncatedAwarenessFrame ReadString) (\<lambda>data.
     rbind (rwrap MalformedAwarenessState (lift_result (ParseAwarenessStateJSON prs data))) (\<lambda>state.
       decodeEntries_loop prs n (es @ [\<lparr>ae_clientID = clientID, ae_clock = clock, ae_state = state\<rparr>])))))"

definition decodeAwarenessEntries :: "(gostring \<Rightarrow> go_error + any) \<Rightarrow> byte list \<Rightarrow> go_error + awarenessEntry list" where
  "decodeAwarenessEntries prs update = fst (rbind (rwrap TruncatedAwarenessFrame ReadVarUint) (\<lambda>len decoder.
     if boundExceeded len (int (length decoder)) 3 then (Inl TruncatedAwarenessFrame, decoder)
     else decodeEntries_loop prs (unat len) [] decoder) update)"

text \<open>\<^verbatim>\<open>ModifyAwarenessUpdate\<close>; \<open>obj\<close> is \<^verbatim>\<open>jsonObject\<close>.\<close>

definition awarenessModifiedStateJSON :: "(any \<Rightarrow> gostring) \<Rightarrow> any \<Rightarrow> gostring" where
  "awarenessModifiedStateJSON str v = (case v of AObject kvs \<Rightarrow> AwarenessStateJSON str (Some kvs) | _ \<Rightarrow> str v)"

fun modifyLoop :: "(any \<Rightarrow> gostring) \<Rightarrow> (gostring \<Rightarrow> any) \<Rightarrow> (any \<Rightarrow> any) \<Rightarrow> nat \<Rightarrow> byte list \<Rightarrow> byte list reader" where
  "modifyLoop str obj modify 0 encoder = rret encoder"
| "modifyLoop str obj modify (Suc n) encoder =
     rbind (rwrap TruncatedAwarenessFrame ReadVarUint) (\<lambda>clientID.
     rbind (rwrap TruncatedAwarenessFrame ReadVarUint) (\<lambda>clock.
     rbind (rwrap TruncatedAwarenessFrame ReadString) (\<lambda>data.
       modifyLoop str obj modify n
         (WriteString (WriteVarUint (WriteVarUint encoder clientID) clock)
           (awarenessModifiedStateJSON str (modify (obj data)))))))"

definition ModifyAwarenessUpdate ::
  "(any \<Rightarrow> gostring) \<Rightarrow> (gostring \<Rightarrow> any) \<Rightarrow> byte list \<Rightarrow> (any \<Rightarrow> any) \<Rightarrow> go_error + byte list" where
  "ModifyAwarenessUpdate str obj update modify = fst (rbind (rwrap TruncatedAwarenessFrame ReadVarUint) (\<lambda>len decoder.
     if boundExceeded len (int (length decoder)) 3 then (Inl TruncatedAwarenessFrame, decoder)
     else modifyLoop str obj modify (unat len) (WriteVarUint [] len) decoder) update)"

subsection \<open>Applying updates\<close>

record aw_lists =
  l_added :: "Number list"
  l_updated :: "Number list"
  l_filteredUpdated :: "Number list"
  l_removed :: "Number list"

definition no_lists :: aw_lists where
  "no_lists = \<lparr>l_added = [], l_updated = [], l_filteredUpdated = [], l_removed = []\<rparr>"

definition currClock :: "awareness \<Rightarrow> Number \<Rightarrow> Number" where
  "currClock a c = (case aw_meta_of a c of None \<Rightarrow> 0 | Some m \<Rightarrow> m_clock m)"

text \<open>The test that lets an entry in, and the body of the loop.\<close>

definition entry_newer :: "awareness \<Rightarrow> awarenessEntry \<Rightarrow> bool" where
  "entry_newer a e \<longleftrightarrow>
     currClock a (ae_clientID e) < ae_clock e \<or>
     currClock a (ae_clientID e) = ae_clock e \<and> ae_state e = None \<and> aw_state a (ae_clientID e) \<noteq> None"

definition applyEntry :: "int \<Rightarrow> awareness \<times> aw_lists \<Rightarrow> awarenessEntry \<Rightarrow> awareness \<times> aw_lists" where
  "applyEntry timestamp s e =
     (let a = fst s; l = snd s; clientID = ae_clientID e; state = ae_state e;
          clientMeta = aw_meta_of a clientID; prevState = aw_state a clientID
      in if \<not> entry_newer a e then s
         else let keepsLocal = (state = None \<and> clientID = aw_ClientID a \<and> prevState \<noteq> None);
                  clock = (if keepsLocal then wrap64 (ae_clock e + 1) else ae_clock e);
                  a1 = (if keepsLocal then a else put_state clientID state a);
                  a2 = put_meta clientID clock timestamp a1
              in (a2,
                  if clientMeta = None \<and> state \<noteq> None then l\<lparr>l_added := l_added l @ [clientID]\<rparr>
                  else if clientMeta \<noteq> None \<and> state = None then l\<lparr>l_removed := l_removed l @ [clientID]\<rparr>
                  else case state of
                         None \<Rightarrow> l
                       | Some kvs \<Rightarrow>
                           let same = (case prevState of None \<Rightarrow> kvs = []
                                       | Some p \<Rightarrow> equalAttrsDeep (AObject kvs) (AObject p));
                               l' = (if same then l else l\<lparr>l_filteredUpdated := l_filteredUpdated l @ [clientID]\<rparr>)
                           in l'\<lparr>l_updated := l_updated l' @ [clientID]\<rparr>))"

definition applyAwarenessEntries :: "int \<Rightarrow> awarenessEntry list \<Rightarrow> awareness \<Rightarrow> awareness \<times> aw_lists" where
  "applyAwarenessEntries timestamp es a =
     (if aw_destroyed a then (a, no_lists) else foldl (applyEntry timestamp) (a, no_lists) es)"

definition ApplyAwarenessUpdate ::
  "(gostring \<Rightarrow> go_error + any) \<Rightarrow> int \<Rightarrow> byte list \<Rightarrow> aw_origin \<Rightarrow> awareness \<Rightarrow> (go_error + aw_event list) \<times> awareness" where
  "ApplyAwarenessUpdate prs now update org a =
     (case decodeAwarenessEntries prs update of
        Inl err \<Rightarrow> (Inl err, a)
      | Inr es \<Rightarrow>
          let (a', l) = applyAwarenessEntries now es a
          in (Inr ((if l_added l \<noteq> [] \<or> l_filteredUpdated l \<noteq> [] \<or> l_removed l \<noteq> []
                    then [EvChange (l_added l) (l_filteredUpdated l) (l_removed l) org] else []) @
                   (if l_added l \<noteq> [] \<or> l_updated l \<noteq> [] \<or> l_removed l \<noteq> []
                    then [EvUpdate (l_added l) (l_updated l) (l_removed l) org] else [])), a'))"

definition applyAwarenessUpdateWithoutEvents ::
  "(gostring \<Rightarrow> go_error + any) \<Rightarrow> int \<Rightarrow> byte list \<Rightarrow> awareness \<Rightarrow> go_error option \<times> awareness" where
  "applyAwarenessUpdateWithoutEvents prs now update a =
     (case decodeAwarenessEntries prs update of
        Inl err \<Rightarrow> (Some err, a)
      | Inr es \<Rightarrow> (None, fst (applyAwarenessEntries now es a)))"

subsection \<open>The timer\<close>

text \<open>\<^verbatim>\<open>tick\<close> decides under the lock and acts after releasing it: \<open>tick_decide\<close>, then \<open>tick_act\<close> on a possibly later state.\<close>

definition tick_decide :: "int \<Rightarrow> awareness \<Rightarrow> bool \<times> Number list" where
  "tick_decide now a =
     (if aw_destroyed a then (False, [])
      else (case (aw_state a (aw_ClientID a), aw_meta_of a (aw_ClientID a)) of
              (Some _, Some m) \<Rightarrow> now - m_lastUpdated m \<ge> OutdatedTimeout div 2
            | _ \<Rightarrow> False,
            sort (map fst (filter (\<lambda>(c, m). c \<noteq> aw_ClientID a \<and> aw_state a c \<noteq> None \<and>
                   now - m_lastUpdated m \<ge> OutdatedTimeout) (aw_metas a)))))"

definition tick_renew :: "int \<Rightarrow> bool \<Rightarrow> awareness \<Rightarrow> aw_event list \<times> awareness" where
  "tick_renew now renewLocal a =
     (case GetLocalState a of
        Some s \<Rightarrow>
          if renewLocal
          then case SetLocalState now (Some s) a of (Inl _, a') \<Rightarrow> ([], a') | (Inr evs, a') \<Rightarrow> (evs, a')
          else ([], a)
      | None \<Rightarrow> ([], a))"

definition tick_act :: "int \<Rightarrow> bool \<times> Number list \<Rightarrow> awareness \<Rightarrow> (go_error + aw_event list) \<times> awareness" where
  "tick_act now d a =
     (let (evs, a1) = tick_renew now (fst d) a
      in if snd d \<noteq> []
         then case RemoveAwarenessStates now (snd d) TimeoutOrigin a1 of
                (Inl e, a2) \<Rightarrow> (Inl e, a2)
              | (Inr evs', a2) \<Rightarrow> (Inr (evs @ evs'), a2)
         else (Inr evs, a1))"

definition tick :: "int \<Rightarrow> awareness \<Rightarrow> (go_error + aw_event list) \<times> awareness" where
  "tick now a = tick_act now (tick_decide now a) a"
section \<open>Reading the maps\<close>

named_theorems aw_simps \<open>how the operations change the maps of an awareness\<close>

lemma put_simps [aw_simps, simp]:
  "aw_state (put_state c s a) c' = (if c' = c then s else aw_state a c')"
  "aw_state (put_meta c k t a) c' = aw_state a c'"
  "aw_meta_of (put_meta c k t a) c' = (if c' = c then Some \<lparr>m_clock = k, m_lastUpdated = t\<rparr> else aw_meta_of a c')"
  "aw_meta_of (put_state c s a) c' = aw_meta_of a c'"
  "aw_ClientID (put_state c s a) = aw_ClientID a" "aw_ClientID (put_meta c k t a) = aw_ClientID a"
  "aw_destroyed (put_state c s a) = aw_destroyed a" "aw_destroyed (put_meta c k t a) = aw_destroyed a"
  by (simp_all add: aw_state_def aw_meta_of_def put_state_def put_meta_def update_conv' delete_conv' fun_upd_def
    split: option.splits)

lemma destroyed_simps [aw_simps, simp]:
  "aw_state (a\<lparr>aw_destroyed := b\<rparr>) c = aw_state a c" "aw_meta_of (a\<lparr>aw_destroyed := b\<rparr>) c = aw_meta_of a c"
  by (simp_all add: aw_state_def aw_meta_of_def)

lemma clone_id:
  "cloneDataValue d v = Inr v' \<Longrightarrow> v' = v"
  "cloneDataObjectDepth d kvs = Inr kvs' \<Longrightarrow> kvs' = kvs"
  "cloneElems d vs = Inr vs' \<Longrightarrow> vs' = vs"
  "cloneEntries d kvs = Inr kvs' \<Longrightarrow> kvs' = kvs"
proof (induction d v and d kvs and d vs and d kvs arbitrary: v' and kvs' and vs' and kvs'
    rule: cloneDataValue_cloneDataObjectDepth_cloneElems_cloneEntries.induct)
  case (1 depth v)
  have "cloneDataValue depth v = Inr v'" by (rule "1.prems")
  with "1.IH" show ?case
    by (auto simp: cloneDataValue.simps [of depth v] split: if_splits any.splits sum.splits
      simp del: cloneDataValue.simps cloneDataObjectDepth.simps)
qed (auto split: if_splits sum.splits simp del: cloneDataValue.simps)

lemma cloneDataObject_id: "cloneDataObject s = Inr s' \<Longrightarrow> s' = s"
  by (auto simp: cloneDataObject_def split: option.splits sum.splits simp del: cloneDataObjectDepth.simps dest: clone_id)

section \<open>The invariant\<close>

text \<open>Every client with a state has metadata, the local client always has, and a destroyed value has no local state.\<close>

definition aw_inv :: "awareness \<Rightarrow> bool" where
  "aw_inv a \<longleftrightarrow>
     (\<forall>c. aw_state a c \<noteq> None \<longrightarrow> aw_meta_of a c \<noteq> None) \<and> aw_meta_of a (aw_ClientID a) \<noteq> None \<and>
     (aw_destroyed a \<longrightarrow> GetLocalState a = None)"

lemma aw_inv_put:
  "aw_inv a \<Longrightarrow> \<not> aw_destroyed a \<or> s = None \<Longrightarrow> aw_inv (put_meta c k t (put_state c s a))"
  "aw_inv a \<Longrightarrow> aw_inv (put_meta c k t a)" "aw_inv a \<Longrightarrow> aw_inv (put_state c None a)"
  by (auto simp: aw_inv_def GetLocalState_def)

lemma setLocalState_inv:
  assumes "setLocalState now s force a = (r, a')" "aw_inv a" "force \<longrightarrow> s = None"
  shows "aw_inv a'"
  using assms by (auto simp: setLocalState_def Let_def split: if_splits sum.splits prod.splits
    simp: aw_inv_put dest: cloneDataObject_id)

lemma removeLoop_inv: "removeLoop now cs acc a = (r, a') \<Longrightarrow> aw_inv a \<Longrightarrow> aw_inv a'"
  by (induction now cs acc a rule: removeLoop.induct)
    (auto simp: Let_def aw_inv_put split: option.splits if_splits)

lemma removeLoop_no_panic: "aw_inv a \<Longrightarrow> \<exists>removed a'. removeLoop now cs acc a = (Inr removed, a')"
proof (induction now cs acc a rule: removeLoop.induct)
  case (2 now c cs removed a)
  show ?case
  proof (cases "aw_state a c")
    case None
    with 2 show ?thesis by simp
  next
    case (Some s)
    with "2.prems" obtain m where m: "aw_meta_of a c = Some m" by (auto simp: aw_inv_def)
    with 2 Some show ?thesis by (auto simp: Let_def aw_inv_put)
  qed
qed simp

lemma applyEntry_simps [aw_simps]:
  "aw_ClientID (fst (applyEntry t s e)) = aw_ClientID (fst s)"
  "aw_destroyed (fst (applyEntry t s e)) = aw_destroyed (fst s)"
  by (auto simp: applyEntry_def Let_def)

lemma applyEntry_inv: "aw_inv (fst s) \<Longrightarrow> \<not> aw_destroyed (fst s) \<Longrightarrow> aw_inv (fst (applyEntry t s e))"
  by (auto simp: applyEntry_def Let_def aw_inv_put)

lemma applyEntries_fold:
  "aw_inv (fst s) \<Longrightarrow> \<not> aw_destroyed (fst s) \<Longrightarrow>
     aw_inv (fst (foldl (applyEntry t) s es)) \<and> \<not> aw_destroyed (fst (foldl (applyEntry t) s es)) \<and>
     aw_ClientID (fst (foldl (applyEntry t) s es)) = aw_ClientID (fst s)"
  by (induction es arbitrary: s) (simp_all add: applyEntry_inv applyEntry_simps)
section \<open>Reachable states\<close>

inductive aw_step :: "(gostring \<Rightarrow> go_error + any) \<Rightarrow> awareness \<Rightarrow> awareness \<Rightarrow> bool" for prs where
  set_local: "SetLocalState now s a = (r, a') \<Longrightarrow> aw_step prs a a'"
| set_field: "SetLocalStateField now k v a = (r, a') \<Longrightarrow> aw_step prs a a'"
| remove_states: "RemoveAwarenessStates now cs org a = (r, a') \<Longrightarrow> aw_step prs a a'"
| apply_update: "ApplyAwarenessUpdate prs now u org a = (r, a') \<Longrightarrow> aw_step prs a a'"
| apply_quiet: "applyAwarenessUpdateWithoutEvents prs now u a = (err, a') \<Longrightarrow> aw_step prs a a'"
| destroy: "Destroy now a = (evs, a') \<Longrightarrow> aw_step prs a a'"
| timer: "tick_act now d a = (r, a') \<Longrightarrow> aw_step prs a a'"

inductive aw_reachable :: "(gostring \<Rightarrow> go_error + any) \<Rightarrow> awareness \<Rightarrow> bool" for prs where
  aw_new: "aw_reachable prs (NewAwareness now c)"
| aw_then: "aw_reachable prs a \<Longrightarrow> aw_step prs a a' \<Longrightarrow> aw_reachable prs a'"

lemma NewAwareness_inv: "aw_inv (NewAwareness now c)"
  by (simp add: NewAwareness_def SetLocalState_def setLocalState_def cloneDataObject_def aw_inv_def
    aw_state_def aw_meta_of_def put_state_def put_meta_def Let_def GetLocalState_def)

lemma RemoveAwarenessStates_inv: "RemoveAwarenessStates now cs org a = (r, a') \<Longrightarrow> aw_inv a \<Longrightarrow> aw_inv a'"
  by (auto simp: RemoveAwarenessStates_def split: if_splits prod.splits sum.splits dest: removeLoop_inv)

lemma SetLocalState_inv: "SetLocalState now s a = (r, a') \<Longrightarrow> aw_inv a \<Longrightarrow> aw_inv a'"
  unfolding SetLocalState_def by (erule setLocalState_inv) simp_all

lemma Destroy_inv: "Destroy now a = (evs, a') \<Longrightarrow> aw_inv a \<Longrightarrow> aw_inv a'"
  by (auto simp: Destroy_def setLocalState_def cloneDataObject_def Let_def aw_inv_def GetLocalState_def split: if_splits)

lemma applyAwarenessEntries_inv: "aw_inv a \<Longrightarrow> aw_inv (fst (applyAwarenessEntries t es a))"
  using applyEntries_fold [of "(a, no_lists)" t es] by (simp add: applyAwarenessEntries_def)

lemma tick_act_inv: "tick_act now d a = (r, a') \<Longrightarrow> aw_inv a \<Longrightarrow> aw_inv a'"
  by (auto simp: tick_act_def tick_renew_def split: option.splits if_splits prod.splits sum.splits
    dest: SetLocalState_inv RemoveAwarenessStates_inv)

lemma aw_step_inv: "aw_step prs a a' \<Longrightarrow> aw_inv a \<Longrightarrow> aw_inv a'"
proof (induction rule: aw_step.induct)
  case (apply_update now u org a r a')
  then show ?case using applyAwarenessEntries_inv [of a now]
    by (auto simp: ApplyAwarenessUpdate_def Let_def split: sum.splits prod.splits) (metis fst_conv)
next
  case (apply_quiet now u a err a')
  then show ?case using applyAwarenessEntries_inv [of a now]
    by (auto simp: applyAwarenessUpdateWithoutEvents_def split: sum.splits)
qed (auto simp: SetLocalStateField_def split: option.splits
  dest: SetLocalState_inv RemoveAwarenessStates_inv Destroy_inv tick_act_inv)

lemma aw_reachable_inv: "aw_reachable prs a \<Longrightarrow> aw_inv a"
  by (induction rule: aw_reachable.induct) (auto intro: NewAwareness_inv aw_step_inv)

lemma RemoveAwarenessStates_no_panic: "aw_inv a \<Longrightarrow> \<exists>evs a'. RemoveAwarenessStates now cs org a = (Inr evs, a')"
  using removeLoop_no_panic [of a now cs "[]"] by (auto simp: RemoveAwarenessStates_def)

lemma tick_act_no_panic: "aw_inv a \<Longrightarrow> \<exists>evs. fst (tick_act now d a) = Inr evs"
proof -
  assume a: "aw_inv a"
  obtain evs a1 where a1: "tick_renew now (fst d) a = (evs, a1)" by (cases "tick_renew now (fst d) a")
  with a have "aw_inv a1"
    by (auto simp: tick_renew_def split: option.splits if_splits prod.splits sum.splits dest: SetLocalState_inv)
  from RemoveAwarenessStates_no_panic [OF this, of now "snd d" TimeoutOrigin] a1
  show ?thesis by (auto simp: tick_act_def)
qed

section \<open>The local state\<close>

lemma applyEntry_local:
  "GetLocalState (fst s) \<noteq> None \<Longrightarrow> GetLocalState (fst (applyEntry t s e)) \<noteq> None"
  by (auto simp: applyEntry_def Let_def GetLocalState_def)

lemma applyEntries_local:
  "GetLocalState (fst s) \<noteq> None \<Longrightarrow> GetLocalState (fst (foldl (applyEntry t) s es)) \<noteq> None"
proof (induction es arbitrary: s)
  case (Cons e es)
  show ?case unfolding foldl_Cons by (rule Cons.IH, rule applyEntry_local, rule Cons.prems)
qed simp

lemma applyAwarenessEntries_local:
  "GetLocalState a \<noteq> None \<Longrightarrow> GetLocalState (fst (applyAwarenessEntries t es a)) \<noteq> None"
  using applyEntries_local [of "(a, no_lists)"] by (simp add: applyAwarenessEntries_def)

section \<open>Convergence\<close>

text \<open>What a replica knows of a client, and the merge an entry performs on it.\<close>

definition aw_view :: "awareness \<Rightarrow> Number \<Rightarrow> Number \<times> entries option" where
  "aw_view a c = (currClock a c, aw_state a c)"

definition aw_join :: "awarenessEntry \<Rightarrow> Number \<times> entries option \<Rightarrow> Number \<times> entries option" where
  "aw_join e v =
     (if fst v < ae_clock e \<or> fst v = ae_clock e \<and> ae_state e = None \<and> snd v \<noteq> None
      then (ae_clock e, ae_state e) else v)"

text \<open>A client publishes one state per clock.\<close>

definition aw_consistent :: "awarenessEntry list \<Rightarrow> bool" where
  "aw_consistent es \<longleftrightarrow> list_all (\<lambda>e. list_all (\<lambda>e'.
     ae_clientID e = ae_clientID e' \<and> ae_clock e = ae_clock e' \<and> ae_state e \<noteq> None \<and> ae_state e' \<noteq> None
       \<longrightarrow> ae_state e = ae_state e') es) es"

lemma aw_join_commute:
  "(ae_clock e = ae_clock e' \<Longrightarrow> ae_state e \<noteq> None \<Longrightarrow> ae_state e' \<noteq> None \<Longrightarrow> ae_state e = ae_state e') \<Longrightarrow>
     aw_join e (aw_join e' v) = aw_join e' (aw_join e v)"
  by (cases "ae_clock e" "ae_clock e'" rule: linorder_cases) (auto simp: aw_join_def)

lemma aw_join_idem: "aw_join e (aw_join e v) = aw_join e v"
  by (auto simp: aw_join_def)

lemma aw_view_applyEntry:
  "c \<noteq> aw_ClientID (fst s) \<Longrightarrow>
     aw_view (fst (applyEntry t s e)) c = (if ae_clientID e = c then aw_join e (aw_view (fst s) c) else aw_view (fst s) c)"
  by (auto simp: applyEntry_def aw_view_def aw_join_def entry_newer_def currClock_def Let_def)

lemma aw_view_foldl:
  "c \<noteq> aw_ClientID (fst s) \<Longrightarrow>
     aw_view (fst (foldl (applyEntry t) s es)) c = fold aw_join (filter (\<lambda>e. ae_clientID e = c) es) (aw_view (fst s) c)"
  by (induction es arbitrary: s) (simp_all add: aw_view_applyEntry applyEntry_simps)

lemma fold_remdups:
  assumes com: "\<And>x y. x \<in> set xs \<Longrightarrow> y \<in> set xs \<Longrightarrow> f x \<circ> f y = f y \<circ> f x"
    and idem: "\<And>x. f x \<circ> f x = f x"
  shows "fold f (remdups xs) = fold f xs"
  using com
proof (induction xs)
  case (Cons x xs)
  have ih: "fold f (remdups xs) = fold f xs" using Cons by simp
  show ?case
  proof (cases "x \<in> set xs")
    case True
    then obtain ys zs where xs: "xs = ys @ x # zs" by (meson split_list)
    have "fold f ys \<circ> f x = f x \<circ> fold f ys"
      by (intro fold_commute [symmetric] Cons.prems) (simp_all add: xs)
    then have "fold f xs \<circ> f x = fold f zs \<circ> f x \<circ> (f x \<circ> fold f ys)" by (simp add: xs fun_eq_iff)
    also have "\<dots> = fold f zs \<circ> (f x \<circ> f x) \<circ> fold f ys" by (simp only: o_assoc)
    also have "\<dots> = fold f xs" by (simp add: idem xs fun_eq_iff)
    finally show ?thesis using True ih by simp
  next
    case False
    then show ?thesis using ih by simp
  qed
qed simp

lemma aw_fold_set_eq:
  assumes "aw_consistent es" "set es = set es'"
  shows "fold aw_join (filter (\<lambda>e. ae_clientID e = c) es) = fold aw_join (filter (\<lambda>e. ae_clientID e = c) es')"
proof -
  let ?f = "filter (\<lambda>e. ae_clientID e = c)"
  have com: "aw_join x \<circ> aw_join y = aw_join y \<circ> aw_join x" if "x \<in> set (?f es)" "y \<in> set (?f es)" for x y
    using assms(1) that by (intro ext) (auto simp: aw_consistent_def list_all_iff intro!: aw_join_commute)
  have idem: "aw_join x \<circ> aw_join x = aw_join x" for x by (intro ext) (simp add: aw_join_idem)
  have s: "set (?f es) = set (?f es')" using assms(2) by auto
  have "fold aw_join (?f es) = fold aw_join (remdups (?f es))" using com idem by (intro fold_remdups [symmetric])
  also have "\<dots> = fold aw_join (remdups (?f es'))"
  proof (rule fold_multiset_equiv)
    show "mset (remdups (?f es)) = mset (remdups (?f es'))" using s by (rule iffD1 [OF set_eq_iff_mset_remdups_eq])
  qed (use com in simp)
  also have "\<dots> = fold aw_join (?f es')" using com idem s by (intro fold_remdups) auto
  finally show ?thesis .
qed
section \<open>The wire format\<close>

definition entryBytes :: "Number \<Rightarrow> Number \<Rightarrow> gostring \<Rightarrow> byte list" where
  "entryBytes c clock js = WriteVarUint [] (word_of_int c) @ WriteVarUint [] (word_of_int clock) @ WriteString [] js"

lemma EncodeAwarenessUpdate_eq:
  "EncodeAwarenessUpdate str a clients None =
     (let valid = filter (\<lambda>c. aw_meta_of a c \<noteq> None) clients
      in WriteVarUint [] (of_nat (length valid)) @
         concat (map (\<lambda>c. entryBytes c (currClock a c) (AwarenessStateJSON str (aw_state a c))) valid))"
proof -
  let ?f = "\<lambda>encoder c. WriteString
      (WriteVarUint (WriteVarUint encoder (word_of_int c)) (word_of_int (m_clock (the (aw_meta_of a c)))))
      (AwarenessStateJSON str (aw_state a c))"
  have f: "?f b c = b @ ?f [] c" for b c
    by (metis (no_types, lifting) WriteString_append WriteVarUint_append append.assoc)
  have e: "?f [] c = entryBytes c (currClock a c) (AwarenessStateJSON str (aw_state a c))" if "aw_meta_of a c \<noteq> None" for c
    using that WriteString_append [of "WriteVarUint (WriteVarUint [] (word_of_int c)) (word_of_int (currClock a c))"]
      WriteVarUint_append [of "WriteVarUint [] (word_of_int c)"]
    by (auto simp: entryBytes_def currClock_def)
  let ?v = "filter (\<lambda>c. aw_meta_of a c \<noteq> None) clients"
  have "foldl ?f b ?v = b @ concat (map (?f []) ?v)" for b by (rule foldl_append) (rule f)
  moreover have "map (?f []) ?v = map (\<lambda>c. entryBytes c (currClock a c) (AwarenessStateJSON str (aw_state a c))) ?v"
    by (rule map_cong [OF refl]) (rule e, simp)
  ultimately show ?thesis by (simp only: EncodeAwarenessUpdate_def Let_def aw_state_def option.case)
qed

text \<open>A client whose entry can be sent: numbers in range, and a state the JSON functions carry.\<close>

definition aw_sendable :: "(gostring \<Rightarrow> go_error + any) \<Rightarrow> (any \<Rightarrow> gostring) \<Rightarrow> awareness \<Rightarrow> Number \<Rightarrow> bool" where
  "aw_sendable prs str a c \<longleftrightarrow>
     0 \<le> c \<and> c \<le> maxSafeInteger \<and> 0 \<le> currClock a c \<and> currClock a c \<le> maxSafeInteger \<and>
     int (length (AwarenessStateJSON str (aw_state a c))) \<le> MaxInt \<and>
     ParseAwarenessStateJSON prs (AwarenessStateJSON str (aw_state a c)) = Inr (aw_state a c)"

lemma rwrap_Inr_iff: "rwrap e m buf = (Inr v, buf') \<longleftrightarrow> m buf = (Inr v, buf')"
  by (auto simp: rwrap_def split: prod.splits sum.splits)

lemma rwrap_Inr [simp]: "m buf = (Inr v, buf') \<Longrightarrow> rwrap e m buf = (Inr v, buf')"
  by (simp add: rwrap_def)

lemma stable_rwrap [intro]: "stable m \<Longrightarrow> stable (rwrap e m)"
  by (simp add: stable_def rwrap_Inr_iff)

lemma stable_decodeEntries_loop: "stable (decodeEntries_loop prs n es)"
  by (induction n arbitrary: es) (auto intro!: stable_rbind stable_rwrap)

lemma decodeEntries_loop_ok:
  "list_all (aw_sendable prs str a) cs \<Longrightarrow>
   decodeEntries_loop prs (length cs) es
     (concat (map (\<lambda>c. entryBytes c (currClock a c) (AwarenessStateJSON str (aw_state a c))) cs) @ rest) =
   (Inr (es @ map (\<lambda>c. \<lparr>ae_clientID = c, ae_clock = currClock a c, ae_state = aw_state a c\<rparr>) cs), rest)"
proof (induction cs arbitrary: es)
  case (Cons c cs)
  have c: "aw_sendable prs str a c" and cs: "list_all (aw_sendable prs str a) cs" using Cons.prems by simp_all
  have "length (AwarenessStateJSON str (aw_state a c)) < 2 ^ 64" using c by (simp add: aw_sendable_def MaxInt_def)
  then show ?case using Cons.IH [OF cs] c
    by (simp add: entryBytes_def aw_sendable_def readVarUintAsNumber_WriteVarUint ReadString_WriteString)
qed simp

lemma length_entryBytes: "3 \<le> length (entryBytes c k js)"
  using varuint_nonempty [of "[]" "word_of_int c"] varuint_nonempty [of "[]" "word_of_int k"]
    varuint_nonempty [of "[]" "len64 js"]
  by (simp add: entryBytes_def WriteString_eq)

lemma length_entries: "3 * length cs \<le> length (concat (map (\<lambda>c. entryBytes c (k c) (js c)) cs))"
proof (induction cs)
  case (Cons c cs)
  then show ?case using length_entryBytes [of c "k c" "js c"] by simp
qed simp

lemma decode_frame:
  assumes "list_all (aw_sendable prs str a) (filter (\<lambda>c. aw_meta_of a c \<noteq> None) clients)"
    "int (length (EncodeAwarenessUpdate str a clients None)) \<le> MaxInt"
  defines "valid \<equiv> filter (\<lambda>c. aw_meta_of a c \<noteq> None) clients"
    and "body \<equiv> concat (map (\<lambda>c. entryBytes c (currClock a c) (AwarenessStateJSON str (aw_state a c)))
      (filter (\<lambda>c. aw_meta_of a c \<noteq> None) clients))"
  shows "ReadVarUint (EncodeAwarenessUpdate str a clients None) = (Inr (of_nat (length valid)), body)"
    and "\<not> boundExceeded (of_nat (length valid)) (int (length body)) 3"
    and "unat (of_nat (length valid) :: uint64) = length valid"
    and "decodeEntries_loop prs (length valid) [] body =
      (Inr (map (\<lambda>c. \<lparr>ae_clientID = c, ae_clock = currClock a c, ae_state = aw_state a c\<rparr>) valid), [])"
proof -
  show "ReadVarUint (EncodeAwarenessUpdate str a clients None) = (Inr (of_nat (length valid)), body)"
    using ReadVarUint_WriteVarUint [of "of_nat (length valid)" body]
    by (simp add: EncodeAwarenessUpdate_eq valid_def body_def Let_def)
  have len: "3 * length valid \<le> length body" unfolding valid_def body_def by (rule length_entries)
  have b: "int (length body) \<le> MaxInt" using assms(2) by (simp add: EncodeAwarenessUpdate_eq Let_def body_def)
  then show "\<not> boundExceeded (of_nat (length valid)) (int (length body)) 3"
    using boundExceeded_fits [of 3 "length valid" "length body"] len by simp
  show "unat (of_nat (length valid) :: uint64) = length valid"
    using len b by (intro unat_of_nat_64) (simp add: MaxInt_def)
  have "list_all (aw_sendable prs str a) valid" using assms(1) unfolding valid_def .
  from decodeEntries_loop_ok [OF this, of "[]" "[]"]
  show "decodeEntries_loop prs (length valid) [] body =
      (Inr (map (\<lambda>c. \<lparr>ae_clientID = c, ae_clock = currClock a c, ae_state = aw_state a c\<rparr>) valid), [])"
    by (simp add: valid_def body_def)
qed

lemma decode_encode:
  assumes "list_all (aw_sendable prs str a) (filter (\<lambda>c. aw_meta_of a c \<noteq> None) clients)"
    "int (length (EncodeAwarenessUpdate str a clients None)) \<le> MaxInt"
  shows "decodeAwarenessEntries prs (EncodeAwarenessUpdate str a clients None) =
    Inr (map (\<lambda>c. \<lparr>ae_clientID = c, ae_clock = currClock a c, ae_state = aw_state a c\<rparr>)
      (filter (\<lambda>c. aw_meta_of a c \<noteq> None) clients))"
  using decode_frame [OF assms] by (simp add: decodeAwarenessEntries_def)

lemma decode_truncated:
  assumes "list_all (aw_sendable prs str a) (filter (\<lambda>c. aw_meta_of a c \<noteq> None) clients)"
    "int (length (EncodeAwarenessUpdate str a clients None)) \<le> MaxInt"
    "EncodeAwarenessUpdate str a clients None = p @ t" "t \<noteq> []"
  shows "\<exists>e. decodeAwarenessEntries prs p = Inl e"
proof (rule ccontr)
  assume "\<nexists>e. decodeAwarenessEntries prs p = Inl e"
  then obtain es where es: "decodeAwarenessEntries prs p = Inr es" by (cases "decodeAwarenessEntries prs p") auto
  note full = decode_frame [OF assms(1,2)]
  from es obtain len r r' where r: "ReadVarUint p = (Inr len, r)" "\<not> boundExceeded len (int (length r)) 3"
    "decodeEntries_loop prs (unat len) [] r = (Inr es, r')"
    unfolding decodeAwarenessEntries_def
    by (auto simp: rbind_def rwrap_def split: prod.splits sum.splits if_splits) (metis prod.collapse)
  from stableD [OF stable_ReadVarUint r(1), of t] full(1) assms(3)
  have "len = of_nat (length (filter (\<lambda>c. aw_meta_of a c \<noteq> None) clients))"
    "concat (map (\<lambda>c. entryBytes c (currClock a c) (AwarenessStateJSON str (aw_state a c)))
      (filter (\<lambda>c. aw_meta_of a c \<noteq> None) clients)) = r @ t" by simp_all
  with full(3,4) stableD [OF stable_decodeEntries_loop r(3), of t] assms(4) show False by simp
qed
section \<open>Properties\<close>





text \<open>
  Claim C20. A remote update can never remove the local state: applying any bytes to a value with a local state leaves one,
  and a frame that is refused changes nothing at all.
\<close>

theorem awareness_local_survives:
  "(case GetLocalState a of
      None \<Rightarrow> True | Some s \<Rightarrow> GetLocalState (snd (ApplyAwarenessUpdate prs now u org a)) \<noteq> None) \<and>
   (case ApplyAwarenessUpdate prs now u org a of (Inl err, a') \<Rightarrow> a' = a | (Inr evs, a') \<Rightarrow> True)"
proof (cases "decodeAwarenessEntries prs u")
  case (Inr es)
  then have "snd (ApplyAwarenessUpdate prs now u org a) = fst (applyAwarenessEntries now es a)"
    "\<exists>evs. fst (ApplyAwarenessUpdate prs now u org a) = Inr evs"
    by (simp_all add: ApplyAwarenessUpdate_def Let_def split_def)
  then show ?thesis using applyAwarenessEntries_local [of a now es]
    by (cases "GetLocalState a"; cases "ApplyAwarenessUpdate prs now u org a") auto
qed (cases "GetLocalState a", simp_all add: ApplyAwarenessUpdate_def)



end
