(* ===== verification/Protocol.thy ===== *)
theory Protocol
  imports Awareness
begin

text \<open>
  The package \<^verbatim>\<open>protocol\<close>: message envelopes (\<^verbatim>\<open>protocol.go\<close>), inspection of a frame without applying it
  (\<^verbatim>\<open>message_info.go\<close>), the sync handler (\<^verbatim>\<open>sync.go\<close>), awareness broadcasts (\<^verbatim>\<open>awareness.go\<close>) and permission
  messages (\<^verbatim>\<open>auth.go\<close>). The views into a frame are an offset threaded through the readers, as in the code;
  \<^verbatim>\<open>binary.Uvarint\<close> is modelled from the language's library. Where an error wraps a sentinel and a cause, the
  sentinel is the value.

  The document is a parameter: \<open>doc_ops\<close> collects the three functions of package \<^verbatim>\<open>crdt\<close> the handler calls on it. A
  call may panic, which the handler recovers; \<open>outcome\<close> tells the three ends apart.
\<close>

section \<open>Envelopes\<close>

definition MessageSync :: byte where "MessageSync = 0"
definition MessageAwareness :: byte where "MessageAwareness = 1"

definition WriteMessage :: "byte list \<Rightarrow> byte \<Rightarrow> byte list \<Rightarrow> byte list" where
  "WriteMessage buf msgType payload = WriteVarUint buf (ucast msgType) @ payload"

definition ReadMessage :: "byte list \<Rightarrow> go_error + byte \<times> byte list" where
  "ReadMessage buf =
     (if buf = [] then Inl ShortMessage
      else case ReadVarUint buf of
        (Inl err, _) \<Rightarrow> if err = EOF \<or> err = UnexpectedEOF then Inl ShortMessage else Inl InvalidMessageType
      | (Inr t, rest) \<Rightarrow> if t > 255 then Inl InvalidMessageType else Inr (ucast t, rest))"

section \<open>Inspection\<close>

text \<open>\<^verbatim>\<open>binary.Uvarint\<close>: the value and the number of bytes read, 0 for a short buffer and negative for an overflow.\<close>

fun Uvarint_loop :: "nat \<Rightarrow> uint64 \<Rightarrow> nat \<Rightarrow> byte list \<Rightarrow> uint64 \<times> int" where
  "Uvarint_loop i x s [] = (0, 0)"
| "Uvarint_loop i x s (b # buf) =
     (if i = 10 then (0, - (int i + 1))
      else if b < 0x80
           then if i = 9 \<and> b > 1 then (0, - (int i + 1))
                else (x OR push_bit s (ucast b), int i + 1)
           else Uvarint_loop (Suc i) (x OR push_bit s (ucast (b AND 0x7f))) (s + 7) buf)"

definition Uvarint :: "byte list \<Rightarrow> uint64 \<times> int" where
  "Uvarint buf = Uvarint_loop 0 0 0 buf"

definition readVarUintView :: "byte list \<Rightarrow> (nat, uint64) fallible" where
  "readVarUintView data offset =
     (let (v, n) = Uvarint (drop offset data)
      in if n = 0 then (Inl UnexpectedEOF, offset)
         else if n < 0 then (Inl VarintOverflow, offset)
         else (Inr v, offset + nat n))"

definition readVarUint8ArrayView :: "byte list \<Rightarrow> (nat, byte list) fallible" where
  "readVarUint8ArrayView data = rbind (readVarUintView data) (\<lambda>sz offset.
     let remaining = length data - offset
     in if unat sz > remaining then (Inl UnexpectedEOF, offset)
        else (Inr (take (unat sz) (drop offset data)), offset + unat sz))"

definition readMessageView :: "byte list \<Rightarrow> go_error + byte \<times> byte list" where
  "readMessageView frame =
     (if frame = [] then Inl ShortMessage
      else case readVarUintView frame 0 of
        (Inl err, _) \<Rightarrow> if err = UnexpectedEOF then Inl ShortMessage else Inl InvalidMessageType
      | (Inr t, offset) \<Rightarrow> if t > 255 then Inl InvalidMessageType else Inr (ucast t, drop offset frame))"

record MessageInfo =
  mi_Type :: byte
  mi_SyncType :: int
  mi_FrameLength :: nat
  mi_BodyLength :: nat
  mi_Body :: "byte list"

definition inspectSync :: "byte list \<Rightarrow> go_error + int \<times> byte list" where
  "inspectSync payload =
     (case readVarUintView payload 0 of
        (Inl err, _) \<Rightarrow> Inl (if err = VarintOverflow then InvalidSyncMessageType else err)
      | (Inr subType, offset) \<Rightarrow>
          if subType > 2147483647 then Inl InvalidSyncMessageType
          else if subType = 0 \<or> subType = 1 \<or> subType = 2
               then case readVarUint8ArrayView payload offset of
                      (Inl err, _) \<Rightarrow> Inl err
                    | (Inr body, _) \<Rightarrow> Inr (uint subType, body)
               else Inr (uint subType, drop offset payload))"

definition inspectPayload :: "byte \<Rightarrow> byte list \<Rightarrow> nat \<Rightarrow> go_error + MessageInfo" where
  "inspectPayload msgType payload frameLength =
     (let info = (\<lambda>st body. \<lparr>mi_Type = msgType, mi_SyncType = st, mi_FrameLength = frameLength,
            mi_BodyLength = length body, mi_Body = body\<rparr>)
      in if msgType = MessageSync
         then case inspectSync payload of Inl err \<Rightarrow> Inl err | Inr (st, body) \<Rightarrow> Inr (info st body)
         else if msgType = MessageAwareness
         then case readVarUint8ArrayView payload 0 of (Inl err, _) \<Rightarrow> Inl err | (Inr body, _) \<Rightarrow> Inr (info (- 1) body)
         else Inr (info (- 1) payload))"

definition InspectMessage :: "byte list \<Rightarrow> go_error + MessageInfo" where
  "InspectMessage frame =
     (case readMessageView frame of
        Inl err \<Rightarrow> Inl err
      | Inr (msgType, payload) \<Rightarrow> inspectPayload msgType payload (length frame))"

section \<open>The sync handler\<close>

datatype outcome = Done | Failed go_error | Panicked

record ('d, 'g) doc_ops =
  op_ApplyUpdate :: "'d \<Rightarrow> byte list \<Rightarrow> 'g \<Rightarrow> outcome \<times> 'd"
  op_EncodeStateAsUpdate :: "'d \<Rightarrow> byte list \<Rightarrow> go_error + byte list"
  op_EncodeStateVector :: "'d \<Rightarrow> byte list"

record 'd syncHandler =
  sh_doc :: 'd
  sh_awareness :: "awareness option"
  sh_handlers :: "byte \<Rightarrow> (byte list \<Rightarrow> outcome) option"

definition NewSyncHandler :: "'d \<Rightarrow> 'd syncHandler" where
  "NewSyncHandler doc = \<lparr>sh_doc = doc, sh_awareness = None, sh_handlers = (\<lambda>_. None)\<rparr>"

definition SetAwareness :: "awareness \<Rightarrow> 'd syncHandler \<Rightarrow> 'd syncHandler" where
  "SetAwareness a h = h\<lparr>sh_awareness := Some a\<rparr>"

definition RegisterHandler :: "byte \<Rightarrow> (byte list \<Rightarrow> outcome) \<Rightarrow> 'd syncHandler \<Rightarrow> 'd syncHandler" where
  "RegisterHandler msgType hdlr h = h\<lparr>sh_handlers := (sh_handlers h)(msgType := Some hdlr)\<rparr>"

definition encodeSyncMessage :: "byte \<Rightarrow> byte list \<Rightarrow> byte list" where
  "encodeSyncMessage messageType body =
     WriteMessage [] MessageSync (WriteVarUint8Array (WriteVarUint [] (ucast messageType)) body)"

definition EncodeSyncStep1 :: "('d, 'g) doc_ops \<Rightarrow> 'd \<Rightarrow> byte list" where
  "EncodeSyncStep1 D doc = encodeSyncMessage 0 (op_EncodeStateVector D doc)"

definition EncodeSyncStep2 :: "('d, 'g) doc_ops \<Rightarrow> 'd \<Rightarrow> byte list \<Rightarrow> go_error + byte list" where
  "EncodeSyncStep2 D doc sv =
     (case op_EncodeStateAsUpdate D doc sv of Inl err \<Rightarrow> Inl err | Inr u \<Rightarrow> Inr (encodeSyncMessage 1 u))"

definition EncodeUpdate :: "byte list \<Rightarrow> byte list" where
  "EncodeUpdate update = encodeSyncMessage 2 update"

text \<open>What a handled message leaves: the returned type and error, the bytes for the reply, the new handler.\<close>

record 'd handled =
  hr_type :: byte
  hr_err :: "go_error option"
  hr_encoder :: "byte list option"
  hr_handler :: "'d syncHandler"

text \<open>The deferred \<^verbatim>\<open>recover\<close>: a panic becomes an error.\<close>

definition outcome_error :: "outcome \<Rightarrow> go_error option" where
  "outcome_error r = (case r of Done \<Rightarrow> None | Failed e \<Rightarrow> Some e | Panicked \<Rightarrow> Some MalformedMessage)"

definition handleSync :: "('d, 'g) doc_ops \<Rightarrow> MessageInfo \<Rightarrow> byte list option \<Rightarrow> 'g \<Rightarrow> 'd syncHandler \<Rightarrow> 'd handled" where
  "handleSync D info encoder org h =
     (let ret = \<lparr>hr_type = MessageSync, hr_err = None, hr_encoder = encoder, hr_handler = h\<rparr>
      in if mi_SyncType info = 0
         then case encoder of
                None \<Rightarrow> ret\<lparr>hr_err := Some NilEncoder\<rparr>
              | Some out \<Rightarrow>
                  (case EncodeSyncStep2 D (sh_doc h) (mi_Body info) of
                     Inl err \<Rightarrow> ret\<lparr>hr_err := Some err\<rparr>
                   | Inr reply \<Rightarrow> ret\<lparr>hr_encoder := Some (out @ reply)\<rparr>)
         else if mi_SyncType info = 1 \<or> mi_SyncType info = 2
         then case op_ApplyUpdate D (sh_doc h) (mi_Body info) org of
                (r, doc') \<Rightarrow> ret\<lparr>hr_err := outcome_error r, hr_handler := h\<lparr>sh_doc := doc'\<rparr>\<rparr>
         else ret)"

definition handleAwareness ::
  "(gostring \<Rightarrow> go_error + any) \<Rightarrow> int \<Rightarrow> MessageInfo \<Rightarrow> byte list option \<Rightarrow> aw_origin \<Rightarrow> 'd syncHandler \<Rightarrow> 'd handled" where
  "handleAwareness prs now info encoder org h =
     (let ret = \<lparr>hr_type = MessageAwareness, hr_err = None, hr_encoder = encoder, hr_handler = h\<rparr>
      in case sh_handlers h MessageAwareness of
           Some hdlr \<Rightarrow> ret\<lparr>hr_err := outcome_error (hdlr (mi_Body info))\<rparr>
         | None \<Rightarrow>
             (case sh_awareness h of
                None \<Rightarrow> ret
              | Some a \<Rightarrow>
                  (case ApplyAwarenessUpdate prs now (mi_Body info) org a of
                     (Inl err, a') \<Rightarrow> ret\<lparr>hr_err := Some err, hr_handler := h\<lparr>sh_awareness := Some a'\<rparr>\<rparr>
                   | (Inr evs, a') \<Rightarrow> ret\<lparr>hr_handler := h\<lparr>sh_awareness := Some a'\<rparr>\<rparr>)))"

definition HandleMessageWithOrigin ::
  "('d, aw_origin) doc_ops \<Rightarrow> (gostring \<Rightarrow> go_error + any) \<Rightarrow> int \<Rightarrow> byte list \<Rightarrow> byte list option \<Rightarrow> aw_origin \<Rightarrow>
     'd syncHandler \<Rightarrow> 'd handled" where
  "HandleMessageWithOrigin D prs now msg encoder org h =
     (let ret = \<lparr>hr_type = 0, hr_err = None, hr_encoder = encoder, hr_handler = h\<rparr>
      in case readMessageView msg of
           Inl err \<Rightarrow> ret\<lparr>hr_err := Some err\<rparr>
         | Inr (msgType, payload) \<Rightarrow>
             if msgType = MessageSync \<and> sh_handlers h MessageSync \<noteq> None
             then ret\<lparr>hr_type := MessageSync, hr_err := outcome_error (the (sh_handlers h MessageSync) payload)\<rparr>
             else case inspectPayload msgType payload (length msg) of
                    Inl err \<Rightarrow> ret\<lparr>hr_type := msgType, hr_err := Some err\<rparr>
                  | Inr info \<Rightarrow>
                      if msgType = MessageSync then handleSync D info encoder org h
                      else if msgType = MessageAwareness then handleAwareness prs now info encoder org h
                      else case sh_handlers h msgType of
                             Some hdlr \<Rightarrow> ret\<lparr>hr_type := msgType, hr_err := outcome_error (hdlr (mi_Body info))\<rparr>
                           | None \<Rightarrow> ret\<lparr>hr_type := msgType\<rparr>)"

section \<open>Awareness broadcasts\<close>

type_synonym clocks = "(Number \<times> uint64) list"

definition nextAwarenessClock :: "Number \<Rightarrow> clocks \<Rightarrow> uint64 \<times> clocks" where
  "nextAwarenessClock clientID awarenessClocks =
     (let clock = (case map_of awarenessClocks clientID of Some clock \<Rightarrow> clock + 1 | None \<Rightarrow> 1)
      in (clock, AList.update clientID clock awarenessClocks))"

definition ResetAwarenessClock :: "Number \<Rightarrow> clocks \<Rightarrow> clocks" where
  "ResetAwarenessClock clientID awarenessClocks = AList.delete clientID awarenessClocks"

definition ResetAllAwarenessClocks :: "clocks \<Rightarrow> clocks" where
  "ResetAllAwarenessClocks awarenessClocks = []"

definition EncodeAwarenessMessage :: "(any \<Rightarrow> gostring) \<Rightarrow> Number \<Rightarrow> entries option \<Rightarrow> clocks \<Rightarrow> byte list \<times> clocks" where
  "EncodeAwarenessMessage str clientID state cs =
     (let (clock, cs') = nextAwarenessClock clientID cs
      in (WriteString (WriteVarUint (WriteVarUint (WriteVarUint [] 1) (word_of_int clientID)) clock)
            (AwarenessStateJSON str state), cs'))"

definition DecodeAwarenessMessage :: "(gostring \<Rightarrow> go_error + any) \<Rightarrow> byte list \<Rightarrow> go_error + Number \<times> entries option" where
  "DecodeAwarenessMessage prs data = fst (rbind ReadVarUint (\<lambda>n.
     if n = 0 then rfail EmptyAwareness
     else rbind ReadVarUint (\<lambda>cid. rbind ReadVarUint (\<lambda>clock. rbind ReadString (\<lambda>js.
       rbind (lift_result (ParseAwarenessStateJSON prs js)) (\<lambda>state. rret (sint cid, state)))))) data)"

definition EncodeAwarenessUpdateMessage :: "byte list \<Rightarrow> byte list" where
  "EncodeAwarenessUpdateMessage payload = WriteVarUint8Array (WriteVarUint [] (ucast MessageAwareness)) payload"

section \<open>Permission messages\<close>

definition MessagePermissionDenied :: byte where "MessagePermissionDenied = 0"

definition WritePermissionDenied :: "byte list \<Rightarrow> gostring \<Rightarrow> byte list" where
  "WritePermissionDenied encoder reason = WriteString (WriteVarUint encoder (ucast MessagePermissionDenied)) reason"

text \<open>The result is the reason handed to the callback, if it is invoked.\<close>

definition ReadAuthMessage :: "gostring option reader" where
  "ReadAuthMessage = rbind ReadVarUint (\<lambda>messageType.
     if messageType \<noteq> ucast MessagePermissionDenied then rret None
     else rbind ReadString (\<lambda>reason. rret (Some reason)))"
section \<open>The two varint readers\<close>

lemma Uvarint_loop_ReadUvarint:
  assumes "i \<le> 10"
  shows "case ReadUvarint_loop i x s buf of
      (Inr v, r) \<Rightarrow> Uvarint_loop i x s buf = (v, int i + int (length buf) - int (length r)) \<and>
        length r < length buf \<and> r = drop (length buf - length r) buf
    | (Inl e, r) \<Rightarrow>
        if e = VarintOverflow \<and> \<not> (i + length buf = 10 \<and> list_all (\<lambda>b. \<not> b < 0x80) buf)
        then snd (Uvarint_loop i x s buf) < 0 else Uvarint_loop i x s buf = (0, 0)"
  using assms
proof (induction i x s buf rule: ReadUvarint_loop.induct)
  case (2 i x s b buf)
  show ?case
  proof (cases "i < 10 \<and> \<not> b < 0x80")
    case True
    then have ih: "case ReadUvarint_loop (Suc i) (x OR push_bit s (ucast (b AND 0x7f))) (s + 7) buf of
        (Inr v, r) \<Rightarrow> Uvarint_loop (Suc i) (x OR push_bit s (ucast (b AND 0x7f))) (s + 7) buf =
            (v, int (Suc i) + int (length buf) - int (length r)) \<and>
          length r < length buf \<and> r = drop (length buf - length r) buf
      | (Inl e, r) \<Rightarrow>
          if e = VarintOverflow \<and> \<not> (Suc i + length buf = 10 \<and> list_all (\<lambda>b. \<not> b < 0x80) buf)
          then snd (Uvarint_loop (Suc i) (x OR push_bit s (ucast (b AND 0x7f))) (s + 7) buf) < 0
          else Uvarint_loop (Suc i) (x OR push_bit s (ucast (b AND 0x7f))) (s + 7) buf = (0, 0)"
      using "2.IH" by simp
    with True show ?thesis by (auto split: prod.splits sum.splits simp: Suc_diff_le)
  next
    case False
    with "2.prems" show ?thesis by auto
  qed
qed auto

lemma ReadUvarint_loop_error:
  "ReadUvarint_loop i x s buf = (Inl e, r) \<Longrightarrow> e = VarintOverflow \<or> e = EOF \<or> e = UnexpectedEOF"
  by (induction i x s buf rule: ReadUvarint_loop.induct) (auto split: if_splits)

lemma ReadUvarint_loop_all_cont:
  "list_all (\<lambda>b. \<not> b < 0x80) buf \<Longrightarrow> \<exists>e r. ReadUvarint_loop i x s buf = (Inl e, r)"
  by (induction i x s buf rule: ReadUvarint_loop.induct) auto

lemma readVarUintView_ok:
  assumes "ReadVarUint (drop off data) = (Inr v, r)" "off \<le> length data"
  shows "readVarUintView data off = (Inr v, length data - length r)" "length r \<le> length data"
    "drop (length data - length r) data = r"
proof -
  have u: "Uvarint_loop 0 0 0 (drop off data) = (v, int (length data - off) - int (length r))"
    "length r < length data - off" "r = drop (length data - off - length r) (drop off data)"
    using Uvarint_loop_ReadUvarint [where i = 0 and x = 0 and s = 0 and buf = "drop off data"] assms(1) by (simp_all add: ReadVarUint_def)
  define n where "n = length data - off - length r"
  have n: "int (length data - off) - int (length r) = int n" "0 < n" "off + n = length data - length r"
    using u(2) assms(2) by (auto simp: n_def)
  show "readVarUintView data off = (Inr v, length data - length r)"
    using u(1) n unfolding n(1) by (simp add: readVarUintView_def Uvarint_def)
  show "length r \<le> length data" using u(2) by simp
  have "off + (length data - off - length r) = length data - length r" using u(2) assms(2) by simp
  with u(3) show "drop (length data - length r) data = r" by (metis drop_drop add.commute)
qed

lemma readVarUint8ArrayView_ok:
  assumes "drop off data = WriteVarUint8Array [] body @ rest" "off \<le> length data" "length body < 2 ^ 64"
  shows "fst (readVarUint8ArrayView data off) = Inr body"
proof -
  have r: "ReadVarUint (drop off data) = (Inr (len64 body), body @ rest)"
    by (simp add: assms(1) WriteVarUint8Array_def roundtrip_simps)
  note v = readVarUintView_ok [OF r assms(2)]
  then have "length data - (length data - length (body @ rest)) = length (body @ rest)" by simp
  with v assms(3) show ?thesis by (simp add: readVarUint8ArrayView_def Let_def unat_len64)
qed

lemma readMessageView_WriteMessage: "readMessageView (WriteMessage [] ty payload) = Inr (ty, payload)"
proof -
  have u: "unat (ucast ty :: uint64) = unat ty" by (rule unat_ucast_byte64)
  have "ReadVarUint (drop 0 (WriteMessage [] ty payload)) = (Inr (ucast ty), payload)"
    by (simp add: WriteMessage_def roundtrip_simps)
  from readVarUintView_ok [OF this] have "readVarUintView (WriteMessage [] ty payload) 0 =
      (Inr (ucast ty), length (WriteMessage [] ty payload) - length payload)"
    "drop (length (WriteMessage [] ty payload) - length payload) (WriteMessage [] ty payload) = payload" by simp_all
  moreover have "\<not> (ucast ty :: uint64) > 255" using u unsigned_less [of ty, where 'a = nat] by (simp add: word_less_nat_alt)
  moreover have "(ucast (ucast ty :: uint64) :: byte) = ty" by (rule bit_word_eqI) (simp add: bit_simps)
  moreover have "WriteMessage [] ty payload \<noteq> []" using varuint_nonempty [of "[]" "ucast ty"] by (auto simp: WriteMessage_def)
  ultimately show ?thesis by (simp add: readMessageView_def)
qed

lemma inspectSync_ok:
  assumes "ty = 0 \<or> ty = 1 \<or> ty = 2" "length body < 2 ^ 64"
  shows "inspectSync (WriteVarUint8Array (WriteVarUint [] ty) body) = Inr (uint ty, body)"
proof -
  let ?p = "WriteVarUint8Array (WriteVarUint [] ty) body"
  have p: "?p = WriteVarUint [] ty @ WriteVarUint8Array [] body" by (rule WriteVarUint8Array_append)
  have r: "ReadVarUint (drop 0 ?p) = (Inr ty, WriteVarUint8Array [] body)" by (simp add: p roundtrip_simps)
  note v = readVarUintView_ok [OF r]
  have "fst (readVarUint8ArrayView ?p (length ?p - length (WriteVarUint8Array [] body))) = Inr body"
    using v(3) assms(2) by (intro readVarUint8ArrayView_ok [where rest = "[]"]) simp_all
  then show ?thesis using v(1) assms(1)
    by (cases "readVarUint8ArrayView ?p (length ?p - length (WriteVarUint8Array [] body))") (auto simp: inspectSync_def)
qed

lemma inspect_sync_frame:
  assumes "ty = 0 \<or> ty = 1 \<or> ty = 2" "length body < 2 ^ 64"
  shows "inspectPayload MessageSync (WriteVarUint8Array (WriteVarUint [] (ucast ty)) body) n =
    Inr \<lparr>mi_Type = MessageSync, mi_SyncType = uint (ty :: byte), mi_FrameLength = n,
      mi_BodyLength = length body, mi_Body = body\<rparr>"
  using inspectSync_ok [of "ucast ty" body] assms by (auto simp: inspectPayload_def Let_def uint_ucast_byte64)

lemma inspect_awareness_frame:
  assumes "length body < 2 ^ 64"
  shows "inspectPayload MessageAwareness (WriteVarUint8Array [] body) n =
    Inr \<lparr>mi_Type = MessageAwareness, mi_SyncType = - 1, mi_FrameLength = n, mi_BodyLength = length body, mi_Body = body\<rparr>"
proof -
  have "fst (readVarUint8ArrayView (WriteVarUint8Array [] body) 0) = Inr body"
    using assms by (intro readVarUint8ArrayView_ok [where rest = "[]"]) simp_all
  then show ?thesis
    by (cases "readVarUint8ArrayView (WriteVarUint8Array [] body) 0")
      (simp add: inspectPayload_def MessageSync_def MessageAwareness_def Let_def)
qed

lemma EncodeAwarenessUpdateMessage_eq:
  "EncodeAwarenessUpdateMessage payload = WriteMessage [] MessageAwareness (WriteVarUint8Array [] payload)"
  unfolding EncodeAwarenessUpdateMessage_def WriteMessage_def by (rule WriteVarUint8Array_append)

lemmas frame_simps = InspectMessage_def readMessageView_WriteMessage inspect_sync_frame inspect_awareness_frame
text \<open>A document that is the list of the updates it has applied.\<close>

definition log_doc :: "(byte list list, aw_origin) doc_ops" where
  "log_doc = \<lparr>op_ApplyUpdate = (\<lambda>d u org. (Done, d @ [u])), op_EncodeStateAsUpdate = (\<lambda>d sv. Inr (concat d)),
     op_EncodeStateVector = (\<lambda>d. [])\<rparr>"

section \<open>Properties\<close>

text \<open>
  Claim C25. Reading the envelope of a frame in place agrees with reading it from a buffer, in type, payload and error, on
  every frame but one shape: ten bytes that all announce a continuation, which the buffered reader calls an
  invalid type and the view a short message.
\<close>

theorem readMessageView_agrees:
  "readMessageView frame =
     (if length frame = 10 \<and> list_all (\<lambda>b. \<not> b < 0x80) frame then Inl ShortMessage else ReadMessage frame) \<and>
   ReadMessage [0x80, 0x80, 0x80, 0x80, 0x80, 0x80, 0x80, 0x80, 0x80, 0x80] = Inl InvalidMessageType"
proof
  note u = Uvarint_loop_ReadUvarint [where i = 0 and x = 0 and s = 0 and buf = frame]
  obtain r buf where r: "ReadUvarint_loop 0 0 0 frame = (r, buf)" by (cases "ReadUvarint_loop 0 0 0 frame")
  show "readMessageView frame =
      (if length frame = 10 \<and> list_all (\<lambda>b. \<not> b < 0x80) frame then Inl ShortMessage else ReadMessage frame)"
  proof (cases r)
    case (Inl e)
    have "e = VarintOverflow \<or> e = EOF \<or> e = UnexpectedEOF"
      using r Inl ReadUvarint_loop_error by blast
    then show ?thesis using u r Inl
      by (auto simp: readMessageView_def ReadMessage_def readVarUintView_def Uvarint_def ReadVarUint_def Let_def
        split: if_splits prod.splits)
  next
    case (Inr v)
    then have d: "ReadVarUint (drop 0 frame) = (Inr v, buf)" using r by (simp add: ReadVarUint_def)
    have "\<not> (length frame = 10 \<and> list_all (\<lambda>b. \<not> b < 0x80) frame)"
      using ReadUvarint_loop_all_cont [where i = 0 and x = 0 and s = 0 and buf = frame] r Inr by auto
    then show ?thesis using readVarUintView_ok [OF d] d by (auto simp: readMessageView_def ReadMessage_def)
  qed
  show "ReadMessage [0x80, 0x80, 0x80, 0x80, 0x80, 0x80, 0x80, 0x80, 0x80, 0x80] = Inl InvalidMessageType"
    by code_simp
qed

text \<open>
  Claim C24. Inspection returns what was framed: the type, the sync subtype and the body of every sync message, of every
  awareness update and of every custom message, with the lengths of frame and body.
\<close>

theorem inspect_encoded_message:
  assumes "ty \<in> {0, 1, 2}" "length body < 2 ^ 64" "custom \<notin> {0, 1}"
  shows "InspectMessage (encodeSyncMessage ty body) =
      Inr \<lparr>mi_Type = 0, mi_SyncType = uint ty, mi_FrameLength = length (encodeSyncMessage ty body),
        mi_BodyLength = length body, mi_Body = body\<rparr> \<and>
    InspectMessage (EncodeAwarenessUpdateMessage body) =
      Inr \<lparr>mi_Type = 1, mi_SyncType = - 1, mi_FrameLength = length (EncodeAwarenessUpdateMessage body),
        mi_BodyLength = length body, mi_Body = body\<rparr> \<and>
    InspectMessage (WriteMessage [] custom body) =
      Inr \<lparr>mi_Type = custom, mi_SyncType = - 1, mi_FrameLength = length (WriteMessage [] custom body),
        mi_BodyLength = length body, mi_Body = body\<rparr>"
proof (intro conjI)
  show "InspectMessage (encodeSyncMessage ty body) =
      Inr \<lparr>mi_Type = 0, mi_SyncType = uint ty, mi_FrameLength = length (encodeSyncMessage ty body),
        mi_BodyLength = length body, mi_Body = body\<rparr>"
    using assms(1,2) by (auto simp: encodeSyncMessage_def frame_simps) (simp_all add: MessageSync_def)
  show "InspectMessage (EncodeAwarenessUpdateMessage body) =
      Inr \<lparr>mi_Type = 1, mi_SyncType = - 1, mi_FrameLength = length (EncodeAwarenessUpdateMessage body),
        mi_BodyLength = length body, mi_Body = body\<rparr>"
    using assms(2) by (simp add: EncodeAwarenessUpdateMessage_eq frame_simps) (simp add: MessageAwareness_def)
  show "InspectMessage (WriteMessage [] custom body) =
      Inr \<lparr>mi_Type = custom, mi_SyncType = - 1, mi_FrameLength = length (WriteMessage [] custom body),
        mi_BodyLength = length body, mi_Body = body\<rparr>"
    using assms(3) by (simp add: InspectMessage_def readMessageView_WriteMessage inspectPayload_def MessageSync_def
      MessageAwareness_def Let_def)
qed

theorem inspect_encoded_message_witness:
  "InspectMessage (encodeSyncMessage 2 [9, 8]) =
      Inr \<lparr>mi_Type = 0, mi_SyncType = 2, mi_FrameLength = 5, mi_BodyLength = 2, mi_Body = [9, 8]\<rparr>"
proof -
  have "length (encodeSyncMessage 2 [9, 8]) = 5" by code_simp
  then show ?thesis using inspect_encoded_message [of 2 "[9, 8]" 200] by simp
qed

text \<open>
  Claim C23. A message reaches only the part of the handler it is for. A frame that does not pass inspection changes neither
  the document nor the presence nor the reply, and its error is returned unless the sync protocol is
  overridden; a sync message never touches presence and changes the document only when it carries an
  update; an awareness message never touches the document; the registered handlers never change.
\<close>

theorem handler_isolated:
  "let r = HandleMessageWithOrigin D prs now msg encoder org h; h' = hr_handler r
   in sh_handlers h' = sh_handlers h \<and>
      (case InspectMessage msg of
         Inl err \<Rightarrow> h' = h \<and> hr_encoder r = encoder \<and> (sh_handlers h 0 = None \<longrightarrow> hr_err r = Some err)
       | Inr info \<Rightarrow>
           (mi_Type info \<noteq> 1 \<longrightarrow> sh_awareness h' = sh_awareness h) \<and>
           (mi_Type info = 0 \<and> (mi_SyncType info = 1 \<or> mi_SyncType info = 2) \<or> sh_doc h' = sh_doc h) \<and>
           (mi_Type info = 0 \<and> mi_SyncType info = 0 \<or> hr_encoder r = encoder))"
proof (cases "readMessageView msg")
  case (Inl err)
  then show ?thesis by (simp add: HandleMessageWithOrigin_def InspectMessage_def Let_def)
next
  case (Inr tp)
  obtain ty payload where tp: "tp = (ty, payload)" by (cases tp)
  show ?thesis
  proof (cases "inspectPayload ty payload (length msg)")
    case (Inl err)
    then show ?thesis using Inr tp
      by (auto simp: HandleMessageWithOrigin_def InspectMessage_def Let_def MessageSync_def)
  next
    case (Inr info)
    have "mi_Type info = ty" using Inr by (auto simp: inspectPayload_def Let_def split: if_splits sum.splits prod.splits)
    with Inr \<open>readMessageView msg = Inr tp\<close> tp show ?thesis
      by (auto simp: HandleMessageWithOrigin_def InspectMessage_def handleSync_def handleAwareness_def
        MessageSync_def MessageAwareness_def Let_def split: option.splits prod.splits sum.splits)
  qed
qed

theorem handler_isolated_witness:
  "let h = NewSyncHandler [[1]];
       r = HandleMessageWithOrigin log_doc (\<lambda>_. Inl InvalidJSON) 0 [0, 2, 9, 1] (Some []) LocalOrigin h
   in hr_handler r = h \<and> hr_encoder r = Some [] \<and> hr_err r = Some UnexpectedEOF"
proof -
  have "InspectMessage [0, 2, 9, 1] = Inl UnexpectedEOF" by code_simp
  then show ?thesis
    using handler_isolated [of log_doc "\<lambda>_. Inl InvalidJSON" 0 "[0, 2, 9, 1]" "Some []" LocalOrigin "NewSyncHandler [[1]]"]
    by (simp add: Let_def NewSyncHandler_def)
qed



end
