(* ===== verification/Contents.thy ===== *)
theory Contents
  imports Utf AnyCodec
begin

text \<open>
  The contents of an item (\<^verbatim>\<open>crdt/content_types.go\<close>): the nine kinds, their length, what they count for, and splitting and
  merging them. A content is a value: the operations that mutate their receiver return the new left part. A nested
  type is a reference of type \<open>'t\<close>, a nested document its guid and options. Splitting an array shares or clones the
  backing array in Go; the two halves are the same lists either way. Contents that cannot be split have no right half
  (the code returns \<^verbatim>\<open>nil\<close>).
\<close>

section \<open>Definitions\<close>

datatype 't content =
    CDeleted Number
  | CJSON "any list"
  | CBinary "byte list"
  | CString gostring
  | CEmbed any
  | CFormat gostring any
  | CType 't
  | CAny "any list"
  | CDoc gostring "(gostring \<times> any) list"

fun contentRef :: "'t content \<Rightarrow> byte" where
  "contentRef (CDeleted n) = 1"
| "contentRef (CJSON vs) = 2"
| "contentRef (CBinary b) = 3"
| "contentRef (CString s) = 4"
| "contentRef (CEmbed v) = 5"
| "contentRef (CFormat k v) = 6"
| "contentRef (CType t) = 7"
| "contentRef (CAny vs) = 8"
| "contentRef (CDoc guid opts) = 9"

fun isCountable :: "'t content \<Rightarrow> bool" where
  "isCountable (CDeleted n) = False"
| "isCountable (CFormat k v) = False"
| "isCountable _ = True"

text \<open>\<^verbatim>\<open>contentLength\<close>; for a string it is the UTF-16 length of the normalised text.\<close>

fun contentLength :: "'t content \<Rightarrow> Number" where
  "contentLength (CDeleted n) = n"
| "contentLength (CJSON vs) = int (length vs)"
| "contentLength (CAny vs) = int (length vs)"
| "contentLength (CString s) = snd (normalizeTextUTF8WithLength s)"
| "contentLength _ = 1"

text \<open>The text a string content holds after its length has been asked for.\<close>

fun normalizeContent :: "'t content \<Rightarrow> 't content" where
  "normalizeContent (CString s) = CString (normalizeTextUTF8 s)"
| "normalizeContent c = c"

definition spliceArrayAny :: "'a list \<Rightarrow> Number \<Rightarrow> 'a list \<times> 'a list" where
  "spliceArrayAny arr offset = (take (nat offset) arr, drop (nat offset) arr)"

text \<open>\<^verbatim>\<open>spliceWithLengthIntoBacking\<close>: the ASCII path cuts bytes, the others go through the UTF-16 offset.\<close>

definition spliceWithLength :: "gostring \<Rightarrow> Number \<Rightarrow> Number \<Rightarrow> gostring \<times> gostring" where
  "spliceWithLength s offset len =
     (if int (length s) = len
      then let off = min offset len in (take (nat off) s, drop (nat off) s)
      else splitStringUTF16 s offset)"

fun spliceContentWithLength :: "'t content \<Rightarrow> Number \<Rightarrow> Number \<Rightarrow> 't content \<times> 't content option" where
  "spliceContentWithLength (CString s) offset len =
     (case spliceWithLength s offset len of (l, r) \<Rightarrow> (CString l, Some (CString r)))"
| "spliceContentWithLength (CAny vs) offset len =
     (case spliceArrayAny vs offset of (l, r) \<Rightarrow> (CAny l, Some (CAny r)))"
| "spliceContentWithLength (CJSON vs) offset len =
     (case spliceArrayAny vs offset of (l, r) \<Rightarrow> (CJSON l, Some (CJSON r)))"
| "spliceContentWithLength (CDeleted n) offset len =
     (let off = (if offset > n then n else offset) in (CDeleted off, Some (CDeleted (n - off))))"
| "spliceContentWithLength c offset len = (c, None)"

fun mergeContentWith :: "'t content \<Rightarrow> 't content \<Rightarrow> 't content option" where
  "mergeContentWith (CAny vs) (CAny ws) = Some (CAny (vs @ ws))"
| "mergeContentWith (CJSON vs) (CJSON ws) = Some (CJSON (vs @ ws))"
| "mergeContentWith (CDeleted n) (CDeleted m) = Some (CDeleted (n + m))"
| "mergeContentWith (CString s) (CString u) = Some (CString (mergeString s u))"
| "mergeContentWith _ _ = None"

section \<open>Splitting and merging\<close>

text \<open>Contents as the store holds them: text is well-formed, lengths are not negative.\<close>

fun content_ok :: "'t content \<Rightarrow> bool" where
  "content_ok (CString s) \<longleftrightarrow> utf8_valid s"
| "content_ok (CDeleted n) \<longleftrightarrow> 0 \<le> n"
| "content_ok _ \<longleftrightarrow> True"

lemma content_ok_normalize: "0 \<le> n \<or> c \<noteq> CDeleted n \<Longrightarrow> (\<And>m. c = CDeleted m \<Longrightarrow> 0 \<le> m) \<Longrightarrow> content_ok (normalizeContent c)"
  by (cases c) (simp_all add: normalizeTextUTF8_def normalize_spec replaceMalformedUTF8_valid)

lemma contentLength_string: "utf8_valid s \<Longrightarrow> contentLength (CString s) = stringLength s"
  by (simp add: normalize_spec)

lemma contentLength_nonneg: "content_ok c \<Longrightarrow> 0 \<le> contentLength c"
  by (cases c) (simp_all add: normalize_spec stringLength_nonneg)
lemma encodeRune_width: "rune_ok r \<Longrightarrow> rune_width r < length (encodeRune r) \<or> r < 0x80 \<and> rune_width r = 1"
  by (auto simp: encodeRune_def rune_width_def Let_def)

lemma ascii_of_width:
  assumes "utf8_valid s" "stringLength s = int (length s)"
  shows "isASCIIText s"
proof -
  obtain rs where rs: "s = utf8_encode rs" "list_all rune_ok rs" using assms(1) by (rule utf8_validE)
  have w: "sum_list (map rune_width rs) \<le> length (utf8_encode rs) \<and>
      (sum_list (map rune_width rs) = length (utf8_encode rs) \<longrightarrow> isASCIIText (utf8_encode rs))"
    if "list_all rune_ok rs" for rs
    using that
  proof (induction rs)
    case Nil
    then show ?case by (simp add: isASCIIText_def)
  next
    case (Cons r rs)
    then have r: "rune_ok r" and rs: "list_all rune_ok rs" by simp_all
    show ?case
    proof (cases "r < 0x80")
      case True
      then have "encodeRune r = [of_nat r]" "rune_width r = 1" using r by (simp_all add: encodeRune_def rune_width_def)
      then show ?thesis using Cons.IH [OF rs] True
        by (auto simp: isASCIIText_def word_less_nat_alt unat_of_nat_byte utf8_encode_Cons)
    next
      case False
      then have "rune_width r < length (encodeRune r)" using encodeRune_width [OF r] by simp
      then show ?thesis using Cons.IH [OF rs] by (simp add: utf8_encode_Cons)
    qed
  qed
  show ?thesis using w [OF rs(2)] assms(2) rs by (simp add: stringLength_sum runes_utf8_encode)
qed
lemma split_loop_ascii:
  "isASCIIText rest \<Longrightarrow> units \<le> offset \<Longrightarrow>
     split_loop before rest units offset =
       (before @ take (nat (offset - units)) rest, drop (nat (offset - units)) rest, True)"
proof (induction rest arbitrary: before units)
  case (Cons b bs)
  then have b: "b < 0x80" and bs: "isASCIIText bs" by (simp_all add: isASCIIText_def)
  have d: "decodeRune (b # bs) = (unat b, 1)" using b by (simp add: decodeRune_def word_less_nat_alt)
  have w: "\<not> unat b \<ge> 0x10000" using unsigned_less [of b, where 'a = nat] by simp
  show ?case
  proof (cases "units = offset")
    case True
    then show ?thesis by (subst split_loop.simps) simp
  next
    case False
    with Cons.prems have lt: "units + 1 \<le> offset" by simp
    then have n: "nat (offset - units) = Suc (nat (offset - (units + 1)))" by simp
    show ?thesis using Cons.IH [OF bs lt] False lt d w n
      by (subst split_loop.simps) simp
  qed
qed (simp add: split_loop.simps)

lemma splitStringUTF16_ascii:
  "isASCIIText s \<Longrightarrow> 0 \<le> offset \<Longrightarrow> splitStringUTF16 s offset = (take (nat offset) s, drop (nat offset) s)"
  using split_loop_ascii [of s 0 offset "[]"] by (simp add: splitStringUTF16_def splitStringUTF16AtBoundary_def)

text \<open>The byte cut of the ASCII path is the split at the UTF-16 offset.\<close>

lemma spliceWithLength_eq:
  assumes "utf8_valid s" "len = stringLength s" "0 \<le> offset"
  shows "spliceWithLength s offset len = splitStringUTF16 s offset"
proof (cases "int (length s) = len")
  case True
  then have "isASCIIText s" using assms(1,2) ascii_of_width by simp
  from splitStringUTF16_ascii [OF this assms(3)] True show ?thesis
    by (auto simp: spliceWithLength_def Let_def min_def)
qed (simp add: spliceWithLength_def)

lemma splitStringUTF16_spec:
  assumes "utf8_valid s" "0 \<le> offset" "splitStringUTF16 s offset = (l, r)"
  shows "utf8_valid l \<and> utf8_valid r \<and> stringLength l = min offset (stringLength s) \<and>
    stringLength l + stringLength r = stringLength s"
proof (cases "offset = 0")
  case True
  with assms show ?thesis by (auto simp: splitStringUTF16_def splitStringUTF16AtBoundary_def)
next
  case False
  obtain l' r' b where sl: "split_loop [] s 0 offset = (l', r', b)" by (metis prod_cases3)
  with assms False have "l' = l" "r' = r" by (auto simp: splitStringUTF16_def splitStringUTF16AtBoundary_def)
  with split_loop_spec [OF utf8_valid_Nil assms(1) _ assms(2) sl] show ?thesis by simp
qed

lemma splice_lengths:
  assumes "content_ok c" "len = contentLength c" "0 \<le> offset" "offset \<le> len"
    "spliceContentWithLength c offset len = (l, Some r)"
  shows "contentLength l = offset \<and> contentLength r = len - offset \<and> content_ok l \<and> content_ok r \<and>
    contentRef l = contentRef c \<and> contentRef r = contentRef c \<and> isCountable l = isCountable c \<and> isCountable r = isCountable c"
proof (cases c)
  case (CString s)
  then have s: "utf8_valid s" "len = stringLength s" using assms(1,2) by (simp_all add: normalize_spec)
  obtain a b where ab: "splitStringUTF16 s offset = (a, b)" by fastforce
  from splitStringUTF16_spec [OF s(1) assms(3) ab] spliceWithLength_eq [OF s assms(3)] ab assms(4,5) CString s(2)
  show ?thesis by (auto simp: normalize_spec)
qed (use assms in \<open>auto simp: spliceArrayAny_def Let_def split: if_splits\<close>)

text \<open>Merging the halves gives the content back, but for a split inside a surrogate pair.\<close>

lemma merge_splice:
  assumes "content_ok c" "len = contentLength c" "0 \<le> offset" "offset \<le> len"
    "spliceContentWithLength c offset len = (l, Some r)"
    "\<And>s. c = CString s \<Longrightarrow> snd (snd (splitStringUTF16AtBoundary s offset))"
  shows "mergeContentWith l r = Some c"
proof (cases c)
  case (CString s)
  then have s: "utf8_valid s" "len = stringLength s" using assms(1,2) by (simp_all add: normalize_spec)
  obtain a b t where ab: "splitStringUTF16AtBoundary s offset = (a, b, t)" by (metis prod_cases3)
  then have t: "t" using assms(6) [OF CString] by simp
  have "a @ b = s"
  proof (cases "offset = 0")
    case True
    with ab show ?thesis by (auto simp: splitStringUTF16AtBoundary_def)
  next
    case False
    with ab have sl: "split_loop [] s 0 offset = (a, b, t)" by (simp add: splitStringUTF16AtBoundary_def)
    from split_loop_spec [OF utf8_valid_Nil s(1) _ assms(3) sl] t show ?thesis by simp
  qed
  then show ?thesis using spliceWithLength_eq [OF s assms(3)] ab assms(5) CString
    by (auto simp: splitStringUTF16_def mergeString_def)
qed (use assms in \<open>auto simp: spliceArrayAny_def Let_def split: if_splits\<close>)

end
