(* ===== verification/DeleteSet.thy ===== *)
theory DeleteSet
  imports Lib0 "HOL-Library.AList" "HOL-Library.Multiset"
begin

text \<open>
  Delete sets (\<^verbatim>\<open>crdt/delete_set.go\<close>): per client a list of clock ranges, the queries on it, the sort
  and merge that normalise it, and the union of several delete sets.

  The Go map \<^verbatim>\<open>clients\<close> is an association list with distinct keys; its list order stands for Go's
  unspecified iteration order, and no result here depends on it. A nil \<^verbatim>\<open>*deleteSet\<close> is \<open>None\<close>.
  Range pointers are values: the code owns every range it mutates. \<open>sort.Slice\<close>, used above
  sixteen ranges, is not stable; it is modelled by a stable sort, and \<open>mergeRanges_perm\<close> shows that
  every sorted permutation gives the same merged ranges.
\<close>

section \<open>Definitions\<close>

record deleteItem =
  di_clock :: Number
  di_length :: Number

record deleteSet =
  ds_clients :: "(Number \<times> deleteItem list) list"
  ds_clientOrder :: "Number list"

definition newDeleteItem :: "Number \<Rightarrow> Number \<Rightarrow> deleteItem" where
  "newDeleteItem clock len = \<lparr>di_clock = clock, di_length = len\<rparr>"

definition newDeleteSet :: deleteSet where
  "newDeleteSet = \<lparr>ds_clients = [], ds_clientOrder = []\<rparr>"

definition clientItems :: "deleteSet \<Rightarrow> Number \<Rightarrow> deleteItem list" where
  "clientItems ds client = (case map_of (ds_clients ds) client of None \<Rightarrow> [] | Some items \<Rightarrow> items)"

definition noteClient :: "deleteSet \<Rightarrow> Number \<Rightarrow> deleteSet" where
  "noteClient ds client =
     (if client \<in> set (map fst (ds_clients ds)) then ds
      else ds\<lparr>ds_clientOrder := ds_clientOrder ds @ [client]\<rparr>)"

text \<open>First the recorded clients that are still present, each once; then the others, sorted.\<close>

fun orderedLoop :: "Number list \<Rightarrow> Number list \<Rightarrow> Number list \<Rightarrow> Number list" where
  "orderedLoop keys out [] = out"
| "orderedLoop keys out (c # cs) =
     (if c \<in> set keys \<and> c \<notin> set out then orderedLoop keys (out @ [c]) cs else orderedLoop keys out cs)"

definition orderedClients :: "deleteSet \<Rightarrow> Number list" where
  "orderedClients ds =
     (let keys = map fst (ds_clients ds); out = orderedLoop keys [] (ds_clientOrder ds)
      in if length out = length keys then out
         else out @ sort (filter (\<lambda>c. c \<notin> set out) keys))"

text \<open>Binary search; the indices are Go \<open>int\<close>s, \<open>right\<close> can be -1.\<close>

function findIndexDS_loop :: "deleteItem list \<Rightarrow> Number \<Rightarrow> int \<Rightarrow> int \<Rightarrow> go_error + int" where
  "findIndexDS_loop dis clock left right =
     (if left \<le> right
      then let midIndex = (left + right) div 2; mid = dis ! nat midIndex; midClock = di_clock mid
           in if midClock \<le> clock
              then if clock < addClockSaturating midClock (di_length mid) then Inr midIndex
                   else findIndexDS_loop dis clock (midIndex + 1) right
              else findIndexDS_loop dis clock left (midIndex - 1)
      else Inl NotFound)"
  by pat_completeness auto
termination
  by (relation "measure (\<lambda>(dis, clock, left, right). nat (right - left + 1))") auto

definition findIndexDS :: "deleteItem list \<Rightarrow> Number \<Rightarrow> go_error + int" where
  "findIndexDS dis clock = findIndexDS_loop dis clock 0 (int (length dis) - 1)"

definition isDeleted :: "deleteSet option \<Rightarrow> Number \<Rightarrow> Number \<Rightarrow> bool" where
  "isDeleted dsp client clock =
     (case dsp of None \<Rightarrow> False
      | Some ds \<Rightarrow> (case map_of (ds_clients ds) client of
                     None \<Rightarrow> False
                   | Some dis \<Rightarrow> (case findIndexDS dis clock of Inl _ \<Rightarrow> False | Inr _ \<Rightarrow> True)))"

text \<open>The insertion sort for short lists, on the slice in place.\<close>

fun shiftLoop :: "deleteItem list \<Rightarrow> nat \<Rightarrow> deleteItem \<Rightarrow> deleteItem list" where
  "shiftLoop dels 0 item = dels[0 := item]"
| "shiftLoop dels (Suc j) item =
     (if di_clock (dels ! j) > di_clock item then shiftLoop (dels[Suc j := dels ! j]) j item
      else dels[Suc j := item])"

function insertionLoop :: "deleteItem list \<Rightarrow> nat \<Rightarrow> deleteItem list" where
  "insertionLoop dels i =
     (if i < length dels then insertionLoop (shiftLoop dels i (dels ! i)) (Suc i) else dels)"
  by pat_completeness auto

lemma length_shiftLoop [simp]: "length (shiftLoop dels j item) = length dels"
  by (induction dels j item rule: shiftLoop.induct) auto

termination insertionLoop
  by (relation "measure (\<lambda>(dels, i). length dels - i)") auto

definition sortDels :: "deleteItem list \<Rightarrow> deleteItem list" where
  "sortDels dels = (if length dels \<le> 16 then insertionLoop dels 1 else sort_key di_clock dels)"

text \<open>The merge pass, in place: \<open>j\<close> ranges are final but for the last of them.\<close>

definition mergeInto :: "deleteItem \<Rightarrow> deleteItem \<Rightarrow> deleteItem" where
  "mergeInto left right =
     left\<lparr>di_length := max (di_length left)
            (wrap64 (addClockSaturating (di_clock right) (di_length right) - di_clock left))\<rparr>"

function mergeLoop :: "deleteItem list \<Rightarrow> nat \<Rightarrow> nat \<Rightarrow> deleteItem list" where
  "mergeLoop dels i j =
     (if i < length dels
      then let left = dels ! (j - 1); right = dels ! i
           in if addClockSaturating (di_clock left) (di_length left) \<ge> di_clock right
              then mergeLoop (dels[j - 1 := mergeInto left right]) (Suc i) j
              else mergeLoop (if j < i then dels[j := right] else dels) (Suc i) (Suc j)
      else take j dels)"
  by pat_completeness auto
termination
  by (relation "measure (\<lambda>(dels, i, j). length dels - i)") (auto simp: Let_def)

definition sortAndMergeDels :: "deleteItem list \<Rightarrow> deleteItem list" where
  "sortAndMergeDels dels = (if length dels < 2 then dels else mergeLoop (sortDels dels) 1 1)"

definition sortAndMergeDeleteSet :: "deleteSet \<Rightarrow> deleteSet" where
  "sortAndMergeDeleteSet ds =
     ds\<lparr>ds_clients := map (\<lambda>(client, dels). (client, sortAndMergeDels dels)) (ds_clients ds)\<rparr>"

definition addToDeleteSet :: "deleteSet \<Rightarrow> Number \<Rightarrow> Number \<Rightarrow> Number \<Rightarrow> deleteSet" where
  "addToDeleteSet ds client clock len =
     (noteClient ds client)\<lparr>ds_clients :=
        AList.update client (clientItems ds client @ [newDeleteItem clock len]) (ds_clients ds)\<rparr>"

definition mergeClient :: "deleteSet \<Rightarrow> deleteSet \<Rightarrow> Number \<Rightarrow> deleteSet" where
  "mergeClient ds merged client =
     (noteClient merged client)\<lparr>ds_clients :=
        AList.update client (clientItems merged client @ clientItems ds client) (ds_clients merged)\<rparr>"

definition mergeOne :: "deleteSet \<Rightarrow> deleteSet option \<Rightarrow> deleteSet" where
  "mergeOne merged dsp =
     (case dsp of None \<Rightarrow> merged | Some ds \<Rightarrow> foldl (mergeClient ds) merged (orderedClients ds))"

definition mergeDeleteSets :: "deleteSet option list \<Rightarrow> deleteSet" where
  "mergeDeleteSets dss = sortAndMergeDeleteSet (foldl mergeOne newDeleteSet dss)"

fun equalItems :: "deleteItem list \<Rightarrow> deleteItem list \<Rightarrow> bool" where
  "equalItems [] [] \<longleftrightarrow> True"
| "equalItems (x # xs) (y # ys) \<longleftrightarrow> di_clock x = di_clock y \<and> di_length x = di_length y \<and> equalItems xs ys"
| "equalItems _ _ \<longleftrightarrow> False"

definition equalDeleteSets :: "deleteSet option \<Rightarrow> deleteSet option \<Rightarrow> bool" where
  "equalDeleteSets dsp1 dsp2 =
     (case (dsp1, dsp2) of
        (None, None) \<Rightarrow> True
      | (Some ds1, Some ds2) \<Rightarrow>
          length (ds_clients ds1) = length (ds_clients ds2) \<and>
          list_all (\<lambda>(client, items1).
            case map_of (ds_clients ds2) client of None \<Rightarrow> False | Some items2 \<Rightarrow> equalItems items1 items2)
            (ds_clients ds1)
      | _ \<Rightarrow> False)"

text \<open>Well-formed delete sets: distinct clients; clocks and lengths in range, no wrap at a range end.\<close>

definition range_ok :: "deleteItem \<Rightarrow> bool" where
  "range_ok d \<longleftrightarrow> 0 \<le> di_clock d \<and> 0 \<le> di_length d \<and> di_clock d + di_length d \<le> MaxInt"

definition ds_wf :: "deleteSet \<Rightarrow> bool" where
  "ds_wf ds \<longleftrightarrow> distinct (map fst (ds_clients ds)) \<and>
     (\<forall>(c, items) \<in> set (ds_clients ds). \<forall>d \<in> set items. range_ok d)"

text \<open>The clocks a list of ranges covers, and the ids a delete set denotes.\<close>

definition covers :: "deleteItem \<Rightarrow> int set" where
  "covers d = {di_clock d ..< di_clock d + di_length d}"

definition covered :: "deleteItem list \<Rightarrow> int set" where
  "covered dels = (\<Union>d \<in> set dels. covers d)"

definition deletedIds :: "deleteSet \<Rightarrow> (Number \<times> int) set" where
  "deletedIds ds = {(client, clock). clock \<in> covered (clientItems ds client)}"

text \<open>Normal form: ranges ascending, with a gap between neighbours.\<close>

fun separated :: "deleteItem list \<Rightarrow> bool" where
  "separated (x # y # zs) \<longleftrightarrow> di_clock x + di_length x < di_clock y \<and> separated (y # zs)"
| "separated _ \<longleftrightarrow> True"

declare findIndexDS_loop.simps [simp del] insertionLoop.simps [simp del] mergeLoop.simps [simp del]

section \<open>Covered clocks\<close>

lemma covered_simps [simp]:
  "covered [] = {}" "covered (d # ds) = covers d \<union> covered ds" "covered (xs @ ys) = covered xs \<union> covered ys"
  by (auto simp: covered_def)

lemma covered_mset: "mset xs = mset ys \<Longrightarrow> covered xs = covered ys"
  by (metis covered_def set_mset_mset)

lemma range_ok_end:
  "range_ok d \<Longrightarrow> addClockSaturating (di_clock d) (di_length d) = di_clock d + di_length d"
  by (subst addClockSaturating_eq) (auto simp: range_ok_def)

lemma mergeInto_ok:
  assumes "range_ok l" "range_ok r" "di_clock l \<le> di_clock r"
  shows "di_clock (mergeInto l r) = di_clock l"
    and "di_length (mergeInto l r) = max (di_length l) (di_clock r + di_length r - di_clock l)"
    and "range_ok (mergeInto l r)"
proof -
  have "wrap64 (di_clock r + di_length r - di_clock l) = di_clock r + di_length r - di_clock l"
    using assms by (intro wrap64_in_range) (auto simp: range_ok_def int64_ok_def MinInt_def MaxInt_def)
  then show "di_clock (mergeInto l r) = di_clock l"
    and "di_length (mergeInto l r) = max (di_length l) (di_clock r + di_length r - di_clock l)"
    and "range_ok (mergeInto l r)"
    using assms by (auto simp: mergeInto_def range_ok_end) (auto simp: range_ok_def)
qed

lemma covers_mergeInto:
  assumes "range_ok l" "range_ok r" "di_clock l \<le> di_clock r" "di_clock r \<le> di_clock l + di_length l"
  shows "covers (mergeInto l r) = covers l \<union> covers r"
  using mergeInto_ok [OF assms(1-3)] assms by (auto simp: covers_def range_ok_def)

section \<open>The merge pass\<close>

text \<open>The reference definition of the pass, and that the in-place loop computes it.\<close>

fun coalesce :: "deleteItem \<Rightarrow> deleteItem list \<Rightarrow> deleteItem list" where
  "coalesce left [] = [left]"
| "coalesce left (right # rest) =
     (if addClockSaturating (di_clock left) (di_length left) \<ge> di_clock right
      then coalesce (mergeInto left right) rest
      else left # coalesce right rest)"

lemma mergeLoop_coalesce:
  assumes "1 \<le> j" "j \<le> i" "i \<le> length dels"
  shows "mergeLoop dels i j = take (j - 1) dels @ coalesce (dels ! (j - 1)) (drop i dels)"
  using assms
proof (induction dels i j rule: mergeLoop.induct)
  case (1 dels i j)
  show ?case
  proof (cases "i < length dels")
    case False
    with "1.prems" have "drop i dels = []" "take j dels = take (j - 1) dels @ [dels ! (j - 1)]"
      using take_Suc_conv_app_nth [of "j - 1" dels] by simp_all
    with False show ?thesis by (simp add: mergeLoop.simps [of dels i j])
  next
    case True
    then have d: "drop i dels = dels ! i # drop (Suc i) dels" by (simp add: Cons_nth_drop_Suc)
    let ?left = "dels ! (j - 1)" and ?right = "dels ! i"
    show ?thesis
    proof (cases "addClockSaturating (di_clock ?left) (di_length ?left) \<ge> di_clock ?right")
      case merge: True
      with True "1.IH"(1) "1.prems" show ?thesis
        by (simp add: mergeLoop.simps [of dels i j] d Let_def)
    next
      case False
      let ?dels = "if j < i then dels[j := ?right] else dels"
      have "?dels ! j = ?right" "drop (Suc i) ?dels = drop (Suc i) dels" "take j ?dels = take j dels"
        using True "1.prems" by (auto simp: drop_update_cancel)
      moreover have "mergeLoop ?dels (Suc i) (Suc j) = take j ?dels @ coalesce (?dels ! j) (drop (Suc i) ?dels)"
        using "1.IH"(2) [OF True refl refl False] True "1.prems" by simp
      moreover have "take j dels = take (j - 1) dels @ [?left]"
        using True "1.prems" take_Suc_conv_app_nth [of "j - 1" dels] by simp
      ultimately show ?thesis
        using True False by (simp add: mergeLoop.simps [of dels i j] d Let_def)
    qed
  qed
qed

lemma mergeLoop_eq: "mergeLoop (x # xs) 1 1 = coalesce x xs"
  by (subst mergeLoop_coalesce) simp_all

text \<open>Ascending ranges that are all in range.\<close>

definition ascending :: "deleteItem list \<Rightarrow> bool" where
  "ascending dels \<longleftrightarrow> sorted (map di_clock dels) \<and> (\<forall>d \<in> set dels. range_ok d)"

lemma ascending_Cons:
  "ascending (x # xs) \<longleftrightarrow> (\<forall>d \<in> set xs. di_clock x \<le> di_clock d) \<and> range_ok x \<and> ascending xs"
  by (auto simp: ascending_def)

lemma coalesce_correct:
  "ascending (x # xs) \<Longrightarrow> covered (coalesce x xs) = covers x \<union> covered xs \<and>
     separated (coalesce x xs) \<and> (\<forall>d \<in> set (coalesce x xs). range_ok d) \<and>
     (\<exists>d ds. coalesce x xs = d # ds \<and> di_clock d = di_clock x)"
proof (induction x xs rule: coalesce.induct)
  case (1 left)
  then show ?case by (simp add: ascending_Cons)
next
  case (2 left right rest)
  then have ok: "range_ok left" "range_ok right" "di_clock left \<le> di_clock right"
    by (auto simp: ascending_Cons)
  show ?case
  proof (cases "di_clock right \<le> di_clock left + di_length left")
    case True
    from 2(3) have "\<forall>d \<in> set rest. di_clock left \<le> di_clock d" "ascending rest"
      by (simp_all add: ascending_Cons)
    then have "ascending (mergeInto left right # rest)"
      using ok by (simp add: ascending_Cons mergeInto_ok)
    moreover from True ok have near: "addClockSaturating (di_clock left) (di_length left) \<ge> di_clock right"
      by (simp add: range_ok_end)
    ultimately have IH: "covered (coalesce (mergeInto left right) rest) = covers (mergeInto left right) \<union> covered rest \<and>
        separated (coalesce (mergeInto left right) rest) \<and>
        (\<forall>d \<in> set (coalesce (mergeInto left right) rest). range_ok d) \<and>
        (\<exists>d ds. coalesce (mergeInto left right) rest = d # ds \<and> di_clock d = di_clock (mergeInto left right))"
      using 2(1) by blast
    from near have "coalesce left (right # rest) = coalesce (mergeInto left right) rest" by simp
    then show ?thesis
      using IH mergeInto_ok(1) [OF ok] covers_mergeInto [OF ok True] by (simp add: Un_assoc)
  next
    case False
    with 2 ok have "ascending (right # rest)" by (auto simp: ascending_Cons)
    moreover from False ok have far: "\<not> addClockSaturating (di_clock left) (di_length left) \<ge> di_clock right"
      by (simp add: range_ok_end)
    ultimately have IH: "covered (coalesce right rest) = covers right \<union> covered rest \<and>
        separated (coalesce right rest) \<and> (\<forall>d \<in> set (coalesce right rest). range_ok d) \<and>
        (\<exists>d ds. coalesce right rest = d # ds \<and> di_clock d = di_clock right)"
      using 2(2) by blast
    then obtain d ds where c: "coalesce right rest = d # ds" "di_clock d = di_clock right" by blast
    from far have "coalesce left (right # rest) = left # coalesce right rest" by simp
    then show ?thesis using IH False ok c by simp
  qed
qed

section \<open>Sorting\<close>

text \<open>Where the shifted item ends up: after the last smaller or equal one.\<close>

fun insertBack :: "deleteItem \<Rightarrow> deleteItem list \<Rightarrow> deleteItem list" where
  "insertBack x rpre =
     (case rpre of [] \<Rightarrow> [x] | y # ys \<Rightarrow> if di_clock y > di_clock x then y # insertBack x ys else x # rpre)"

declare insertBack.simps [simp del]

lemma shiftLoop_insertBack:
  "shiftLoop (rev rpre @ y # post) (length rpre) x = rev (insertBack x rpre) @ post"
proof (induction rpre arbitrary: y post)
  case Nil
  then show ?case by (simp add: insertBack.simps)
next
  case (Cons z rpre)
  have "shiftLoop (rev rpre @ z # z # post) (length rpre) x = rev (insertBack x rpre) @ z # post"
    by (rule Cons.IH)
  then show ?case
    by (simp add: insertBack.simps [of x "z # rpre"] nth_append list_update_append)
qed

lemma mset_insertBack: "mset (insertBack x rpre) = add_mset x (mset rpre)"
  by (induction rpre) (simp_all add: insertBack.simps [of x])

lemma sorted_insertBack:
  "sorted_wrt (\<lambda>a b. di_clock b \<le> di_clock a) rpre \<Longrightarrow>
     sorted_wrt (\<lambda>a b. di_clock b \<le> di_clock a) (insertBack x rpre)"
proof (induction rpre)
  case (Cons y ys)
  have "set (insertBack x ys) = insert x (set ys)"
    by (metis mset_insertBack set_mset_add_mset_insert set_mset_mset)
  with Cons show ?case by (auto simp: insertBack.simps [of x "y # ys"])
qed (simp add: insertBack.simps)

lemma insertionLoop_sorted:
  assumes "sorted_wrt (\<lambda>a b. di_clock b \<le> di_clock a) (rev (take i dels))" "i \<le> length dels"
  shows "mset (insertionLoop dels i) = mset dels \<and> sorted (map di_clock (insertionLoop dels i))"
  using assms
proof (induction dels i rule: insertionLoop.induct)
  case (1 dels i)
  show ?case
  proof (cases "i < length dels")
    case False
    have "insertionLoop dels i = dels" using False by (simp add: insertionLoop.simps [of dels i])
    moreover from "1.prems" False have "sorted_wrt (\<lambda>a b. di_clock a \<le> di_clock b) dels"
      by (simp add: sorted_wrt_rev)
    ultimately show ?thesis by (simp add: sorted_map)
  next
    case True
    let ?pre = "rev (take i dels)" and ?x = "dels ! i" and ?post = "drop (Suc i) dels"
    have dels: "dels = rev ?pre @ ?x # ?post" using True by (simp add: id_take_nth_drop [symmetric])
    have s: "shiftLoop dels i ?x = rev (insertBack ?x ?pre) @ ?post"
      using shiftLoop_insertBack [of ?pre ?x ?post ?x] True dels by simp
    have len: "length (insertBack ?x ?pre) = Suc i"
      using True by (metis mset_insertBack size_add_mset size_mset length_rev length_take min.absorb4)
    have "take (Suc i) (shiftLoop dels i ?x) = rev (insertBack ?x ?pre)"
      using s len by simp
    then have "mset (insertionLoop (shiftLoop dels i ?x) (Suc i)) = mset (shiftLoop dels i ?x)
        \<and> sorted (map di_clock (insertionLoop (shiftLoop dels i ?x) (Suc i)))"
      using True "1.prems"(1) by (intro "1.IH" [OF True]) (simp_all add: sorted_insertBack)
    moreover have "mset (shiftLoop dels i ?x) = mset dels"
      by (subst (2) dels) (simp add: s mset_insertBack)
    ultimately show ?thesis using True by (simp add: insertionLoop.simps [of dels i])
  qed
qed

lemma sortDels_correct:
  "dels \<noteq> [] \<Longrightarrow> mset (sortDels dels) = mset dels \<and> sorted (map di_clock (sortDels dels))"
proof -
  assume "dels \<noteq> []"
  then have "sorted_wrt (\<lambda>a b. di_clock b \<le> di_clock a) (rev (take 1 dels))" "1 \<le> length dels"
    by (cases dels; simp)+
  from insertionLoop_sorted [OF this] show ?thesis by (simp add: sortDels_def)
qed

lemma ascending_sortDels:
  assumes "dels \<noteq> []" "\<forall>d \<in> set dels. range_ok d"
  shows "ascending (sortDels dels)"
  using sortDels_correct [OF assms(1)] assms(2) by (metis ascending_def set_mset_mset)

lemma sortAndMergeDels_eq:
  "2 \<le> length dels \<Longrightarrow> sortAndMergeDels dels = coalesce (hd (sortDels dels)) (tl (sortDels dels))"
proof -
  assume *: "2 \<le> length dels"
  then have "dels \<noteq> []" by auto
  with sortDels_correct [of dels] have "sortDels dels \<noteq> []" by auto
  then obtain x xs where "sortDels dels = x # xs" by (cases "sortDels dels") auto
  with * mergeLoop_eq [of x xs] show ?thesis by (simp add: sortAndMergeDels_def)
qed

lemma sortAndMergeDels_correct:
  assumes "\<forall>d \<in> set dels. range_ok d"
  shows "covered (sortAndMergeDels dels) = covered dels"
    and "separated (sortAndMergeDels dels)"
    and "\<forall>d \<in> set (sortAndMergeDels dels). range_ok d"
proof -
  have "covered (sortAndMergeDels dels) = covered dels \<and> separated (sortAndMergeDels dels) \<and>
      (\<forall>d \<in> set (sortAndMergeDels dels). range_ok d)"
  proof (cases "2 \<le> length dels")
    case True
    then have ne: "dels \<noteq> []" by auto
    from sortDels_correct [OF ne] have m: "mset (sortDels dels) = mset dels" by simp
    with ne have "sortDels dels \<noteq> []" by auto
    then obtain x xs where s: "sortDels dels = x # xs" by (cases "sortDels dels") auto
    with ascending_sortDels [OF ne assms] have "ascending (x # xs)" by simp
    with coalesce_correct [OF this] covered_mset [OF m] show ?thesis
      by (simp add: sortAndMergeDels_eq [OF True] s)
  next
    case False
    then have "sortAndMergeDels dels = dels" by (simp add: sortAndMergeDels_def)
    moreover from False have "separated dels" by (cases dels; cases "tl dels") auto
    ultimately show ?thesis using assms by simp
  qed
  then show "covered (sortAndMergeDels dels) = covered dels"
    and "separated (sortAndMergeDels dels)"
    and "\<forall>d \<in> set (sortAndMergeDels dels). range_ok d" by blast+
qed

text \<open>Positive lengths are kept, and then the normal form is unique.\<close>

definition positive :: "deleteItem list \<Rightarrow> bool" where
  "positive dels \<longleftrightarrow> (\<forall>d \<in> set dels. 0 < di_length d)"

lemma positive_simps [simp]:
  "positive []" "positive (d # ds) \<longleftrightarrow> 0 < di_length d \<and> positive ds"
  "positive (xs @ ys) \<longleftrightarrow> positive xs \<and> positive ys"
  by (auto simp: positive_def)

lemma positive_coalesce: "0 < di_length x \<Longrightarrow> positive xs \<Longrightarrow> positive (coalesce x xs)"
  by (induction x xs rule: coalesce.induct) (auto simp: mergeInto_def)

lemma positive_sortAndMergeDels: "positive dels \<Longrightarrow> positive (sortAndMergeDels dels)"
proof (cases "2 \<le> length dels")
  case True
  assume p: "positive dels"
  from True have ne: "dels \<noteq> []" by auto
  from sortDels_correct [OF ne] have m: "mset (sortDels dels) = mset dels" by simp
  then have "positive (sortDels dels)" using p by (metis positive_def set_mset_mset)
  moreover from m ne have "sortDels dels \<noteq> []" by auto
  ultimately show ?thesis
    by (cases "sortDels dels") (auto simp: sortAndMergeDels_eq [OF True] positive_coalesce)
qed (simp add: sortAndMergeDels_def)

lemma separated_above:
  "separated (x # xs) \<Longrightarrow> \<forall>d \<in> set (x # xs). 0 \<le> di_length d \<Longrightarrow>
     \<forall>d \<in> set xs. di_clock x + di_length x < di_clock d"
proof (induction xs arbitrary: x)
  case (Cons y ys)
  then have "\<forall>d \<in> set ys. di_clock y + di_length y < di_clock d" by simp
  with Cons.prems show ?case by force
qed simp

lemma separated_tl: "separated (x # xs) \<Longrightarrow> separated xs"
  by (cases xs) auto

lemma separated_head:
  assumes "separated (x # xs)" "positive (x # xs)"
  shows "di_clock x \<in> covered (x # xs)" "\<forall>k \<in> covered (x # xs). di_clock x \<le> k"
    "di_clock x + di_length x \<notin> covered (x # xs)"
    "\<forall>k. di_clock x \<le> k \<and> k < di_clock x + di_length x \<longrightarrow> k \<in> covered (x # xs)"
proof -
  have nn: "\<forall>d \<in> set (x # xs). 0 \<le> di_length d" using assms(2) by (auto simp: positive_def intro: less_imp_le)
  have *: "\<forall>k \<in> covered xs. di_clock x + di_length x < k"
    using separated_above [OF assms(1) nn] by (fastforce simp: covered_def covers_def)
  then show "di_clock x \<in> covered (x # xs)" "\<forall>k \<in> covered (x # xs). di_clock x \<le> k"
    "di_clock x + di_length x \<notin> covered (x # xs)"
    "\<forall>k. di_clock x \<le> k \<and> k < di_clock x + di_length x \<longrightarrow> k \<in> covered (x # xs)"
    using assms(2) by (force simp: covers_def)+
qed

lemma separated_rest:
  assumes "separated (x # xs)" "positive (x # xs)"
  shows "covered xs = covered (x # xs) - covers x"
proof -
  have nn: "\<forall>d \<in> set (x # xs). 0 \<le> di_length d" using assms(2) by (auto simp: positive_def intro: less_imp_le)
  show ?thesis
    using separated_above [OF assms(1) nn] by (fastforce simp: covered_def covers_def)
qed

lemma normal_form_unique:
  assumes "separated xs" "separated ys" "positive xs" "positive ys" "covered xs = covered ys"
  shows "xs = ys"
  using assms
proof (induction xs arbitrary: ys)
  case Nil
  then show ?case using separated_head(1) [of "hd ys" "tl ys"] by (cases ys) simp_all
next
  case (Cons x xs)
  from separated_head(1) [OF Cons.prems(1,3)] Cons.prems(5) have "ys \<noteq> []" by auto
  then obtain y ys' where ys: "ys = y # ys'" by (cases ys) auto
  note x = separated_head [OF Cons.prems(1,3)] and y = separated_head [OF Cons.prems(2,4) [unfolded ys]]
  have c: "di_clock x = di_clock y"
    using x(1,2) y(1,2) Cons.prems(5) ys by (metis order_antisym)
  have "di_length x = di_length y"
  proof (rule ccontr)
    assume "di_length x \<noteq> di_length y"
    then consider "di_length x < di_length y" | "di_length y < di_length x" by linarith
    then show False
    proof cases
      case 1
      then have "di_clock x + di_length x \<in> covered (y # ys')" using y(4) c Cons.prems(3) by simp
      then show False using x(3) Cons.prems(5) ys by blast
    next
      case 2
      then have "di_clock y + di_length y \<in> covered (x # xs)" using x(4) c Cons.prems(4) ys by simp
      then show False using y(3) Cons.prems(5) ys by blast
    qed
  qed
  with c have xy: "x = y" by simp
  have "covered xs = covered ys'"
    using separated_rest [OF Cons.prems(1,3)] separated_rest [OF Cons.prems(2,4) [unfolded ys]]
      Cons.prems(5) ys xy by simp
  with Cons.IH [of ys'] Cons.prems ys have "xs = ys'" by (auto dest: separated_tl)
  with xy ys show ?case by simp
qed

text \<open>Hence any order of the ranges, and any sorted permutation, give the same merged ranges.\<close>

lemma sortAndMergeDels_determined:
  assumes "\<forall>d \<in> set xs. range_ok d" "\<forall>d \<in> set ys. range_ok d" "positive xs" "positive ys"
    "covered xs = covered ys"
  shows "sortAndMergeDels xs = sortAndMergeDels ys"
  using assms by (intro normal_form_unique)
    (simp_all add: sortAndMergeDels_correct positive_sortAndMergeDels)

lemma mergeRanges_perm:
  assumes "ascending (x # xs)" "positive (x # xs)" "mset (x # xs) = mset dels" "2 \<le> length dels"
  shows "coalesce x xs = sortAndMergeDels dels"
proof (rule normal_form_unique)
  have set_eq: "set (x # xs) = set dels" by (metis assms(3) set_mset_mset)
  then have ok: "\<forall>d \<in> set dels. range_ok d" "positive dels"
    using assms(1,2) unfolding ascending_def positive_def by blast+
  note co = coalesce_correct [OF assms(1)]
  from co show "separated (coalesce x xs)" by blast
  show "separated (sortAndMergeDels dels)" by (rule sortAndMergeDels_correct(2) [OF ok(1)])
  show "positive (coalesce x xs)" using assms(2) by (intro positive_coalesce) simp_all
  show "positive (sortAndMergeDels dels)" by (rule positive_sortAndMergeDels [OF ok(2)])
  have "covered (x # xs) = covered dels" by (rule covered_mset [OF assms(3)])
  with co show "covered (coalesce x xs) = covered (sortAndMergeDels dels)"
    by (simp add: sortAndMergeDels_correct(1) [OF ok(1)])
qed

section \<open>The queries\<close>

lemma findIndexDS_loop_correct:
  assumes "separated dis" "\<forall>d \<in> set dis. range_ok d" "0 \<le> left" "right < int (length dis)"
    "\<forall>k < length dis. clock \<in> covers (dis ! k) \<longrightarrow> left \<le> int k \<and> int k \<le> right"
  shows "case findIndexDS_loop dis clock left right of
           Inl e \<Rightarrow> e = NotFound \<and> clock \<notin> covered dis
         | Inr i \<Rightarrow> 0 \<le> i \<and> i < int (length dis) \<and> clock \<in> covers (dis ! nat i)"
  using assms
proof (induction dis clock left right rule: findIndexDS_loop.induct)
  case (1 dis clock left right)
  show ?case
  proof (cases "left \<le> right")
    case False
    then have "clock \<notin> covered dis"
      using "1.prems"(5) by (fastforce simp: covered_def in_set_conv_nth)
    with False show ?thesis by (simp add: findIndexDS_loop.simps [of dis clock left right])
  next
    case True
    define m where "m = (left + right) div 2"
    have m: "left \<le> m" "m \<le> right" using True by (auto simp: m_def)
    then have nm: "nat m < length dis" "int (nat m) = m" using "1.prems"(3,4) by auto
    define mid where "mid = dis ! nat m"
    then have ok: "range_ok mid" using "1.prems"(2) nm by simp
    have up: "di_clock (dis ! a) + di_length (dis ! a) < di_clock (dis ! b)" if "a < b" "b < length dis" for a b
      using "1.prems"(1,2) that
    proof (induction dis arbitrary: a b)
      case (Cons x xs)
      have "\<forall>d \<in> set xs. di_clock x + di_length x < di_clock d"
        using Cons.prems(1,2) by (intro separated_above) (auto simp: range_ok_def)
      then show ?case using Cons separated_tl by (cases a; cases b) fastforce+
    qed simp
    have unfold: "findIndexDS_loop dis clock left right =
        (if di_clock mid \<le> clock
         then if clock < di_clock mid + di_length mid then Inr m else findIndexDS_loop dis clock (m + 1) right
         else findIndexDS_loop dis clock left (m - 1))"
      using True by (simp add: findIndexDS_loop.simps [of dis clock left right] Let_def
        range_ok_end [OF ok, unfolded mid_def] m_def [symmetric] mid_def)
    consider (hit) "di_clock mid \<le> clock" "clock < di_clock mid + di_length mid"
      | (above) "di_clock mid \<le> clock" "\<not> clock < di_clock mid + di_length mid"
      | (below) "\<not> di_clock mid \<le> clock" by blast
    then show ?thesis
    proof cases
      case hit
      then show ?thesis using unfold nm m "1.prems"(3) by (simp add: covers_def mid_def)
    next
      case above
      have "m + 1 \<le> int k" if "k < length dis" "clock \<in> covers (dis ! k)" for k
      proof (rule ccontr)
        assume "\<not> m + 1 \<le> int k"
        then have "k < nat m \<or> k = nat m" using nm by linarith
        then show False
          using up [of k "nat m"] that nm above ok by (auto simp: covers_def mid_def range_ok_def)
      qed
      then have "case findIndexDS_loop dis clock (m + 1) right of
           Inl e \<Rightarrow> e = NotFound \<and> clock \<notin> covered dis
         | Inr i \<Rightarrow> 0 \<le> i \<and> i < int (length dis) \<and> clock \<in> covers (dis ! nat i)"
        using "1.IH"(1) [OF True m_def refl refl] above "1.prems" m range_ok_end [OF ok] mid_def by simp
      then show ?thesis using unfold above by simp
    next
      case below
      have "int k \<le> m - 1" if "k < length dis" "clock \<in> covers (dis ! k)" for k
      proof (rule ccontr)
        assume "\<not> int k \<le> m - 1"
        then have "nat m < k \<or> k = nat m" using nm by linarith
        then show False
          using up [of "nat m" k] that nm below ok by (auto simp: covers_def mid_def range_ok_def)
      qed
      then have "case findIndexDS_loop dis clock left (m - 1) of
           Inl e \<Rightarrow> e = NotFound \<and> clock \<notin> covered dis
         | Inr i \<Rightarrow> 0 \<le> i \<and> i < int (length dis) \<and> clock \<in> covers (dis ! nat i)"
        using "1.IH"(2) [OF True m_def refl refl] below "1.prems" m mid_def by simp
      then show ?thesis using unfold below by simp
    qed
  qed
qed

lemma findIndexDS_correct:
  assumes "separated dis" "\<forall>d \<in> set dis. range_ok d"
  shows "case findIndexDS dis clock of
           Inl e \<Rightarrow> e = NotFound \<and> clock \<notin> covered dis
         | Inr i \<Rightarrow> 0 \<le> i \<and> i < int (length dis) \<and> clock \<in> covers (dis ! nat i)"
  unfolding findIndexDS_def using assms by (intro findIndexDS_loop_correct) auto

lemma findIndexDS_found_iff:
  assumes "separated dis" "\<forall>d \<in> set dis. range_ok d"
  shows "(\<exists>i. findIndexDS dis clock = Inr i) \<longleftrightarrow> clock \<in> covered dis"
proof (cases "findIndexDS dis clock")
  case (Inl e)
  with findIndexDS_correct [OF assms, of clock] show ?thesis by simp
next
  case (Inr i)
  with findIndexDS_correct [OF assms, of clock]
  have "nat i < length dis" "clock \<in> covers (dis ! nat i)" by auto
  then have "clock \<in> covered dis" unfolding covered_def by (meson UN_I nth_mem)
  with Inr show ?thesis by simp
qed

definition normalised :: "deleteSet \<Rightarrow> bool" where
  "normalised ds \<longleftrightarrow> ds_wf ds \<and> (\<forall>(c, items) \<in> set (ds_clients ds). separated items)"

lemma isDeleted_iff:
  assumes "normalised ds"
  shows "isDeleted (Some ds) client clock \<longleftrightarrow> (client, clock) \<in> deletedIds ds"
proof (cases "map_of (ds_clients ds) client")
  case None
  then show ?thesis by (simp add: isDeleted_def deletedIds_def clientItems_def)
next
  case (Some dis)
  with map_of_SomeD [OF Some] assms have "separated dis" "\<forall>d \<in> set dis. range_ok d"
    by (auto simp: normalised_def ds_wf_def)
  from findIndexDS_found_iff [OF this, of clock] Some show ?thesis
    by (auto simp: isDeleted_def deletedIds_def clientItems_def split: sum.splits)
qed

section \<open>Client order\<close>

lemma orderedLoop_set: "set (orderedLoop keys out cs) = set out \<union> (set keys \<inter> set cs)"
  by (induction keys out cs rule: orderedLoop.induct) auto

lemma orderedLoop_distinct: "distinct out \<Longrightarrow> distinct (orderedLoop keys out cs)"
  by (induction keys out cs rule: orderedLoop.induct) auto

lemma orderedLoop_id:
  "distinct (out @ cs) \<Longrightarrow> set cs \<subseteq> set keys \<Longrightarrow> orderedLoop keys out cs = out @ cs"
  by (induction keys out cs rule: orderedLoop.induct) auto

lemma orderedClients_correct:
  assumes "distinct (map fst (ds_clients ds))"
  shows "distinct (orderedClients ds)" "set (orderedClients ds) = fst ` set (ds_clients ds)"
proof -
  let ?keys = "map fst (ds_clients ds)"
  let ?out = "orderedLoop ?keys [] (ds_clientOrder ds)"
  have out: "distinct ?out" "set ?out \<subseteq> set ?keys"
    by (simp_all add: orderedLoop_distinct orderedLoop_set)
  have full: "set ?out = set ?keys" if "length ?out = length ?keys"
    using out that distinct_card [OF assms] distinct_card [OF out(1)] by (intro card_subset_eq) simp_all
  show "distinct (orderedClients ds)"
    using out assms by (auto simp: orderedClients_def Let_def)
  show "set (orderedClients ds) = fst ` set (ds_clients ds)"
    using out full by (auto simp: orderedClients_def Let_def)
qed

definition order_ok :: "deleteSet \<Rightarrow> bool" where
  "order_ok ds \<longleftrightarrow> distinct (ds_clientOrder ds) \<and> set (ds_clientOrder ds) = fst ` set (ds_clients ds)"

lemma orderedClients_order:
  assumes "order_ok ds" "distinct (map fst (ds_clients ds))"
  shows "orderedClients ds = ds_clientOrder ds"
proof -
  have "length (ds_clientOrder ds) = length (map fst (ds_clients ds))"
    using assms distinct_card [OF assms(2)] distinct_card [of "ds_clientOrder ds"] by (simp add: order_ok_def)
  then show ?thesis
    using assms(1) orderedLoop_id [of "[]" "ds_clientOrder ds" "map fst (ds_clients ds)"]
    by (simp add: orderedClients_def order_ok_def)
qed

section \<open>Union of delete sets\<close>

lemma map_of_AList_update [simp]: "map_of (AList.update k v al) k' = (if k' = k then Some v else map_of al k')"
  by (simp add: update_conv')

lemma clientItems_mergeClient:
  "clientItems (mergeClient ds m c) c' =
     (if c' = c then clientItems m c @ clientItems ds c else clientItems m c')"
  by (simp add: mergeClient_def clientItems_def noteClient_def)

lemma keys_mergeClient: "fst ` set (ds_clients (mergeClient ds m c)) = insert c (fst ` set (ds_clients m))"
  by (simp add: mergeClient_def noteClient_def dom_map_of_conv_image_fst [symmetric] update_conv')

lemma fold_mergeClient:
  "distinct cs \<Longrightarrow> clientItems (foldl (mergeClient ds) m cs) c =
     clientItems m c @ (if c \<in> set cs then clientItems ds c else [])"
  by (induction cs arbitrary: m) (auto simp: clientItems_mergeClient)

lemma keys_fold_mergeClient:
  "fst ` set (ds_clients (foldl (mergeClient ds) m cs)) = fst ` set (ds_clients m) \<union> set cs"
  by (induction cs arbitrary: m) (auto simp: keys_mergeClient)

lemma clientItems_absent: "c \<notin> fst ` set (ds_clients ds) \<Longrightarrow> clientItems ds c = []"
  by (simp add: clientItems_def map_of_eq_None_iff [THEN iffD2])

definition items_of :: "deleteSet option \<Rightarrow> Number \<Rightarrow> deleteItem list" where
  "items_of dsp c = (case dsp of None \<Rightarrow> [] | Some ds \<Rightarrow> clientItems ds c)"

definition keys_of :: "deleteSet option \<Rightarrow> Number set" where
  "keys_of dsp = (case dsp of None \<Rightarrow> {} | Some ds \<Rightarrow> fst ` set (ds_clients ds))"

definition wf_opt :: "deleteSet option \<Rightarrow> bool" where
  "wf_opt dsp \<longleftrightarrow> (case dsp of None \<Rightarrow> True | Some ds \<Rightarrow> ds_wf ds)"

lemma mergeOne_items:
  assumes "wf_opt dsp"
  shows "clientItems (mergeOne m dsp) c = clientItems m c @ items_of dsp c"
    and "fst ` set (ds_clients (mergeOne m dsp)) = fst ` set (ds_clients m) \<union> keys_of dsp"
  using assms
  by (auto simp: mergeOne_def items_of_def keys_of_def wf_opt_def ds_wf_def fold_mergeClient
    orderedClients_correct keys_fold_mergeClient clientItems_absent split: option.splits)

lemma mergeAll_items:
  "list_all wf_opt dss \<Longrightarrow>
     clientItems (foldl mergeOne m dss) c = clientItems m c @ concat (map (\<lambda>d. items_of d c) dss) \<and>
     fst ` set (ds_clients (foldl mergeOne m dss)) = fst ` set (ds_clients m) \<union> (\<Union>d \<in> set dss. keys_of d)"
  by (induction dss arbitrary: m) (auto simp: mergeOne_items)

text \<open>Distinct clients and the recorded order are kept by every merge step.\<close>

definition order_inv :: "deleteSet \<Rightarrow> bool" where
  "order_inv ds \<longleftrightarrow> distinct (map fst (ds_clients ds)) \<and> order_ok ds"

lemma order_inv_new: "order_inv newDeleteSet"
  by (simp add: order_inv_def order_ok_def newDeleteSet_def)

lemma order_inv_mergeClient: "order_inv m \<Longrightarrow> order_inv (mergeClient ds m c)"
  using keys_mergeClient [of ds m c]
  by (auto simp: order_inv_def order_ok_def mergeClient_def noteClient_def intro: distinct_update)

lemma order_inv_mergeAll: "order_inv m \<Longrightarrow> order_inv (foldl mergeOne m dss)"
proof (induction dss arbitrary: m)
  case (Cons dsp dss)
  have "order_inv (foldl (mergeClient ds) m cs)" if "order_inv m" for ds cs m
    using that by (induction cs arbitrary: m) (auto simp: order_inv_mergeClient)
  with Cons show ?case by (simp add: mergeOne_def split: option.splits)
qed simp

lemma order_inv_addToDeleteSet:
  assumes "order_inv ds"
  shows "order_inv (addToDeleteSet ds client clock len)"
proof -
  have "fst ` set (ds_clients (addToDeleteSet ds client clock len)) = insert client (fst ` set (ds_clients ds))"
    by (simp add: addToDeleteSet_def noteClient_def dom_map_of_conv_image_fst [symmetric] update_conv')
  with assms show ?thesis
    by (auto simp: order_inv_def order_ok_def addToDeleteSet_def noteClient_def intro: distinct_update)
qed

lemma clientItems_addToDeleteSet:
  "clientItems (addToDeleteSet ds client clock len) c =
     (if c = client then clientItems ds c @ [newDeleteItem clock len] else clientItems ds c)"
  by (simp add: addToDeleteSet_def clientItems_def noteClient_def)

lemma ds_wf_iff:
  "ds_wf ds \<longleftrightarrow> distinct (map fst (ds_clients ds)) \<and> (\<forall>c. \<forall>d \<in> set (clientItems ds c). range_ok d)"
  by (fastforce simp: ds_wf_def clientItems_def split: option.splits dest: map_of_SomeD)

lemma ds_wf_items: "wf_opt dsp \<Longrightarrow> d \<in> set (items_of dsp c) \<Longrightarrow> range_ok d"
  by (auto simp: wf_opt_def items_of_def ds_wf_iff split: option.splits)

lemma ds_wf_mergeAll: "list_all wf_opt dss \<Longrightarrow> ds_wf (foldl mergeOne newDeleteSet dss)"
  using order_inv_mergeAll [OF order_inv_new, of dss] mergeAll_items [of dss newDeleteSet]
  by (auto simp: ds_wf_iff order_inv_def list_all_iff ds_wf_items)
    (auto simp: newDeleteSet_def clientItems_def)

lemma map_of_map_snd: "map_of (map (\<lambda>(k, v). (k, f v)) al) k = map_option f (map_of al k)"
  by (induction al) auto

lemma clientItems_sortAndMergeDeleteSet:
  "clientItems (sortAndMergeDeleteSet ds) c = sortAndMergeDels (clientItems ds c)"
  by (simp add: sortAndMergeDeleteSet_def clientItems_def map_of_map_snd sortAndMergeDels_def
    split: option.splits)

lemma keys_sortAndMergeDeleteSet:
  "map fst (ds_clients (sortAndMergeDeleteSet ds)) = map fst (ds_clients ds)"
  by (auto simp: sortAndMergeDeleteSet_def)

lemma order_inv_sortAndMerge: "order_inv ds \<Longrightarrow> order_inv (sortAndMergeDeleteSet ds)"
proof -
  have "ds_clientOrder (sortAndMergeDeleteSet ds) = ds_clientOrder ds"
    by (simp add: sortAndMergeDeleteSet_def)
  then show "order_inv ds \<Longrightarrow> order_inv (sortAndMergeDeleteSet ds)"
    unfolding order_inv_def order_ok_def list.set_map [symmetric] keys_sortAndMergeDeleteSet by simp
qed

lemma normalised_iff:
  "normalised ds \<longleftrightarrow> ds_wf ds \<and> (\<forall>c. separated (clientItems ds c))"
  by (fastforce simp: normalised_def ds_wf_def clientItems_def split: option.splits dest: map_of_SomeD)

lemma normalised_sortAndMergeDeleteSet: "ds_wf ds \<Longrightarrow> normalised (sortAndMergeDeleteSet ds)"
  by (simp add: normalised_iff ds_wf_iff clientItems_sortAndMergeDeleteSet keys_sortAndMergeDeleteSet
    sortAndMergeDels_correct(2)) (metis sortAndMergeDels_correct(3))

lemma deletedIds_sortAndMergeDeleteSet: "ds_wf ds \<Longrightarrow> deletedIds (sortAndMergeDeleteSet ds) = deletedIds ds"
  by (simp add: deletedIds_def ds_wf_iff clientItems_sortAndMergeDeleteSet sortAndMergeDels_correct)

lemma covered_concat: "covered (concat xss) = (\<Union>xs \<in> set xss. covered xs)"
  by (induction xss) auto

lemma mergeDeleteSets_union:
  assumes "list_all wf_opt dss"
  shows "normalised (mergeDeleteSets dss)"
    and "deletedIds (mergeDeleteSets dss) = (\<Union>dsp \<in> set dss. {(c, k). k \<in> covered (items_of dsp c)})"
proof -
  have wf: "ds_wf (foldl mergeOne newDeleteSet dss)" by (rule ds_wf_mergeAll [OF assms])
  then show "normalised (mergeDeleteSets dss)"
    by (simp add: mergeDeleteSets_def normalised_sortAndMergeDeleteSet)
  have "clientItems newDeleteSet c = []" for c by (simp add: newDeleteSet_def clientItems_def)
  then show "deletedIds (mergeDeleteSets dss) = (\<Union>dsp \<in> set dss. {(c, k). k \<in> covered (items_of dsp c)})"
    using mergeAll_items [OF assms, of newDeleteSet]
    by (auto simp: mergeDeleteSets_def deletedIds_sortAndMergeDeleteSet [OF wf])
      (auto simp: deletedIds_def covered_concat)
qed

section \<open>Equality and convergence\<close>

lemma equalItems_iff: "equalItems xs ys \<longleftrightarrow> xs = ys"
  by (induction xs ys rule: equalItems.induct) auto

lemma equalDeleteSets_iff:
  assumes "distinct (map fst (ds_clients ds1))" "distinct (map fst (ds_clients ds2))"
  shows "equalDeleteSets (Some ds1) (Some ds2) \<longleftrightarrow> map_of (ds_clients ds1) = map_of (ds_clients ds2)"
proof
  assume eq: "equalDeleteSets (Some ds1) (Some ds2)"
  then have sub: "map_of (ds_clients ds2) c = Some v" if "map_of (ds_clients ds1) c = Some v" for c v
    using map_of_SomeD [OF that]
    by (fastforce simp: equalDeleteSets_def list_all_iff equalItems_iff split: option.splits)
  then have "fst ` set (ds_clients ds1) \<subseteq> fst ` set (ds_clients ds2)"
    unfolding dom_map_of_conv_image_fst [symmetric] by blast
  moreover have "card (fst ` set (ds_clients ds1)) = card (fst ` set (ds_clients ds2))"
    using assms eq distinct_card [of "map fst (ds_clients ds1)"] distinct_card [of "map fst (ds_clients ds2)"]
    by (simp add: equalDeleteSets_def)
  ultimately have dom: "fst ` set (ds_clients ds1) = fst ` set (ds_clients ds2)"
    by (intro card_subset_eq) auto
  show "map_of (ds_clients ds1) = map_of (ds_clients ds2)"
  proof
    fix c
    show "map_of (ds_clients ds1) c = map_of (ds_clients ds2) c"
      using sub [of c] dom by (cases "map_of (ds_clients ds1) c") (simp, metis map_of_eq_None_iff, simp)
  qed
next
  assume eq: "map_of (ds_clients ds1) = map_of (ds_clients ds2)"
  then have "fst ` set (ds_clients ds1) = fst ` set (ds_clients ds2)"
    by (metis dom_map_of_conv_image_fst)
  then have "length (ds_clients ds1) = length (ds_clients ds2)"
    using assms distinct_card [of "map fst (ds_clients ds1)"] distinct_card [of "map fst (ds_clients ds2)"] by simp
  then show "equalDeleteSets (Some ds1) (Some ds2)"
    using assms(1) eq by (auto simp: equalDeleteSets_def list_all_iff equalItems_iff split: option.splits
      simp flip: eq dest: eq_key_imp_eq_value)
qed

definition positive_opt :: "deleteSet option \<Rightarrow> bool" where
  "positive_opt dsp \<longleftrightarrow> (case dsp of None \<Rightarrow> True | Some ds \<Rightarrow> \<forall>(c, items) \<in> set (ds_clients ds). positive items)"

lemma positive_items_of: "positive_opt dsp \<Longrightarrow> positive (items_of dsp c)"
  by (auto simp: positive_opt_def items_of_def clientItems_def split: option.splits dest!: map_of_SomeD)

lemma positive_concat: "positive (concat xss) \<longleftrightarrow> (\<forall>xs \<in> set xss. positive xs)"
  by (induction xss) auto

lemma map_of_clientItems:
  "map_of (ds_clients ds) c = (if c \<in> fst ` set (ds_clients ds) then Some (clientItems ds c) else None)"
  by (auto simp: clientItems_def map_of_eq_None_iff split: option.splits dest: map_of_SomeD)

lemma mergeDeleteSets_determined:
  assumes wf: "list_all wf_opt dss" "list_all wf_opt dss'"
    and pos: "list_all positive_opt dss" "list_all positive_opt dss'"
    and same: "(\<Union>d \<in> set dss. keys_of d) = (\<Union>d \<in> set dss'. keys_of d)"
      "\<And>c. (\<Union>d \<in> set dss. covered (items_of d c)) = (\<Union>d \<in> set dss'. covered (items_of d c))"
  shows "equalDeleteSets (Some (mergeDeleteSets dss)) (Some (mergeDeleteSets dss'))"
proof -
  have n: "ds_clients newDeleteSet = []" "clientItems newDeleteSet c = []" for c
    by (simp_all add: newDeleteSet_def clientItems_def)
  note items = mergeAll_items [OF wf(1), of newDeleteSet] mergeAll_items [OF wf(2), of newDeleteSet]
  have "sortAndMergeDels (concat (map (\<lambda>d. items_of d c) dss)) =
      sortAndMergeDels (concat (map (\<lambda>d. items_of d c) dss'))" for c
    using wf pos same(2) [of c]
    by (intro sortAndMergeDels_determined)
      (auto simp: list_all_iff covered_concat positive_concat positive_items_of ds_wf_items)
  then have "clientItems (mergeDeleteSets dss) c = clientItems (mergeDeleteSets dss') c" for c
    by (simp add: mergeDeleteSets_def clientItems_sortAndMergeDeleteSet items n)
  moreover have keys: "fst ` set (ds_clients (sortAndMergeDeleteSet ds)) = fst ` set (ds_clients ds)" for ds
    using keys_sortAndMergeDeleteSet [of ds] by (metis list.set_map)
  have "fst ` set (ds_clients (mergeDeleteSets dss)) = fst ` set (ds_clients (mergeDeleteSets dss'))"
    using items same(1) n by (simp add: mergeDeleteSets_def keys)
  ultimately have "map_of (ds_clients (mergeDeleteSets dss)) = map_of (ds_clients (mergeDeleteSets dss'))"
    by (intro ext) (simp add: map_of_clientItems)
  moreover have "distinct (map fst (ds_clients (mergeDeleteSets d)))" for d
    using order_inv_mergeAll [OF order_inv_new, of d]
    by (simp add: mergeDeleteSets_def keys_sortAndMergeDeleteSet order_inv_def)
  ultimately show ?thesis by (simp add: equalDeleteSets_iff)
qed

section \<open>Properties\<close>

text \<open>
  Claim C34. \<open>sortAndMergeDels\<close> on ranges within the clock bound: the result covers exactly the same clocks, is sorted
  with a gap between neighbouring ranges, and no range end leaves the clock bound.
\<close>

theorem sortAndMergeDels_normal_form:
  assumes "list_all range_ok dels"
  shows "covered (sortAndMergeDels dels) = covered dels \<and> separated (sortAndMergeDels dels) \<and>
    list_all range_ok (sortAndMergeDels dels)"
  using sortAndMergeDels_correct [of dels] assms unfolding list_all_iff by blast

theorem sortAndMergeDels_normal_form_witness:
  "covered (sortAndMergeDels [newDeleteItem 7 2, newDeleteItem 0 3, newDeleteItem 3 1]) =
     covered [newDeleteItem 7 2, newDeleteItem 0 3, newDeleteItem 3 1] \<and>
   separated (sortAndMergeDels [newDeleteItem 7 2, newDeleteItem 0 3, newDeleteItem 3 1]) \<and>
   list_all range_ok (sortAndMergeDels [newDeleteItem 7 2, newDeleteItem 0 3, newDeleteItem 3 1])"
  by (rule sortAndMergeDels_normal_form) (simp add: range_ok_def newDeleteItem_def MaxInt_def)

text \<open>
  Claim C36. The binary search on normalised ranges: an index it returns is in bounds and the range there contains the
  clock; when it reports not found no range contains it.
\<close>

theorem findIndexDS_binary_search:
  assumes "separated dis" "\<forall>d \<in> set dis. range_ok d"
  shows "case findIndexDS dis clock of
      Inl e \<Rightarrow> e = NotFound \<and> clock \<notin> covered dis
    | Inr i \<Rightarrow> 0 \<le> i \<and> i < int (length dis) \<and> clock \<in> covers (dis ! nat i)"
  by (rule findIndexDS_correct [OF assms])

theorem findIndexDS_binary_search_witness:
  "case findIndexDS [newDeleteItem 0 4, newDeleteItem 7 2] 8 of
      Inl e \<Rightarrow> e = NotFound \<and> 8 \<notin> covered [newDeleteItem 0 4, newDeleteItem 7 2]
    | Inr i \<Rightarrow> 0 \<le> i \<and> i < int (length [newDeleteItem 0 4, newDeleteItem 7 2]) \<and>
        8 \<in> covers ([newDeleteItem 0 4, newDeleteItem 7 2] ! nat i)"
  by (rule findIndexDS_binary_search) (simp_all add: range_ok_def newDeleteItem_def MaxInt_def)

text \<open>
  Claim C32. \<open>mergeDeleteSets\<close> is union: an id is deleted in the merged set exactly when it is deleted in one of the
  merged sets (a nil set contributes nothing). The clients of the result are recorded in
  \<open>clientOrder\<close> once each, and \<open>orderedClients\<close> gives that order.
\<close>

theorem mergeDeleteSets_isDeleted:
  assumes "list_all wf_opt dss"
  shows "(isDeleted (Some (mergeDeleteSets dss)) client clock \<longleftrightarrow>
      (\<exists>ds. Some ds \<in> set dss \<and> (client, clock) \<in> deletedIds ds)) \<and>
    distinct (orderedClients (mergeDeleteSets dss)) \<and>
    orderedClients (mergeDeleteSets dss) = ds_clientOrder (mergeDeleteSets dss)"
proof (intro conjI)
  have "isDeleted (Some (mergeDeleteSets dss)) client clock \<longleftrightarrow>
      (\<exists>dsp \<in> set dss. clock \<in> covered (items_of dsp client))"
    using mergeDeleteSets_union [OF assms] by (simp add: isDeleted_iff)
  also have "\<dots> \<longleftrightarrow> (\<exists>ds. Some ds \<in> set dss \<and> (client, clock) \<in> deletedIds ds)"
    unfolding items_of_def deletedIds_def
    by (auto split: option.splits)
  finally show "isDeleted (Some (mergeDeleteSets dss)) client clock \<longleftrightarrow>
      (\<exists>ds. Some ds \<in> set dss \<and> (client, clock) \<in> deletedIds ds)" .
  have inv: "order_inv (mergeDeleteSets dss)"
    using order_inv_mergeAll [OF order_inv_new, of dss]
    by (simp add: order_inv_sortAndMerge mergeDeleteSets_def)
  then show "distinct (orderedClients (mergeDeleteSets dss))"
    by (simp add: order_inv_def orderedClients_correct)
  show "orderedClients (mergeDeleteSets dss) = ds_clientOrder (mergeDeleteSets dss)"
    using inv by (simp add: order_inv_def orderedClients_order)
qed

theorem mergeDeleteSets_isDeleted_witness:
  "(isDeleted (Some (mergeDeleteSets [None, Some (addToDeleteSet newDeleteSet 5 0 3)])) 5 2 \<longleftrightarrow>
      (\<exists>ds. Some ds \<in> set [None, Some (addToDeleteSet newDeleteSet 5 0 3)] \<and> (5, 2) \<in> deletedIds ds)) \<and>
    distinct (orderedClients (mergeDeleteSets [None, Some (addToDeleteSet newDeleteSet 5 0 3)])) \<and>
    orderedClients (mergeDeleteSets [None, Some (addToDeleteSet newDeleteSet 5 0 3)]) =
      ds_clientOrder (mergeDeleteSets [None, Some (addToDeleteSet newDeleteSet 5 0 3)])"
  by (rule mergeDeleteSets_isDeleted)
    (simp add: wf_opt_def ds_wf_def addToDeleteSet_def newDeleteSet_def noteClient_def clientItems_def
      newDeleteItem_def range_ok_def MaxInt_def)

text \<open>
  Claim C31. Convergence of delete sets: merging does not depend on the order of the sets, on duplicates or on nested
  merges. Two lists of sets that name the same clients and delete the same clocks merge to equal
  delete sets, in the sense of \<open>equalDeleteSets\<close>.
\<close>

theorem mergeDeleteSets_converges:
  assumes "list_all wf_opt dss" "list_all wf_opt dss'"
    and "list_all positive_opt dss" "list_all positive_opt dss'"
    and "(\<Union>d \<in> set dss. keys_of d) = (\<Union>d \<in> set dss'. keys_of d)"
    and "\<forall>c. (\<Union>d \<in> set dss. covered (items_of d c)) = (\<Union>d \<in> set dss'. covered (items_of d c))"
  shows "equalDeleteSets (Some (mergeDeleteSets dss)) (Some (mergeDeleteSets dss'))"
  by (rule mergeDeleteSets_determined [OF assms(1-5)]) (rule assms(6) [rule_format])

theorem mergeDeleteSets_converges_witness:
  "equalDeleteSets
     (Some (mergeDeleteSets [Some (addToDeleteSet newDeleteSet 5 0 3), Some (addToDeleteSet newDeleteSet 9 4 1)]))
     (Some (mergeDeleteSets [Some (addToDeleteSet newDeleteSet 9 4 1), None, Some (addToDeleteSet newDeleteSet 5 0 3)]))"
proof (rule mergeDeleteSets_converges)
  have a: "addToDeleteSet newDeleteSet c k n = \<lparr>ds_clients = [(c, [\<lparr>di_clock = k, di_length = n\<rparr>])], ds_clientOrder = [c]\<rparr>"
    for c k n
    by (simp add: addToDeleteSet_def newDeleteSet_def noteClient_def clientItems_def newDeleteItem_def)
  show "list_all wf_opt [Some (addToDeleteSet newDeleteSet 5 0 3), Some (addToDeleteSet newDeleteSet 9 4 1)]"
    "list_all wf_opt [Some (addToDeleteSet newDeleteSet 9 4 1), None, Some (addToDeleteSet newDeleteSet 5 0 3)]"
    unfolding a by (simp_all add: wf_opt_def ds_wf_def range_ok_def MaxInt_def)
  show "list_all positive_opt [Some (addToDeleteSet newDeleteSet 5 0 3), Some (addToDeleteSet newDeleteSet 9 4 1)]"
    "list_all positive_opt [Some (addToDeleteSet newDeleteSet 9 4 1), None, Some (addToDeleteSet newDeleteSet 5 0 3)]"
    unfolding a by (simp_all add: positive_opt_def)
qed (simp_all add: keys_of_def items_of_def Un_commute insert_commute)

end
