(* ===== verification/Items.thy ===== *)
theory Items
  imports Contents DeleteSet "HOL-Library.Monad_Syntax"
begin

text \<open>
  Items, the struct store and integration (\<^verbatim>\<open>crdt/item.go\<close>, \<^verbatim>\<open>crdt/struct_store.go\<close>, \<^verbatim>\<open>crdt/gc.go\<close>). Items and
  shared types are mutable and shared, so they live in an explicit store: \<open>t_heap\<close> maps an address to an item,
  \<open>t_types\<close> a type reference to the part of a shared type that integration touches. The record \<open>trans\<close> is
  the state a transaction works on: these two, the struct store as a list of structs per client in clock order,
  the delete set being collected and the items to merge afterwards.

  A \<^verbatim>\<open>nil\<close> pointer is \<open>None\<close>. The result \<open>None\<close> of an operation stands for a run-time panic (a failing type
  assertion, a dereference of \<^verbatim>\<open>nil\<close>) and for a loop over pointers that does not end. The caches and indexes a type
  keeps beside its list, the journal of changed types and the observers have no influence on the document and are not modelled.
\<close>

section \<open>State\<close>

type_synonym addr = nat
type_synonym tid = nat

record ID =
  id_Client :: Number
  id_Clock :: Number

definition GenID :: "Number \<Rightarrow> Number \<Rightarrow> ID" where
  "GenID client clock = \<lparr>id_Client = client, id_Clock = clock\<rparr>"

definition CompareIDs :: "ID option \<Rightarrow> ID option \<Rightarrow> bool" where
  "CompareIDs a b \<longleftrightarrow>
     (case (a, b) of
        (None, None) \<Rightarrow> True
      | (Some x, Some y) \<Rightarrow> id_Client x = id_Client y \<and> id_Clock x = id_Clock y
      | _ \<Rightarrow> False)"

datatype parent = NoParent | ParentType tid | ParentID ID | ParentKey gostring

record item =
  i_id :: ID
  i_length :: Number
  i_origin :: "ID option"
  i_left :: "addr option"
  i_right :: "addr option"
  i_rightOrigin :: "ID option"
  i_parent :: parent
  i_parentSub :: gostring
  i_redone :: "ID option"
  i_content :: "tid content"
  i_deleted :: bool
  i_keep :: bool
  i_countable :: bool

datatype struct = SItem addr | SGC ID Number

record ytype =
  y_start :: "addr option"
  y_map :: "(gostring \<times> addr) list"
  y_length :: Number
  y_item :: "addr option"
  y_count :: Number
  y_size :: Number

record trans =
  t_heap :: "addr \<Rightarrow> item"
  t_next :: addr
  t_types :: "tid \<Rightarrow> ytype"
  t_store :: "(Number \<times> struct list) list"
  t_deleteSet :: deleteSet
  t_mergeStructs :: "addr list"
  t_beforeState :: "(Number \<times> Number) list"

definition upd_item :: "addr \<Rightarrow> (item \<Rightarrow> item) \<Rightarrow> trans \<Rightarrow> trans" where
  "upd_item a f t = t\<lparr>t_heap := (t_heap t)(a := f (t_heap t a))\<rparr>"

definition upd_type :: "tid \<Rightarrow> (ytype \<Rightarrow> ytype) \<Rightarrow> trans \<Rightarrow> trans" where
  "upd_type y f t = t\<lparr>t_types := (t_types t)(y := f (t_types t y))\<rparr>"

lemma upd_item_simps [simp]:
  "t_heap (upd_item a f t) = (t_heap t)(a := f (t_heap t a))"
  "t_next (upd_item a f t) = t_next t"
  "t_types (upd_item a f t) = t_types t"
  "t_store (upd_item a f t) = t_store t"
  "t_deleteSet (upd_item a f t) = t_deleteSet t"
  "t_mergeStructs (upd_item a f t) = t_mergeStructs t"
  "t_beforeState (upd_item a f t) = t_beforeState t"
  by (simp_all add: upd_item_def)

lemma upd_type_simps [simp]:
  "t_types (upd_type y g t) = (t_types t)(y := g (t_types t y))"
  "t_heap (upd_type y g t) = t_heap t"
  "t_next (upd_type y g t) = t_next t"
  "t_store (upd_type y g t) = t_store t"
  "t_deleteSet (upd_type y g t) = t_deleteSet t"
  "t_mergeStructs (upd_type y g t) = t_mergeStructs t"
  "t_beforeState (upd_type y g t) = t_beforeState t"
  by (simp_all add: upd_type_def)

definition newItemWithLength ::
  "ID \<Rightarrow> addr option \<Rightarrow> ID option \<Rightarrow> addr option \<Rightarrow> ID option \<Rightarrow> parent \<Rightarrow> gostring \<Rightarrow> tid content \<Rightarrow> Number \<Rightarrow> item" where
  "newItemWithLength ident left org right rightOrigin par parentSub body len =
     \<lparr>i_id = ident, i_length = len, i_origin = org, i_left = left, i_right = right, i_rightOrigin = rightOrigin,
      i_parent = par, i_parentSub = parentSub, i_redone = None, i_content = body, i_deleted = False, i_keep = False,
      i_countable = isCountable body\<rparr>"

definition newItem ::
  "ID \<Rightarrow> addr option \<Rightarrow> ID option \<Rightarrow> addr option \<Rightarrow> ID option \<Rightarrow> parent \<Rightarrow> gostring \<Rightarrow> tid content \<Rightarrow> item" where
  "newItem ident left org right rightOrigin par parentSub body =
     newItemWithLength ident left org right rightOrigin par parentSub (normalizeContent body) (contentLength body)"

definition lastID :: "item \<Rightarrow> ID" where
  "lastID it =
     (if i_length it = 1 then i_id it
      else GenID (id_Client (i_id it)) (id_Clock (i_id it) + i_length it - 1))"

section \<open>The struct store\<close>

definition structID :: "trans \<Rightarrow> struct \<Rightarrow> ID" where
  "structID t s = (case s of SItem a \<Rightarrow> i_id (t_heap t a) | SGC ident len \<Rightarrow> ident)"

definition structLength :: "trans \<Rightarrow> struct \<Rightarrow> Number" where
  "structLength t s = (case s of SItem a \<Rightarrow> i_length (t_heap t a) | SGC ident len \<Rightarrow> len)"

definition structEnd :: "trans \<Rightarrow> struct \<Rightarrow> Number" where
  "structEnd t s = id_Clock (structID t s) + structLength t s"

definition clientStructs :: "trans \<Rightarrow> Number \<Rightarrow> struct list option" where
  "clientStructs t client = map_of (t_store t) client"

definition getState :: "trans \<Rightarrow> Number \<Rightarrow> Number" where
  "getState t client = (case clientStructs t client of None \<Rightarrow> 0 | Some ss \<Rightarrow> structEnd t (last ss))"

definition getStateVector :: "trans \<Rightarrow> (Number \<times> Number) list" where
  "getStateVector t = map (\<lambda>(client, ss). (client, structEnd t (last ss))) (t_store t)"

definition addStruct :: "struct \<Rightarrow> trans \<Rightarrow> go_error + trans" where
  "addStruct s t =
     (let client = id_Client (structID t s)
      in case clientStructs t client of
           None \<Rightarrow> Inr (t\<lparr>t_store := t_store t @ [(client, [s])]\<rparr>)
         | Some ss \<Rightarrow>
             if structEnd t (last ss) \<noteq> id_Clock (structID t s) then Inl NotFound
             else Inr (t\<lparr>t_store := AList.update client (ss @ [s]) (t_store t)\<rparr>))"

text \<open>\<^verbatim>\<open>clientStructList.Find\<close>: the struct whose clocks contain the given one.\<close>

definition covers_clock :: "trans \<Rightarrow> Number \<Rightarrow> struct \<Rightarrow> bool" where
  "covers_clock t clock s \<longleftrightarrow> id_Clock (structID t s) \<le> clock \<and> clock < structEnd t s"

definition findStruct :: "trans \<Rightarrow> ID \<Rightarrow> struct option" where
  "findStruct t ident = (case clientStructs t (id_Client ident) of None \<Rightarrow> None | Some ss \<Rightarrow> find (covers_clock t (id_Clock ident)) ss)"

fun insertAfter :: "struct \<Rightarrow> struct \<Rightarrow> struct list \<Rightarrow> struct list" where
  "insertAfter s new [] = []"
| "insertAfter s new (x # xs) = (if x = s then x # new # xs else x # insertAfter s new xs)"

definition storeInsertAfter :: "Number \<Rightarrow> struct \<Rightarrow> struct \<Rightarrow> trans \<Rightarrow> trans" where
  "storeInsertAfter client s new t =
     t\<lparr>t_store := (case clientStructs t client of
        None \<Rightarrow> t_store t | Some ss \<Rightarrow> AList.update client (insertAfter s new ss) (t_store t))\<rparr>"

text \<open>
  \<^verbatim>\<open>splitItem\<close>, on a string or any other content. \<open>None\<close> is the \<^verbatim>\<open>nil\<close> item that a content without a right half gives.
\<close>

definition splitRight :: "item \<Rightarrow> addr \<Rightarrow> tid content \<Rightarrow> Number \<Rightarrow> item" where
  "splitRight left la rightContent diff =
     (newItemWithLength (GenID (id_Client (i_id left)) (id_Clock (i_id left) + diff)) (Some la)
        (Some (GenID (id_Client (i_id left)) (id_Clock (i_id left) + diff - 1))) (i_right left) (i_rightOrigin left)
        (i_parent left) (i_parentSub left) rightContent (i_length left - diff))
      \<lparr>i_deleted := i_deleted left, i_keep := i_keep left,
       i_redone := (case i_redone left of None \<Rightarrow> None | Some r \<Rightarrow> Some (GenID (id_Client r) (id_Clock r + diff)))\<rparr>"

definition splitItem :: "addr \<Rightarrow> Number \<Rightarrow> trans \<Rightarrow> (addr \<times> trans) option" where
  "splitItem la diff t =
     (let left = t_heap t la
      in case spliceContentWithLength (i_content left) diff (i_length left) of
           (_, None) \<Rightarrow> None
         | (leftContent, Some rightContent) \<Rightarrow>
             let ra = t_next t;
                 right = splitRight left la rightContent diff;
                 t1 = t\<lparr>t_heap := (t_heap t)(ra := right), t_next := Suc ra,
                        t_mergeStructs := t_mergeStructs t @ [ra]\<rparr>;
                 t2 = upd_item la (\<lambda>i. i\<lparr>i_right := Some ra, i_content := leftContent, i_length := diff\<rparr>) t1;
                 t3 = (case i_right left of None \<Rightarrow> t2 | Some rr \<Rightarrow> upd_item rr (\<lambda>i. i\<lparr>i_left := Some ra\<rparr>) t2);
                 t4 = (case i_parent left of
                         ParentType y \<Rightarrow>
                           if i_parentSub left \<noteq> []
                           then if i_right left = None
                                then upd_type y (\<lambda>ty. ty\<lparr>y_map := AList.update (i_parentSub left) ra (y_map ty)\<rparr>) t3
                                else t3
                           else upd_type y (\<lambda>ty. ty\<lparr>y_count := y_count ty + 1\<rparr>) t3
                       | _ \<Rightarrow> t3)
             in Some (ra, t4))"

text \<open>\<^verbatim>\<open>getItemCleanStart\<close> and \<^verbatim>\<open>getItemCleanEnd\<close>: the item that starts or ends at the id, split off if necessary.\<close>

definition getItemCleanStart :: "ID \<Rightarrow> trans \<Rightarrow> (addr option \<times> trans) option" where
  "getItemCleanStart ident t =
     (case findStruct t ident of
        Some (SItem a) \<Rightarrow>
          if id_Clock (i_id (t_heap t a)) < id_Clock ident
          then case splitItem a (id_Clock ident - id_Clock (i_id (t_heap t a))) t of
                 None \<Rightarrow> None
               | Some (ra, t') \<Rightarrow> Some (Some ra, storeInsertAfter (id_Client ident) (SItem a) (SItem ra) t')
          else Some (Some a, t)
      | _ \<Rightarrow> Some (None, t))"

definition getItemCleanEnd :: "ID \<Rightarrow> trans \<Rightarrow> (addr option \<times> trans) option" where
  "getItemCleanEnd ident t =
     (case findStruct t ident of
        Some (SItem a) \<Rightarrow>
          if id_Clock ident \<noteq> id_Clock (i_id (t_heap t a)) + i_length (t_heap t a) - 1
          then case splitItem a (id_Clock ident - id_Clock (i_id (t_heap t a)) + 1) t of
                 None \<Rightarrow> None
               | Some (ra, t') \<Rightarrow> Some (Some a, storeInsertAfter (id_Client ident) (SItem a) (SItem ra) t')
          else Some (Some a, t)
      | _ \<Rightarrow> Some (None, t))"

fun replaceIn :: "struct \<Rightarrow> struct \<Rightarrow> struct list \<Rightarrow> struct list" where
  "replaceIn s new [] = []"
| "replaceIn s new (x # xs) = (if x = s then new # xs else x # replaceIn s new xs)"

definition replaceStruct :: "struct \<Rightarrow> struct \<Rightarrow> trans \<Rightarrow> go_error + trans" where
  "replaceStruct s new t =
     (if id_Client (structID t s) \<noteq> id_Client (structID t new) then Inl NotFound
      else case clientStructs t (id_Client (structID t s)) of
             None \<Rightarrow> Inl NotFound
           | Some ss \<Rightarrow>
               (case find (covers_clock t (id_Clock (structID t s))) ss of
                  None \<Rightarrow> Inl NotFound
                | Some old \<Rightarrow>
                    Inr (t\<lparr>t_store := AList.update (id_Client (structID t s)) (replaceIn old new ss) (t_store t)\<rparr>)))"

section \<open>Conflict sets\<close>

text \<open>\<^verbatim>\<open>integrationItemSet\<close>: four inline slots, then a map.\<close>

record itemSet =
  is_inline :: "addr list"
  is_overflow :: "addr list option"

definition emptyItemSet :: itemSet where
  "emptyItemSet = \<lparr>is_inline = [], is_overflow = None\<rparr>"

definition itemSet_Add :: "addr \<Rightarrow> itemSet \<Rightarrow> itemSet" where
  "itemSet_Add a s =
     (case is_overflow s of
        Some m \<Rightarrow> s\<lparr>is_overflow := Some (List.insert a m)\<rparr>
      | None \<Rightarrow>
          if a \<in> set (is_inline s) then s
          else if length (is_inline s) < 4 then s\<lparr>is_inline := is_inline s @ [a]\<rparr>
          else s\<lparr>is_overflow := Some (List.insert a (is_inline s))\<rparr>)"

definition itemSet_Has :: "addr \<Rightarrow> itemSet \<Rightarrow> bool" where
  "itemSet_Has a s = (case is_overflow s of Some m \<Rightarrow> a \<in> set m | None \<Rightarrow> a \<in> set (is_inline s))"

definition itemSet_Reset :: "itemSet \<Rightarrow> itemSet" where
  "itemSet_Reset s =
     (case is_overflow s of Some m \<Rightarrow> s\<lparr>is_overflow := Some []\<rparr> | None \<Rightarrow> s\<lparr>is_inline := []\<rparr>)"

section \<open>Integration\<close>

partial_function (option) leftmost :: "(addr \<Rightarrow> item) \<Rightarrow> addr option \<Rightarrow> addr option option" where
  "leftmost h r =
     (case r of
        None \<Rightarrow> Some None
      | Some a \<Rightarrow> (case i_left (h a) of None \<Rightarrow> Some (Some a) | Some l \<Rightarrow> leftmost h (Some l)))"

text \<open>
  The scan over the items between the two origins; \<open>lookup\<close> is \<^verbatim>\<open>getStruct\<close> narrowed to items, \<open>it\<close> the item to place.
\<close>

partial_function (option) conflictScan ::
  "(addr \<Rightarrow> item) \<Rightarrow> (ID \<Rightarrow> addr option) \<Rightarrow> item \<Rightarrow> addr option \<Rightarrow> addr option \<Rightarrow> itemSet \<Rightarrow> itemSet \<Rightarrow> addr option option" where
  "conflictScan h lookup it cur lft conflicting before =
     (case cur of
        None \<Rightarrow> Some lft
      | Some a \<Rightarrow>
          if cur = i_right it then Some lft
          else
            let oi = h a; before1 = itemSet_Add a before; conflicting1 = itemSet_Add a conflicting
            in if CompareIDs (i_origin it) (i_origin oi)
               then if id_Client (i_id oi) < id_Client (i_id it)
                    then conflictScan h lookup it (i_right oi) (Some a) (itemSet_Reset conflicting1) before1
                    else if CompareIDs (i_rightOrigin it) (i_rightOrigin oi) then Some lft
                    else conflictScan h lookup it (i_right oi) lft conflicting1 before1
               else case i_origin oi of
                      None \<Rightarrow> Some lft
                    | Some org \<Rightarrow>
                        (case lookup org of
                           None \<Rightarrow> Some lft
                         | Some b \<Rightarrow>
                             if \<not> itemSet_Has b before1 then Some lft
                             else if \<not> itemSet_Has b conflicting1
                             then conflictScan h lookup it (i_right oi) (Some a) (itemSet_Reset conflicting1) before1
                             else conflictScan h lookup it (i_right oi) lft conflicting1 before1))"

definition findItem :: "trans \<Rightarrow> ID \<Rightarrow> addr option" where
  "findItem t ident = (case findStruct t ident of Some (SItem a) \<Rightarrow> Some a | _ \<Rightarrow> None)"

text \<open>The first item that may conflict.\<close>

definition firstConflict :: "item \<Rightarrow> tid \<Rightarrow> trans \<Rightarrow> addr option option" where
  "firstConflict it y t =
     (case i_left it of
        Some l \<Rightarrow> Some (i_right (t_heap t l))
      | None \<Rightarrow>
          if i_parentSub it \<noteq> [] then leftmost (t_heap t) (map_of (y_map (t_types t y)) (i_parentSub it))
          else Some (y_start (t_types t y)))"

definition resolveLeft :: "item \<Rightarrow> tid \<Rightarrow> trans \<Rightarrow> addr option option" where
  "resolveLeft it y t =
     (if (i_left it = None \<and> (case i_right it of None \<Rightarrow> True | Some r \<Rightarrow> i_left (t_heap t r) \<noteq> None)) \<or>
         (case i_left it of None \<Rightarrow> False | Some l \<Rightarrow> i_right (t_heap t l) \<noteq> i_right it)
      then do {
        cur \<leftarrow> firstConflict it y t;
        conflictScan (t_heap t) (findItem t) it cur (i_left it) emptyItemSet emptyItemSet
      }
      else Some (i_left it))"

text \<open>Reconnecting the neighbours.\<close>

definition linkItem :: "addr \<Rightarrow> tid \<Rightarrow> trans \<Rightarrow> trans option" where
  "linkItem a y t =
     (let it = t_heap t a
      in do {
        t1 \<leftarrow> (case i_left it of
                 Some l \<Rightarrow>
                   Some (upd_item l (\<lambda>i. i\<lparr>i_right := Some a\<rparr>) (upd_item a (\<lambda>i. i\<lparr>i_right := i_right (t_heap t l)\<rparr>) t))
               | None \<Rightarrow>
                   if i_parentSub it \<noteq> [] then do {
                     r \<leftarrow> leftmost (t_heap t) (map_of (y_map (t_types t y)) (i_parentSub it));
                     Some (upd_item a (\<lambda>i. i\<lparr>i_right := r\<rparr>) t)
                   }
                   else Some (upd_item a (\<lambda>i. i\<lparr>i_right := y_start (t_types t y)\<rparr>)
                     (upd_type y (\<lambda>ty. ty\<lparr>y_start := Some a\<rparr>) t)));
        Some (case i_right (t_heap t1 a) of None \<Rightarrow> t1 | Some r \<Rightarrow> upd_item r (\<lambda>i. i\<lparr>i_left := Some a\<rparr>) t1)
      })"

subsection \<open>Deletion\<close>

fun foldM :: "('a \<Rightarrow> 's \<Rightarrow> 's option) \<Rightarrow> 'a list \<Rightarrow> 's \<Rightarrow> 's option" where
  "foldM f [] s = Some s"
| "foldM f (x # xs) s = (case f x s of None \<Rightarrow> None | Some s' \<Rightarrow> foldM f xs s')"

text \<open>The items of a list, from a pointer to its right end.\<close>

partial_function (option) itemsFrom :: "(addr \<Rightarrow> item) \<Rightarrow> addr option \<Rightarrow> addr list option" where
  "itemsFrom h r =
     (case r of
        None \<Rightarrow> Some []
      | Some a \<Rightarrow> do { as \<leftarrow> itemsFrom h (i_right (h a)); Some (a # as) })"

definition beforeClock :: "trans \<Rightarrow> Number \<Rightarrow> Number" where
  "beforeClock t client = (case map_of (t_beforeState t) client of None \<Rightarrow> 0 | Some c \<Rightarrow> c)"

text \<open>
  \<^verbatim>\<open>deleteItemStruct\<close> without its content: the length or the size of the parent, the mark, the delete set.
\<close>

definition unlinkDeleted :: "addr \<Rightarrow> trans \<Rightarrow> trans option" where
  "unlinkDeleted a t =
     (let it = t_heap t a
      in case i_parent it of
           ParentType y \<Rightarrow>
             let t1 = (if i_countable it \<and> i_parentSub it = []
                       then upd_type y (\<lambda>ty. ty\<lparr>y_length := y_length ty - i_length it\<rparr>) t
                       else if i_parentSub it \<noteq> [] \<and> map_of (y_map (t_types t y)) (i_parentSub it) = Some a
                       then upd_type y (\<lambda>ty. ty\<lparr>y_size := y_size ty - 1\<rparr>) t
                       else t);
                 t2 = upd_item a (\<lambda>i. i\<lparr>i_deleted := True\<rparr>) t1
             in Some (t2\<lparr>t_deleteSet :=
                  addToDeleteSet (t_deleteSet t2) (id_Client (i_id it)) (id_Clock (i_id it)) (i_length it)\<rparr>)
         | _ \<Rightarrow> None)"

text \<open>
  The cascade into a nested type goes down one level of nesting for each unit of fuel: first the list, then the entries of the map.
\<close>

primrec deleteItemStruct :: "nat \<Rightarrow> addr \<Rightarrow> trans \<Rightarrow> trans option" where
  "deleteItemStruct 0 a t = None"
| "deleteItemStruct (Suc n) a t =
     (if i_deleted (t_heap t a) then Some t
      else do {
        t1 \<leftarrow> unlinkDeleted a t;
        (case i_content (t_heap t a) of
           CType y \<Rightarrow> do {
             children \<leftarrow> itemsFrom (t_heap t1) (y_start (t_types t1 y));
             foldM (\<lambda>c s.
               if \<not> i_deleted (t_heap s c) then deleteItemStruct n c s
               else if id_Clock (i_id (t_heap s c)) < beforeClock s (id_Client (i_id (t_heap s c)))
               then Some (s\<lparr>t_mergeStructs := t_mergeStructs s @ [c]\<rparr>) else Some s)
               (children @ map snd (y_map (t_types t1 y))) t1
           }
         | _ \<Rightarrow> Some t1)
      })"

subsection \<open>The whole of integration\<close>

definition integrateContent :: "addr \<Rightarrow> trans \<Rightarrow> trans" where
  "integrateContent a t =
     (let it = t_heap t a
      in case i_content it of
           CDeleted len \<Rightarrow>
             upd_item a (\<lambda>i. i\<lparr>i_deleted := True\<rparr>)
               (t\<lparr>t_deleteSet := addToDeleteSet (t_deleteSet t) (id_Client (i_id it)) (id_Clock (i_id it)) len\<rparr>)
         | CType y \<Rightarrow> upd_type y (\<lambda>ty. ty\<lparr>y_item := Some a\<rparr>) t
         | _ \<Rightarrow> t)"

definition gcIntegrate :: "ID \<Rightarrow> Number \<Rightarrow> Number \<Rightarrow> trans \<Rightarrow> go_error + trans" where
  "gcIntegrate ident len offset t =
     (let ident' = (if offset > 0 then ident\<lparr>id_Clock := id_Clock ident + offset\<rparr> else ident);
          len' = (if offset > 0 then len - offset else len)
      in addStruct (SGC ident' len') t)"

text \<open>The prefix of an item that the store already holds is cut off.\<close>

definition cutOffset :: "addr \<Rightarrow> Number \<Rightarrow> trans \<Rightarrow> trans option" where
  "cutOffset a offset t =
     (if offset > 0 then do {
        let it = t_heap t a;
        let ident = (i_id it)\<lparr>id_Clock := id_Clock (i_id it) + offset\<rparr>;
        (lft, t1) \<leftarrow> getItemCleanEnd (GenID (id_Client ident) (id_Clock ident - 1)) t;
        (case spliceContentWithLength (i_content it) offset (i_length it) of
             (_, None) \<Rightarrow> None
           | (_, Some c) \<Rightarrow>
               Some (upd_item a (\<lambda>i. i\<lparr>i_id := ident, i_left := lft,
                 i_origin := (case lft of None \<Rightarrow> i_origin i | Some l \<Rightarrow> Some (lastID (t_heap t1 l))),
                 i_content := c, i_length := i_length i - offset\<rparr>) t1))
      }
      else Some t)"

text \<open>The bookkeeping after the links are set: a map entry that comes last becomes the value of its key.\<close>

definition settleEntry :: "nat \<Rightarrow> addr \<Rightarrow> tid \<Rightarrow> trans \<Rightarrow> trans option" where
  "settleEntry n a y t =
     (let it = t_heap t a
      in if i_right it = None \<and> i_parentSub it \<noteq> []
         then let prev = map_of (y_map (t_types t y)) (i_parentSub it);
                  t1 = upd_type y (\<lambda>ty. ty\<lparr>y_map := AList.update (i_parentSub it) a (y_map ty),
                    y_size := y_size ty + (case prev of None \<Rightarrow> 1 | Some p \<Rightarrow> if i_deleted (t_heap t p) then 1 else 0)\<rparr>) t
              in (case i_left it of None \<Rightarrow> Some t1 | Some l \<Rightarrow> deleteItemStruct n l t1)
         else Some t)"

definition countItem :: "addr \<Rightarrow> tid \<Rightarrow> trans \<Rightarrow> trans" where
  "countItem a y t =
     (let it = t_heap t a
      in if i_parentSub it = []
         then upd_type y (\<lambda>ty. ty\<lparr>y_count := y_count ty + 1,
                y_length := (if i_countable it \<and> \<not> i_deleted it then y_length ty + i_length it else y_length ty)\<rparr>) t
         else t)"

definition integrateStruct :: "nat \<Rightarrow> addr \<Rightarrow> Number \<Rightarrow> trans \<Rightarrow> (go_error + trans) option" where
  "integrateStruct n a offset t = do {
     t1 \<leftarrow> cutOffset a offset t;
     (case i_parent (t_heap t1 a) of
        NoParent \<Rightarrow> Some (gcIntegrate (i_id (t_heap t1 a)) (i_length (t_heap t1 a)) 0 t1)
      | ParentType y \<Rightarrow> do {
          lft \<leftarrow> resolveLeft (t_heap t1 a) y t1;
          t2 \<leftarrow> linkItem a y (upd_item a (\<lambda>i. i\<lparr>i_left := lft\<rparr>) t1);
          t3 \<leftarrow> settleEntry n a y t2;
          (case addStruct (SItem a) (countItem a y t3) of
             Inl e \<Rightarrow> Some (Inl e)
           | Inr t4 \<Rightarrow>
               let t5 = integrateContent a t4;
                   parentDeleted = (case y_item (t_types t5 y) of None \<Rightarrow> False | Some p \<Rightarrow> i_deleted (t_heap t5 p))
               in if parentDeleted \<or> i_parentSub (t_heap t5 a) \<noteq> [] \<and> i_right (t_heap t5 a) \<noteq> None
                  then (case deleteItemStruct n a t5 of None \<Rightarrow> None | Some t6 \<Rightarrow> Some (Inr t6))
                  else Some (Inr t5))
        }
      | _ \<Rightarrow> None)
   }"

subsection \<open>Dependencies\<close>

definition awaits :: "trans \<Rightarrow> item \<Rightarrow> ID option \<Rightarrow> Number option" where
  "awaits t it r =
     (case r of
        None \<Rightarrow> None
      | Some ident \<Rightarrow>
          if id_Client ident \<noteq> id_Client (i_id it) \<and> id_Clock ident \<ge> getState t (id_Client ident)
          then Some (id_Client ident) else None)"

definition resolveOrigin :: "addr \<Rightarrow> trans \<Rightarrow> trans option" where
  "resolveOrigin a t =
     (case i_origin (t_heap t a) of
        None \<Rightarrow> Some t
      | Some ident \<Rightarrow>
          map_option (\<lambda>(l, s). upd_item a (\<lambda>i. case l of
              Some b \<Rightarrow> i\<lparr>i_left := l, i_origin := Some (lastID (t_heap s b))\<rparr>
            | None \<Rightarrow> i\<lparr>i_left := None, i_origin := None, i_parent := NoParent\<rparr>) s)
            (getItemCleanEnd ident t))"

definition resolveRightOrigin :: "addr \<Rightarrow> trans \<Rightarrow> trans option" where
  "resolveRightOrigin a t =
     (case i_rightOrigin (t_heap t a) of
        None \<Rightarrow> Some t
      | Some ident \<Rightarrow>
          map_option (\<lambda>(r, s). upd_item a (\<lambda>i. case r of
              Some b \<Rightarrow> i\<lparr>i_right := r, i_rightOrigin := Some (i_id (t_heap s b))\<rparr>
            | None \<Rightarrow> i\<lparr>i_right := None, i_rightOrigin := None, i_parent := NoParent\<rparr>) s)
            (getItemCleanStart ident t))"

definition inheritParent :: "addr \<Rightarrow> trans \<Rightarrow> trans" where
  "inheritParent a t =
     (let copy = (\<lambda>r s. case r of
            None \<Rightarrow> s
          | Some b \<Rightarrow> upd_item a (\<lambda>i. i\<lparr>i_parent := i_parent (t_heap s b), i_parentSub := i_parentSub (t_heap s b)\<rparr>) s)
      in copy (i_right (t_heap t a)) (copy (i_left (t_heap t a)) t))"

definition resolveParent :: "addr \<Rightarrow> trans \<Rightarrow> trans" where
  "resolveParent a t =
     (case i_parent (t_heap t a) of
        NoParent \<Rightarrow> inheritParent a t
      | ParentID ident \<Rightarrow>
          (case findItem t ident of
             None \<Rightarrow> upd_item a (\<lambda>i. i\<lparr>i_parent := NoParent\<rparr>) t
           | Some p \<Rightarrow>
               (case i_content (t_heap t p) of
                  CType y \<Rightarrow> upd_item a (\<lambda>i. i\<lparr>i_parent := ParentType y\<rparr>) t
                | _ \<Rightarrow> upd_item a (\<lambda>i. i\<lparr>i_parent := NoParent\<rparr>) t))
      | _ \<Rightarrow> t)"

text \<open>The client whose structs are missing, or the item with its neighbours and its parent resolved.\<close>

definition missingClient :: "addr \<Rightarrow> trans \<Rightarrow> (Number option \<times> trans) option" where
  "missingClient a t =
     (let it = t_heap t a;
          par = (case i_parent it of ParentID ident \<Rightarrow> Some ident | _ \<Rightarrow> None)
      in case awaits t it (i_origin it) of
           Some c \<Rightarrow> Some (Some c, t)
         | None \<Rightarrow>
             (case awaits t it (i_rightOrigin it) of
                Some c \<Rightarrow> Some (Some c, t)
              | None \<Rightarrow>
                  (case awaits t it par of
                     Some c \<Rightarrow> Some (Some c, t)
                   | None \<Rightarrow> do {
                       t1 \<leftarrow> resolveOrigin a t;
                       t2 \<leftarrow> resolveRightOrigin a t1;
                       Some (None, resolveParent a t2)
                     })))"

subsection \<open>Merging, walking and collecting\<close>

text \<open>The right item is merged into the left one it continues; \<open>None\<close> when they do not fit together.\<close>

definition canMergeWith :: "addr \<Rightarrow> addr \<Rightarrow> trans \<Rightarrow> bool" where
  "canMergeWith a ra t =
     (let i = t_heap t a; r = t_heap t ra
      in i_origin r = Some (GenID (id_Client (i_id i)) (id_Clock (i_id i) + i_length i - 1)) \<and> i_right i = Some ra \<and>
         CompareIDs (i_rightOrigin i) (i_rightOrigin r) \<and> id_Client (i_id i) = id_Client (i_id r) \<and>
         id_Clock (i_id i) + i_length i = id_Clock (i_id r) \<and> i_deleted i = i_deleted r \<and>
         i_redone i = None \<and> i_redone r = None \<and> contentRef (i_content i) = contentRef (i_content r))"

definition completeMergeWith :: "addr \<Rightarrow> addr \<Rightarrow> trans \<Rightarrow> trans" where
  "completeMergeWith a ra t =
     (let r = t_heap t ra;
          t1 = upd_item a (\<lambda>i. i\<lparr>i_keep := (i_keep i \<or> i_keep r), i_right := i_right r, i_length := i_length i + i_length r\<rparr>) t;
          t2 = (case i_right r of None \<Rightarrow> t1 | Some rr \<Rightarrow> upd_item rr (\<lambda>i. i\<lparr>i_left := Some a\<rparr>) t1)
      in case i_parent (t_heap t a) of
           ParentType y \<Rightarrow>
             if i_parentSub (t_heap t a) = [] then upd_type y (\<lambda>ty. ty\<lparr>y_count := y_count ty - 1\<rparr>) t2 else t2
         | _ \<Rightarrow> t2)"

definition mergeStructWith :: "addr \<Rightarrow> addr \<Rightarrow> trans \<Rightarrow> trans option" where
  "mergeStructWith a ra t =
     (if canMergeWith a ra t
      then (case mergeContentWith (i_content (t_heap t a)) (i_content (t_heap t ra)) of
              None \<Rightarrow> None
            | Some c \<Rightarrow> Some (completeMergeWith a ra (upd_item a (\<lambda>i. i\<lparr>i_content := c\<rparr>) t)))
      else None)"

definition gcMergeWith :: "struct \<Rightarrow> struct \<Rightarrow> struct option" where
  "gcMergeWith s r = (case (s, r) of (SGC ident len, SGC ident' len') \<Rightarrow> Some (SGC ident (len + len')) | _ \<Rightarrow> None)"

partial_function (option) nextItem :: "(addr \<Rightarrow> item) \<Rightarrow> addr option \<Rightarrow> addr option option" where
  "nextItem h r =
     (case r of None \<Rightarrow> Some None | Some a \<Rightarrow> if i_deleted (h a) then nextItem h (i_right (h a)) else Some (Some a))"

partial_function (option) prevItem :: "(addr \<Rightarrow> item) \<Rightarrow> addr option \<Rightarrow> addr option option" where
  "prevItem h l =
     (case l of None \<Rightarrow> Some None | Some a \<Rightarrow> if i_deleted (h a) then prevItem h (i_left (h a)) else Some (Some a))"

text \<open>The item an id was redone as, with the offset into it.\<close>

partial_function (option) followRedone :: "trans \<Rightarrow> ID \<Rightarrow> Number \<Rightarrow> addr option \<Rightarrow> (addr option \<times> Number) option" where
  "followRedone t next diff acc =
     (let nid = (if diff > 0 then GenID (id_Client next) (id_Clock next + diff) else next)
      in case findItem t nid of
           None \<Rightarrow> Some (acc, diff)
         | Some a \<Rightarrow>
             (case i_redone (t_heap t a) of
                None \<Rightarrow> Some (Some a, id_Clock nid - id_Clock (i_id (t_heap t a)))
              | Some next' \<Rightarrow> followRedone t next' (id_Clock nid - id_Clock (i_id (t_heap t a))) (Some a)))"

partial_function (option) keepItem :: "addr option \<Rightarrow> bool \<Rightarrow> trans \<Rightarrow> trans option" where
  "keepItem r k t =
     (case r of
        None \<Rightarrow> Some t
      | Some a \<Rightarrow>
          if i_keep (t_heap t a) = k then Some t
          else (case i_parent (t_heap t a) of
                  ParentType y \<Rightarrow> keepItem (y_item (t_types t y)) k (upd_item a (\<lambda>i. i\<lparr>i_keep := k\<rparr>) t)
                | _ \<Rightarrow> None))"

text \<open>The items of a key, from its value to the left.\<close>

partial_function (option) itemsLeft :: "(addr \<Rightarrow> item) \<Rightarrow> addr option \<Rightarrow> addr list option" where
  "itemsLeft h r =
     (case r of
        None \<Rightarrow> Some []
      | Some a \<Rightarrow> do { as \<leftarrow> itemsLeft h (i_left (h a)); Some (a # as) })"

fun mapM :: "('a \<Rightarrow> 'b option) \<Rightarrow> 'a list \<Rightarrow> 'b list option" where
  "mapM f [] = Some []"
| "mapM f (x # xs) = do { y \<leftarrow> f x; ys \<leftarrow> mapM f xs; Some (y # ys) }"

text \<open>Collection goes down one level of nesting for each unit of fuel, like deletion; a failing \<^verbatim>\<open>replaceStruct\<close> is ignored.\<close>

primrec gcItem :: "nat \<Rightarrow> addr \<Rightarrow> bool \<Rightarrow> trans \<Rightarrow> trans option" where
  "gcItem 0 a parentGCd t = None"
| "gcItem (Suc n) a parentGCd t =
     (if \<not> i_deleted (t_heap t a) then Some t
      else do {
        t1 \<leftarrow> (case i_content (t_heap t a) of
                 CType y \<Rightarrow> do {
                   children \<leftarrow> itemsFrom (t_heap t) (y_start (t_types t y));
                   entries \<leftarrow> mapM (\<lambda>(k, b). itemsLeft (t_heap t) (Some b)) (y_map (t_types t y));
                   s \<leftarrow> foldM (\<lambda>c s. gcItem n c True s) (children @ concat entries) t;
                   Some (upd_type y (\<lambda>ty. ty\<lparr>y_start := None, y_map := []\<rparr>) s)
                 }
               | _ \<Rightarrow> Some t);
        let it = t_heap t1 a;
        Some (if parentGCd
              then (case replaceStruct (SItem a) (SGC (i_id it) (i_length it)) t1 of Inl e \<Rightarrow> t1 | Inr t2 \<Rightarrow> t2)
              else upd_item a (\<lambda>i. i\<lparr>i_content := CDeleted (i_length i)\<rparr>) t1)
      })"

section \<open>The invariant of the store\<close>

text \<open>Each client's structs follow one another without gap or overlap and none is empty.\<close>

fun structs_ok :: "trans \<Rightarrow> Number \<Rightarrow> Number \<Rightarrow> struct list \<Rightarrow> bool" where
  "structs_ok t c k [] \<longleftrightarrow> True"
| "structs_ok t c k (s # ss) \<longleftrightarrow>
     id_Client (structID t s) = c \<and> id_Clock (structID t s) = k \<and> 0 < structLength t s \<and> structs_ok t c (structEnd t s) ss"

definition store_ok :: "trans \<Rightarrow> bool" where
  "store_ok t \<longleftrightarrow>
     distinct (map fst (t_store t)) \<and>
     list_all (\<lambda>(c, ss). ss \<noteq> [] \<and> structs_ok t c (id_Clock (structID t (hd ss))) ss) (t_store t)"

definition stored :: "trans \<Rightarrow> struct \<Rightarrow> bool" where
  "stored t s \<longleftrightarrow> (case clientStructs t (id_Client (structID t s)) of None \<Rightarrow> False | Some ss \<Rightarrow> s \<in> set ss)"

text \<open>A struct may be added when its client is new or its clock continues the client's last struct.\<close>

definition continues :: "trans \<Rightarrow> struct \<Rightarrow> bool" where
  "continues t s \<longleftrightarrow>
     clientStructs t (id_Client (structID t s)) = None \<or> getState t (id_Client (structID t s)) = id_Clock (structID t s)"

lemma store_okD:
  assumes "store_ok t" "clientStructs t c = Some ss"
  shows "ss \<noteq> []" "structs_ok t c (id_Clock (structID t (hd ss))) ss"
proof -
  have "(c, ss) \<in> set (t_store t)" using assms(2) by (simp add: clientStructs_def map_of_SomeD)
  then have "ss \<noteq> [] \<and> structs_ok t c (id_Clock (structID t (hd ss))) ss"
    using assms(1) by (fastforce simp: store_ok_def list_all_iff)
  then show "ss \<noteq> []" "structs_ok t c (id_Clock (structID t (hd ss))) ss" by simp_all
qed

lemma structs_ok_cong:
  "(\<And>s. s \<in> set ss \<Longrightarrow> structID t' s = structID t s \<and> structLength t' s = structLength t s) \<Longrightarrow>
     structs_ok t' c k ss = structs_ok t c k ss"
  by (induction ss arbitrary: k) (auto simp: structEnd_def)

lemma structs_ok_append:
  "structs_ok t c k (ss @ [s]) \<longleftrightarrow>
     structs_ok t c k ss \<and> id_Client (structID t s) = c \<and> 0 < structLength t s \<and>
     id_Clock (structID t s) = (if ss = [] then k else structEnd t (last ss))"
  by (induction ss arbitrary: k) auto

lemma structs_ok_lower: "structs_ok t c k ss \<Longrightarrow> s \<in> set ss \<Longrightarrow> k \<le> id_Clock (structID t s)"
  by (induction ss arbitrary: k) (fastforce simp: structEnd_def)+

lemma structs_ok_find:
  "structs_ok t c k ss \<Longrightarrow> s \<in> set ss \<Longrightarrow> covers_clock t clock s \<Longrightarrow> find (covers_clock t clock) ss = Some s"
proof (induction ss arbitrary: k)
  case (Cons x ss)
  show ?case
  proof (cases "s = x")
    case False
    then have "s \<in> set ss" using Cons.prems by simp
    then have "structEnd t x \<le> id_Clock (structID t s)" using Cons.prems structs_ok_lower by fastforce
    then have "\<not> covers_clock t clock x" using Cons.prems(3) by (auto simp: covers_clock_def)
    then show ?thesis using Cons.IH [of "structEnd t x"] Cons.prems \<open>s \<in> set ss\<close> by simp
  qed (use Cons.prems in simp)
qed simp

lemma structs_ok_client: "structs_ok t c k ss \<Longrightarrow> s \<in> set ss \<Longrightarrow> id_Client (structID t s) = c \<and> 0 < structLength t s"
  by (induction ss arbitrary: k) auto

text \<open>A stored struct is found by every one of its clocks.\<close>

lemma findStruct_stored:
  assumes "store_ok t" "stored t s" "id_Client ident = id_Client (structID t s)" "covers_clock t (id_Clock ident) s"
  shows "findStruct t ident = Some s"
proof -
  obtain ss where ss: "clientStructs t (id_Client (structID t s)) = Some ss" "s \<in> set ss"
    using assms(2) by (auto simp: stored_def split: option.splits)
  from structs_ok_find [OF store_okD(2) [OF assms(1) ss(1)] ss(2) assms(4)] ss(1) assms(3)
  show ?thesis by (simp add: findStruct_def)
qed

lemma stored_length: "store_ok t \<Longrightarrow> stored t s \<Longrightarrow> 0 < structLength t s"
  by (auto simp: stored_def split: option.splits dest: store_okD(2) structs_ok_client)

lemma findItem_stored:
  assumes "store_ok t" "stored t (SItem a)"
  shows "findItem t (i_id (t_heap t a)) = Some a" "findItem t (lastID (t_heap t a)) = Some a"
proof -
  have "0 < i_length (t_heap t a)" using stored_length [OF assms] by (simp add: structLength_def)
  then have "findStruct t (i_id (t_heap t a)) = Some (SItem a)" "findStruct t (lastID (t_heap t a)) = Some (SItem a)"
    by (auto intro!: findStruct_stored [OF assms] simp: covers_clock_def structEnd_def structID_def structLength_def lastID_def GenID_def)
  then show "findItem t (i_id (t_heap t a)) = Some a" "findItem t (lastID (t_heap t a)) = Some a"
    by (simp_all add: findItem_def)
qed

text \<open>Adding a struct that continues its client keeps the store contiguous and never fails.\<close>

lemma store_ok_iff:
  "store_ok t \<longleftrightarrow>
     distinct (map fst (t_store t)) \<and>
     (\<forall>c ss. clientStructs t c = Some ss \<longrightarrow> ss \<noteq> [] \<and> structs_ok t c (id_Clock (structID t (hd ss))) ss)"
  unfolding store_ok_def clientStructs_def list_all_iff
  by (rule conj_cong [OF refl]) (simp add: Ball_def split_paired_All)

lemma addStruct_ok:
  assumes "store_ok t" "0 < structLength t s" "continues t s"
  defines "c \<equiv> id_Client (structID t s)"
  defines "ss \<equiv> case clientStructs t c of None \<Rightarrow> [] | Some ss \<Rightarrow> ss"
  shows "\<exists>st. addStruct s t = Inr (t\<lparr>t_store := st\<rparr>) \<and> distinct (map fst st) \<and> map_of st = (map_of (t_store t))(c \<mapsto> ss @ [s]) \<and>
    store_ok (t\<lparr>t_store := st\<rparr>)"
proof -
  define st where "st = (if clientStructs t c = None then t_store t @ [(c, [s])] else AList.update c (ss @ [s]) (t_store t))"
  have d: "distinct (map fst (t_store t))" using assms(1) by (simp add: store_ok_def)
  have old: "ss \<noteq> [] \<and> structs_ok t c (id_Clock (structID t (hd ss))) ss \<and> structEnd t (last ss) = id_Clock (structID t s)"
    if "clientStructs t c \<noteq> None"
    using that store_okD [OF assms(1)] assms(3) by (auto simp: ss_def continues_def getState_def c_def)
  have new: "clientStructs t c = None \<Longrightarrow> ss = []" by (simp add: ss_def)
  have add: "addStruct s t = Inr (t\<lparr>t_store := st\<rparr>)"
    using old by (auto simp: addStruct_def c_def [symmetric] st_def ss_def split: option.splits)
  have dst: "distinct (map fst st)"
  proof (cases "clientStructs t c = None")
    case True
    then show ?thesis using d by (auto simp: st_def clientStructs_def map_of_eq_None_iff)
  qed (auto simp: st_def d distinct_update)
  have m: "map_of st = (map_of (t_store t))(c \<mapsto> ss @ [s])"
  proof (cases "clientStructs t c = None")
    case True
    then show ?thesis using new by (auto simp: st_def clientStructs_def map_add_def fun_eq_iff split: option.splits)
  qed (auto simp: st_def update_conv')
  have "ss @ [s] \<noteq> [] \<and> structs_ok t c (id_Clock (structID t (hd (ss @ [s])))) (ss @ [s])"
    using old new assms(2) by (cases "clientStructs t c = None") (auto simp: structs_ok_append c_def)
  moreover have "structID (t\<lparr>t_store := st\<rparr>) = structID t" "structLength (t\<lparr>t_store := st\<rparr>) = structLength t"
    by (simp_all add: structID_def structLength_def fun_eq_iff split: struct.splits)
  ultimately have "store_ok (t\<lparr>t_store := st\<rparr>)"
    using m dst store_okD [OF assms(1)] structs_ok_cong [of _ "t\<lparr>t_store := st\<rparr>" t]
    by (auto simp: store_ok_iff clientStructs_def)
  with add dst m show ?thesis by blast
qed

end
