(* ===== verification/Integration.thy ===== *)
theory Integration
  imports Items "HOL-Library.Sublist"
begin

text \<open>
  Integration keeps the lists of the shared types (\<^verbatim>\<open>crdt/item.go\<close>, \<^verbatim>\<open>integrateStruct\<close>). The abstraction
  of a type is the list of the addresses of its items; \<open>list_ok\<close> says that the pointers of the store spell
  that list in both directions. Against it: the scan for conflicts ends and picks a position between the two neighbours, the
  links then spell the list with the item inserted there, and items that clients type concurrently at one place
  come out sorted by client, each client's run unbroken, for every order in which they arrive.
\<close>

section \<open>Linked lists\<close>

definition head :: "'a list \<Rightarrow> 'a option \<Rightarrow> 'a option" where
  "head xs n = (case xs of [] \<Rightarrow> n | x # _ \<Rightarrow> Some x)"

definition lastp :: "'a option \<Rightarrow> 'a list \<Rightarrow> 'a option" where
  "lastp p xs = (if xs = [] then p else Some (last xs))"

fun chain :: "(addr \<Rightarrow> item) \<Rightarrow> addr option \<Rightarrow> addr list \<Rightarrow> addr option \<Rightarrow> bool" where
  "chain h p [] n \<longleftrightarrow> True"
| "chain h p (x # xs) n \<longleftrightarrow> i_left (h x) = p \<and> i_right (h x) = head xs n \<and> chain h (Some x) xs n"

definition list_ok :: "trans \<Rightarrow> tid \<Rightarrow> addr list \<Rightarrow> bool" where
  "list_ok t y xs \<longleftrightarrow> distinct xs \<and> y_start (t_types t y) = head xs None \<and> chain (t_heap t) None xs None"

lemma head_simps [simp]: "head [] n = n" "head (x # xs) n = Some x"
  by (simp_all add: head_def)

lemma head_append: "head (xs @ ys) n = head xs (head ys n)"
  by (cases xs) simp_all

lemma head_in: "head xs n = Some a \<Longrightarrow> a \<in> set xs \<or> n = Some a"
  by (cases xs) auto

lemma lastp_simps [simp]: "lastp p [] = p" "lastp p (x # xs) = lastp (Some x) xs" "lastp p (xs @ [x]) = Some x"
  by (simp_all add: lastp_def)

lemma lastp_in: "lastp p xs = Some b \<Longrightarrow> b \<in> set xs \<or> p = Some b"
  by (auto simp: lastp_def split: if_splits)

lemma lastp_append: "lastp p (xs @ ys) = lastp (lastp p xs) ys"
  by (simp add: lastp_def)

lemma chain_append: "chain h p (xs @ ys) n \<longleftrightarrow> chain h p xs (head ys n) \<and> chain h (lastp p xs) ys n"
  by (induction xs arbitrary: p) (auto simp: head_append)

lemma chain_cong:
  "(\<And>x. x \<in> set xs \<Longrightarrow> i_left (h x) = i_left (h' x) \<and> i_right (h x) = i_right (h' x)) \<Longrightarrow> chain h p xs n = chain h' p xs n"
  by (induction xs arbitrary: p) auto

lemma chain_fun_upd [simp]: "x \<notin> set xs \<Longrightarrow> chain (h(x := i)) p xs n = chain h p xs n"
  by (rule chain_cong) auto

lemma chain_redirect_left:
  assumes "chain h p (x # xs) n" "x \<notin> set xs"
  shows "chain (h(x := (h x)\<lparr>i_left := q\<rparr>)) q (x # xs) n"
  using assms by simp

lemma chain_redirect_right:
  assumes "chain h p (xs @ [x]) n" "x \<notin> set xs"
  shows "chain (h(x := (h x)\<lparr>i_right := m\<rparr>)) p (xs @ [x]) m"
  using assms by (simp add: chain_append)

text \<open>Walking a list gives its items.\<close>

lemma itemsFrom_chain: "chain h p xs None \<Longrightarrow> itemsFrom h (head xs None) = Some xs"
proof (induction xs arbitrary: p)
  case (Cons x xs)
  then have "itemsFrom h (i_right (h x)) = Some xs" using Cons.IH [of "Some x"] by simp
  then show ?case by (subst itemsFrom.simps) simp
qed (simp add: itemsFrom.simps)

lemma leftmost_chain: "chain h None (xs @ [x]) n \<Longrightarrow> leftmost h (Some x) = Some (head (xs @ [x]) None)"
proof (induction xs arbitrary: x n rule: rev_induct)
  case (snoc b xs)
  then have "i_left (h x) = Some b" by (simp add: chain_append)
  moreover have "leftmost h (Some b) = Some (head (xs @ [b]) None)" using snoc by (simp add: chain_append)
  ultimately show ?case by (subst leftmost.simps) (simp add: head_append)
qed (simp add: leftmost.simps)

section \<open>The conflict sets\<close>

text \<open>The four inline slots and the overflow map together are a set.\<close>

definition is_set :: "itemSet \<Rightarrow> addr set" where
  "is_set s = (case is_overflow s of Some m \<Rightarrow> set m | None \<Rightarrow> set (is_inline s))"

lemma is_set_simps [simp]:
  "is_set emptyItemSet = {}"
  "is_set (itemSet_Add a s) = insert a (is_set s)"
  "is_set (itemSet_Reset s) = {}"
  "itemSet_Has a s \<longleftrightarrow> a \<in> is_set s"
  by (auto simp: is_set_def emptyItemSet_def itemSet_Add_def itemSet_Reset_def itemSet_Has_def split: option.splits)

section \<open>The scan\<close>

text \<open>It stops at the right neighbour at the latest, and answers the left neighbour or an item it passed.\<close>

lemma conflictScan_between:
  assumes "chain h p (A @ B) None" "i_right it = head B None" "distinct (A @ B)"
  shows "\<exists>C D. A = C @ D \<and> conflictScan h lookup it (head (A @ B) None) q cf bf = Some (lastp q C)"
  using assms
proof (induction A arbitrary: p q cf bf)
  case Nil
  then show ?case by (subst conflictScan.simps) (auto split: option.splits)
next
  case (Cons x A)
  let ?rest = "conflictScan h lookup it (head (A @ B) None)"
  have nx: "i_right (h x) = head (A @ B) None" and ne: "Some x \<noteq> i_right it"
    using Cons.prems head_in [of B None x] by auto
  have ih: "\<exists>C D. x # A = C @ D \<and> ?rest (Some x) cf' bf' = Some (lastp q C)" for cf' bf'
  proof -
    obtain C D where "A = C @ D" "?rest (Some x) cf' bf' = Some (lastp (Some x) C)"
      using Cons.IH [of "Some x" "Some x" cf' bf'] Cons.prems by auto
    then show ?thesis by (intro exI [of _ "x # C"] exI [of _ D]) simp
  qed
  have skip: "\<exists>C D. x # A = C @ D \<and> ?rest q cf' bf' = Some (lastp q C)" for cf' bf'
  proof -
    obtain C D where cd: "A = C @ D" "?rest q cf' bf' = Some (lastp q C)"
      using Cons.IH [of "Some x" q cf' bf'] Cons.prems by auto
    show ?thesis
    proof (cases C)
      case Nil
      with cd show ?thesis by (intro exI [of _ "[]"] exI [of _ "x # A"]) simp
    next
      case (Cons c cs)
      with cd show ?thesis by (intro exI [of _ "x # C"] exI [of _ D]) (simp add: lastp_def)
    qed
  qed
  have stop: "\<exists>C D. x # A = C @ D \<and> Some q = Some (lastp q C)"
    by (intro exI [of _ "[]"] exI [of _ "x # A"]) simp
  show ?case using ne ih skip stop
    by (subst conflictScan.simps) (simp add: nx Let_def split: option.splits)
qed

section \<open>Linking\<close>

text \<open>The part of an item that its neighbours do not determine, and what relinking leaves alone.\<close>

definition core :: "item \<Rightarrow> item" where
  "core i = i\<lparr>i_left := None, i_right := None\<rparr>"

definition relinked :: "tid \<Rightarrow> addr set \<Rightarrow> trans \<Rightarrow> trans \<Rightarrow> bool" where
  "relinked y M t t' \<longleftrightarrow>
     (\<forall>b. core (t_heap t' b) = core (t_heap t b)) \<and> (\<forall>b. b \<notin> M \<longrightarrow> t_heap t' b = t_heap t b) \<and>
     (\<exists>s. t_types t' = (t_types t)(y := (t_types t y)\<lparr>y_start := s\<rparr>)) \<and>
     t_next t' = t_next t \<and> t_store t' = t_store t \<and> t_deleteSet t' = t_deleteSet t \<and>
     t_mergeStructs t' = t_mergeStructs t \<and> t_beforeState t' = t_beforeState t"

lemma core_upd [simp]: "core (i\<lparr>i_left := l\<rparr>) = core i" "core (i\<lparr>i_right := r\<rparr>) = core i"
  by (simp_all add: core_def)

lemma core_sel [simp]:
  "i_id (core i) = i_id i" "i_length (core i) = i_length i" "i_origin (core i) = i_origin i"
  "i_rightOrigin (core i) = i_rightOrigin i" "i_parent (core i) = i_parent i" "i_parentSub (core i) = i_parentSub i"
  "i_content (core i) = i_content i" "i_deleted (core i) = i_deleted i" "i_countable (core i) = i_countable i"
  by (simp_all add: core_def)

lemma core_eqD:
  assumes "core i = core j"
  shows "i_id i = i_id j" "i_length i = i_length j" "i_origin i = i_origin j" "i_rightOrigin i = i_rightOrigin j"
    "i_parent i = i_parent j" "i_parentSub i = i_parentSub j" "i_content i = i_content j" "i_deleted i = i_deleted j"
    "i_countable i = i_countable j"
  using arg_cong [OF assms, of i_id] arg_cong [OF assms, of i_length] arg_cong [OF assms, of i_origin]
    arg_cong [OF assms, of i_rightOrigin] arg_cong [OF assms, of i_parent] arg_cong [OF assms, of i_parentSub]
    arg_cong [OF assms, of i_content] arg_cong [OF assms, of i_deleted] arg_cong [OF assms, of i_countable]
  by simp_all

lemma linkItem_inserts:
  assumes "list_ok t y (ys @ zs)" "a \<notin> set (ys @ zs)" "i_left (t_heap t a) = lastp None ys" "i_parentSub (t_heap t a) = []"
  shows "\<exists>t'. linkItem a y t = Some t' \<and> list_ok t' y (ys @ a # zs) \<and> relinked y (insert a (set (ys @ zs))) t t'"
proof -
  define h where "h = t_heap t"
  have d: "distinct ys" "distinct zs" "set ys \<inter> set zs = {}" "a \<notin> set ys" "a \<notin> set zs"
    and ch: "chain h None ys (head zs None)" "chain h (lastp None ys) zs None"
    and st: "y_start (t_types t y) = head (ys @ zs) None" and la: "i_left (h a) = lastp None ys" "i_parentSub (h a) = []"
    using assms by (auto simp: list_ok_def chain_append h_def)
  define h1 where "h1 = h(a := (h a)\<lparr>i_right := head zs None\<rparr>)"
  define h2 where "h2 = (case lastp None ys of None \<Rightarrow> h1 | Some l \<Rightarrow> h1(l := (h1 l)\<lparr>i_right := Some a\<rparr>))"
  define h3 where "h3 = (case zs of [] \<Rightarrow> h2 | r # _ \<Rightarrow> h2(r := (h2 r)\<lparr>i_left := Some a\<rparr>))"
  define ty where "ty = (if ys = [] then (t_types t)(y := (t_types t y)\<lparr>y_start := Some a\<rparr>) else t_types t)"
  have h2: "chain h2 None (ys @ [a]) (head zs None)" "chain h2 (lastp None ys) zs None"
  proof -
    show "chain h2 (lastp None ys) zs None"
      using ch(2) d by (cases ys rule: rev_cases) (auto simp: h2_def h1_def)
    show "chain h2 None (ys @ [a]) (head zs None)"
      using ch(1) d la by (cases ys rule: rev_cases) (auto simp: h2_def h1_def chain_append)
  qed
  have h3: "chain h3 None (ys @ a # zs) None"
    using h2 d by (cases zs) (auto simp: h3_def chain_append)
  have ty: "\<exists>s. ty = (t_types t)(y := (t_types t y)\<lparr>y_start := s\<rparr>)"
    by (rule exI [of _ "if ys = [] then Some a else y_start (t_types t y)"]) (simp add: ty_def)
  show ?thesis
  proof (intro exI conjI)
    show "linkItem a y t = Some (t\<lparr>t_heap := h3, t_types := ty\<rparr>)"
      using la ch(1) d st h3
      by (cases ys rule: rev_cases; cases zs)
        (simp_all add: linkItem_def h3_def h2_def h1_def ty_def upd_item_def upd_type_def chain_append fun_upd_twist
          h_def [symmetric])
    show "list_ok (t\<lparr>t_heap := h3, t_types := ty\<rparr>) y (ys @ a # zs)"
      using h3 d st by (cases ys) (auto simp: list_ok_def ty_def)
    show "relinked y (insert a (set (ys @ zs))) t (t\<lparr>t_heap := h3, t_types := ty\<rparr>)"
      using ty by (cases ys rule: rev_cases; cases zs)
        (auto simp: relinked_def h3_def h2_def h1_def h_def [symmetric])
  qed
qed

section \<open>Integration of a list item\<close>

definition vis :: "item \<Rightarrow> Number" where
  "vis i = (if i_countable i \<and> \<not> i_deleted i then i_length i else 0)"

text \<open>The list of a type with its two counters: linked items, and the length of what is visible.\<close>

definition type_ok :: "trans \<Rightarrow> tid \<Rightarrow> addr list \<Rightarrow> bool" where
  "type_ok t y xs \<longleftrightarrow>
     list_ok t y xs \<and> y_count (t_types t y) = int (length xs) \<and>
     y_length (t_types t y) = sum_list (map (\<lambda>x. vis (t_heap t x)) xs)"

lemma type_okD: "type_ok t y xs \<Longrightarrow> list_ok t y xs"
  by (simp add: type_ok_def)

lemma type_ok_upd_item: "a \<notin> set xs \<Longrightarrow> type_ok (upd_item a f t) y xs = type_ok t y xs"
proof -
  assume a: "a \<notin> set xs"
  then have m: "map (\<lambda>x. vis (t_heap (upd_item a f t) x)) xs = map (\<lambda>x. vis (t_heap t x)) xs" by auto
  show ?thesis using a unfolding type_ok_def list_ok_def m by simp
qed

lemma resolveLeft_between:
  assumes "list_ok t y (pre @ mid @ post)" "i_left it = lastp None pre" "i_right it = head post None" "i_parentSub it = []"
  shows "\<exists>C D. mid = C @ D \<and> resolveLeft it y t = Some (lastp None (pre @ C))"
proof (cases "(i_left it = None \<and> (case i_right it of None \<Rightarrow> True | Some r \<Rightarrow> i_left (t_heap t r) \<noteq> None)) \<or>
         (case i_left it of None \<Rightarrow> False | Some l \<Rightarrow> i_right (t_heap t l) \<noteq> i_right it)")
  case True
  have ch: "chain (t_heap t) None pre (head (mid @ post) None)" "chain (t_heap t) (lastp None pre) (mid @ post) None"
    and d: "distinct (mid @ post)" and st: "y_start (t_types t y) = head (pre @ mid @ post) None"
    using assms(1) by (simp_all add: list_ok_def chain_append head_append)
  have fc: "firstConflict it y t = Some (head (mid @ post) None)"
    using assms(2,4) ch(1) st by (cases pre rule: rev_cases) (simp_all add: firstConflict_def chain_append)
  obtain C D where "mid = C @ D"
    "conflictScan (t_heap t) (findItem t) it (head (mid @ post) None) (i_left it) emptyItemSet emptyItemSet = Some (lastp (i_left it) C)"
    using conflictScan_between [OF ch(2) assms(3) d] by blast
  then show ?thesis using True fc assms(2) by (auto simp: resolveLeft_def lastp_append)
next
  case False
  then have "resolveLeft it y t = Some (lastp None (pre @ []))" unfolding resolveLeft_def if_not_P [OF False] using assms(2) by simp
  then show ?thesis by blast
qed

text \<open>What an item keeps for good, and what the integration of the item at \<open>a\<close> changes.\<close>

definition fixed :: "item \<Rightarrow> item" where
  "fixed i = (core i)\<lparr>i_deleted := False\<rparr>"

definition integrated :: "tid \<Rightarrow> addr set \<Rightarrow> addr \<Rightarrow> trans \<Rightarrow> trans \<Rightarrow> bool" where
  "integrated y M a t t' \<longleftrightarrow>
     (\<forall>b. fixed (t_heap t' b) = fixed (t_heap t b)) \<and>
     (\<forall>b. b \<noteq> a \<longrightarrow> core (t_heap t' b) = core (t_heap t b)) \<and>
     (\<forall>b. b \<notin> M \<longrightarrow> t_heap t' b = t_heap t b) \<and>
     (\<forall>z. z \<noteq> y \<and> i_content (t_heap t a) \<noteq> CType z \<longrightarrow> t_types t' z = t_types t z) \<and>
     y_item (t_types t' y) = y_item (t_types t y) \<and> t_next t' = t_next t \<and>
     map_of (t_store t') = (map_of (t_store t))(id_Client (i_id (t_heap t a)) \<mapsto>
       (case clientStructs t (id_Client (i_id (t_heap t a))) of None \<Rightarrow> [] | Some ss \<Rightarrow> ss) @ [SItem a])"

definition live_type :: "trans \<Rightarrow> tid \<Rightarrow> bool" where
  "live_type t y \<longleftrightarrow> (case y_item (t_types t y) of None \<Rightarrow> True | Some p \<Rightarrow> \<not> i_deleted (t_heap t p))"

text \<open>An item that may be integrated into the list of \<open>y\<close>.\<close>

definition fresh_item :: "trans \<Rightarrow> tid \<Rightarrow> addr \<Rightarrow> bool" where
  "fresh_item t y a \<longleftrightarrow>
     (let it = t_heap t a in
      i_parent it = ParentType y \<and> i_parentSub it = [] \<and> 0 < i_length it \<and> \<not> i_deleted it \<and>
      i_countable it = isCountable (i_content it) \<and> i_content it \<noteq> CType y \<and> y_item (t_types t y) \<noteq> Some a)"

lemma fixed_core: "core i = core j \<Longrightarrow> fixed i = fixed j"
  by (simp add: fixed_def)

lemma fixed_deleted [simp]: "fixed (i\<lparr>i_deleted := d\<rparr>) = fixed i"
  by (simp add: fixed_def core_def)

lemma store_ok_cong:
  assumes "\<And>b. i_id (t_heap t' b) = i_id (t_heap t b) \<and> i_length (t_heap t' b) = i_length (t_heap t b)" "t_store t' = t_store t"
  shows "store_ok t' = store_ok t"
proof -
  have "structID t' = structID t" "structLength t' = structLength t"
    using assms(1) by (simp_all add: structID_def structLength_def fun_eq_iff split: struct.splits)
  then show ?thesis using assms(2) structs_ok_cong [of _ t' t] by (simp add: store_ok_def)
qed

lemma integrateStruct_list:
  assumes "type_ok t y (pre @ mid @ post)" "store_ok t" "a \<notin> set (pre @ mid @ post)"
    "fresh_item t y a" "live_type t y" "continues t (SItem a)"
    "i_left (t_heap t a) = lastp None pre" "i_right (t_heap t a) = head post None"
  shows "\<exists>t' C D. mid = C @ D \<and> resolveLeft (t_heap t a) y t = Some (lastp None (pre @ C)) \<and>
    integrateStruct n a 0 t = Some (Inr t') \<and> type_ok t' y (pre @ C @ a # D @ post) \<and>
    store_ok t' \<and> live_type t' y \<and> integrated y (insert a (set (pre @ mid @ post))) a t t'"
proof -
  let ?it = "t_heap t a" and ?xs = "pre @ mid @ post" and ?cl = "id_Client (i_id (t_heap t a))"
  have f: "i_parent ?it = ParentType y" "i_parentSub ?it = []" "0 < i_length ?it" "\<not> i_deleted ?it"
    "i_countable ?it = isCountable (i_content ?it)" "i_content ?it \<noteq> CType y" "y_item (t_types t y) \<noteq> Some a"
    using assms(4) by (simp_all add: fresh_item_def Let_def)
  have lo: "list_ok t y ?xs" using assms(1) by (rule type_okD)
  obtain C D where mid: "mid = C @ D" and rl: "resolveLeft ?it y t = Some (lastp None (pre @ C))"
    using resolveLeft_between [OF lo assms(7,8) f(2)] by blast
  define t1 where "t1 = upd_item a (\<lambda>i. i\<lparr>i_left := lastp None (pre @ C)\<rparr>) t"
  have lo1: "list_ok t1 y ((pre @ C) @ (D @ post))"
    using lo assms(3) mid by (simp add: list_ok_def t1_def)
  obtain t2 where link: "linkItem a y t1 = Some t2" and lo2: "list_ok t2 y ((pre @ C) @ a # D @ post)"
    and rel: "relinked y (insert a (set ((pre @ C) @ D @ post))) t1 t2"
    using linkItem_inserts [OF lo1, of a] assms(3) mid f(2) by (auto simp: t1_def)
  have core2: "core (t_heap t2 b) = core (t_heap t b)" for b
    using rel by (simp add: relinked_def t1_def)
  note sel2 = core_eqD [OF core2]
  obtain st0 where ty2: "t_types t2 = (t_types t)(y := (t_types t y)\<lparr>y_start := st0\<rparr>)"
    using rel by (auto simp: relinked_def t1_def)
  have st2: "t_store t2 = t_store t" "t_next t2 = t_next t" and out2: "b \<notin> insert a (set ?xs) \<Longrightarrow> t_heap t2 b = t_heap t b" for b
    using rel mid by (auto simp: relinked_def t1_def)
  define t3 where "t3 = countItem a y t2"
  have h3: "t_heap t3 = t_heap t2" "t_store t3 = t_store t" "t_next t3 = t_next t"
    by (simp_all add: t3_def countItem_def Let_def st2)
  have ty3: "t_types t3 = (t_types t2)(y := (t_types t2 y)\<lparr>y_count := y_count (t_types t2 y) + 1,
      y_length := y_length (t_types t2 y) + vis ?it\<rparr>)"
    by (simp add: t3_def countItem_def Let_def f sel2 vis_def)
  have settle: "settleEntry n a y t2 = Some t2" by (simp add: settleEntry_def Let_def sel2 f)
  have so3: "store_ok t3" using assms(2) store_ok_cong [of t3 t] by (simp add: h3 sel2)
  have c3: "continues t3 (SItem a)" "clientStructs t3 = clientStructs t" "structID t3 (SItem a) = i_id ?it"
    using assms(6) by (simp_all add: continues_def getState_def structEnd_def structID_def structLength_def clientStructs_def
        h3 sel2 fun_eq_iff split: option.splits struct.splits)
  obtain st where add: "addStruct (SItem a) t3 = Inr (t3\<lparr>t_store := st\<rparr>)" and so4: "store_ok (t3\<lparr>t_store := st\<rparr>)"
    and mst: "map_of st = (map_of (t_store t))(?cl \<mapsto> (case clientStructs t ?cl of None \<Rightarrow> [] | Some ss \<Rightarrow> ss) @ [SItem a])"
    using addStruct_ok [OF so3 _ c3(1)] f(3) by (auto simp: c3 h3 structLength_def sel2)
  define t5 where "t5 = integrateContent a (t3\<lparr>t_store := st\<rparr>)"
  have h5: "t_heap t5 = (if \<exists>n. i_content ?it = CDeleted n then (t_heap t2)(a := (t_heap t2 a)\<lparr>i_deleted := True\<rparr>) else t_heap t2)"
    and ty5: "t_types t5 = (case i_content ?it of CType z \<Rightarrow> (t_types t3)(z := (t_types t3 z)\<lparr>y_item := Some a\<rparr>) | _ \<Rightarrow> t_types t3)"
    and st5: "t_store t5 = st" "t_next t5 = t_next t"
    by (simp_all add: t5_def integrateContent_def Let_def h3 sel2 split: content.splits)
  have ty5y: "t_types t5 y = t_types t3 y" using f(6) by (simp add: ty5 split: content.splits)
  have live: "live_type t5 y"
    using assms(5) f(7) by (auto simp: live_type_def ty5y ty3 ty2 h5 sel2 split: option.splits)
  have pd: "(case y_item (t_types t5 y) of None \<Rightarrow> False | Some p \<Rightarrow> i_deleted (t_heap t5 p)) = False"
    using live by (simp add: live_type_def split: option.splits)
  have ps: "i_parentSub (t_heap t5 a) = []" using f(2) by (simp add: h5 sel2)
  have run: "integrateStruct n a 0 t = Some (Inr t5)"
    using f(1) rl link settle add
    by (simp add: integrateStruct_def cutOffset_def t1_def [symmetric] t3_def [symmetric] t5_def [symmetric] Let_def pd ps)
  have "type_ok t5 y (pre @ C @ a # D @ post)"
  proof -
    have links: "i_left (t_heap t5 b) = i_left (t_heap t2 b) \<and> i_right (t_heap t5 b) = i_right (t_heap t2 b)" for b
      by (simp add: h5)
    have v: "vis (t_heap t5 b) = vis (t_heap t b)" for b using f(5) by (auto simp: h5 vis_def sel2)
    show ?thesis using lo2 assms(1) mid
      by (simp add: type_ok_def list_ok_def chain_cong [OF links] ty5y ty3 ty2 v)
  qed
  moreover have "store_ok t5"
    using so4 store_ok_cong [of t5 "t3\<lparr>t_store := st\<rparr>"] by (simp add: h5 h3 st5)
  moreover have "integrated y (insert a (set ?xs)) a t t5"
    using core2 fixed_core [OF core2] out2 mst ty2 f(6)
    by (auto simp: integrated_def h5 st5 ty5 ty5y ty3 split: content.splits)
  ultimately show ?thesis using mid rl run live by blast
qed

end
