(* ===== verification/Convergence.thy ===== *)
theory Convergence
  imports Integration "HOL-Library.Multiset"
begin

text \<open>
  Concurrent typing converges. Several clients insert runs of items into the same gap of a list, each item with the previous
  item of its client as its origin; the items arrive at a replica in any order that keeps every client's own order. However
  they arrive, the gap holds the items sorted by client with every run in its own order: no run is interleaved with another.
\<close>

section \<open>Scanning runs\<close>

definition client_of :: "(addr \<Rightarrow> item) \<Rightarrow> addr \<Rightarrow> Number" where
  "client_of h b = id_Client (i_id (h b))"

text \<open>The origin of an item whose left neighbour at insertion was \<open>l\<close>.\<close>

definition originAt :: "(addr \<Rightarrow> item) \<Rightarrow> addr option \<Rightarrow> ID option" where
  "originAt h l = map_option (\<lambda>b. lastID (h b)) l"

text \<open>Runs: an item continues the one before it when that has the same client, and starts a new run at \<open>l\<close> otherwise.\<close>

fun grouped :: "(addr \<Rightarrow> item) \<Rightarrow> addr option \<Rightarrow> addr option \<Rightarrow> addr list \<Rightarrow> bool" where
  "grouped h l p [] \<longleftrightarrow> True"
| "grouped h l p (x # xs) \<longleftrightarrow>
     i_origin (h x) = originAt h (case p of Some b \<Rightarrow> if client_of h b = client_of h x then p else l | None \<Rightarrow> l) \<and>
     grouped h l (Some x) xs"

lemma CompareIDs_eq [simp]: "CompareIDs a b \<longleftrightarrow> a = b"
  by (auto simp: CompareIDs_def split: option.splits)

lemma grouped_append: "grouped h l p (xs @ ys) \<longleftrightarrow> grouped h l p xs \<and> grouped h l (lastp p xs) ys"
  by (induction xs arbitrary: p) auto

lemma grouped_cong:
  assumes "\<And>b. i_id (h' b) = i_id (h b) \<and> i_length (h' b) = i_length (h b) \<and> i_origin (h' b) = i_origin (h b)"
  shows "grouped h' l p xs = grouped h l p xs"
proof -
  have "lastID (h' b) = lastID (h b)" for b using assms [of b] by (simp add: lastID_def)
  then have "originAt h' = originAt h" by (simp add: originAt_def fun_eq_iff)
  moreover have "client_of h' = client_of h" using assms by (simp add: client_of_def fun_eq_iff)
  ultimately show ?thesis using assms by (induction xs arbitrary: p) (simp_all split: option.splits)
qed

lemma grouped_restart:
  "(\<And>b x. p = Some b \<Longrightarrow> x \<in> set xs \<Longrightarrow> client_of h b \<noteq> client_of h x) \<Longrightarrow>
   (\<And>b x. q = Some b \<Longrightarrow> x \<in> set xs \<Longrightarrow> client_of h b \<noteq> client_of h x) \<Longrightarrow> grouped h l p xs = grouped h l q xs"
  by (cases xs) (auto split: option.splits)

text \<open>A new run passes the runs of the smaller clients and stops before the larger ones.\<close>

lemma conflictScan_new_run:
  assumes "chain h q (A @ B @ post) None" "distinct (A @ B @ post)" "i_right it = head post None"
    "i_origin it = originAt h l" "grouped h l p (A @ B)"
    "\<And>x. x \<in> set A \<Longrightarrow> client_of h x < id_Client (i_id it)" "\<And>x. x \<in> set B \<Longrightarrow> id_Client (i_id it) < client_of h x"
    "\<And>x. x \<in> set B \<Longrightarrow> i_rightOrigin (h x) = i_rightOrigin it"
    "\<And>b. b \<in> set A \<or> p = Some b \<Longrightarrow> lookup (lastID (h b)) = Some b"
    "is_set cf = {}" "\<And>b. p = Some b \<Longrightarrow> b \<in> is_set bf \<and> b \<notin> set A \<and> client_of h b < id_Client (i_id it)"
  shows "conflictScan h lookup it (head (A @ B @ post) None) lft cf bf = Some (lastp lft A)"
  using assms
proof (induction A arbitrary: p q lft cf bf)
  case Nil
  show ?case
  proof (cases B)
    case Nil
    with \<open>i_right it = head post None\<close> show ?thesis by (subst conflictScan.simps) (simp split: option.splits)
  next
    case (Cons b bs)
    have "Some b \<noteq> i_right it" using Nil.prems(2,3) Cons head_in [of post None b] by auto
    moreover have "i_origin (h b) = i_origin it"
      using Nil.prems(4,5,11) Nil.prems(7) [of b] Cons by (auto split: option.splits if_splits)
    ultimately show ?thesis using Nil.prems(7,8) [of b] Cons
      by (subst conflictScan.simps) (auto simp: Let_def client_of_def)
  qed
next
  case (Cons x A)
  let ?cf = "itemSet_Reset (itemSet_Add x cf)" and ?bf = "itemSet_Add x bf"
  have ne: "Some x \<noteq> i_right it" using Cons.prems(2,3) head_in [of post None x] by auto
  have nx: "i_right (h x) = head (A @ B @ post) None" using Cons.prems(1) by simp
  have ih: "conflictScan h lookup it (head (A @ B @ post) None) (Some x) ?cf ?bf = Some (lastp (Some x) A)"
    using Cons.prems by (intro Cons.IH [of "Some x" "Some x"]) auto
  have cl: "id_Client (i_id (h x)) < id_Client (i_id it)" using Cons.prems(6) [of x] by (simp add: client_of_def)
  have org: "i_origin (h x) = i_origin it \<or> (\<exists>b. p = Some b \<and> i_origin (h x) = Some (lastID (h b)))"
    using Cons.prems(4,5) by (auto simp: originAt_def split: option.splits if_splits)
  show ?case
  proof (cases "i_origin (h x) = i_origin it")
    case True
    then show ?thesis using ne nx cl ih by (subst conflictScan.simps) (simp add: Let_def)
  next
    case False
    with org obtain b where b: "p = Some b" "i_origin (h x) = Some (lastID (h b))" by blast
    have "lookup (lastID (h b)) = Some b" "b \<in> is_set bf" "b \<noteq> x" using Cons.prems(9,11) b by auto
    then show ?thesis using ne nx False b(2) ih Cons.prems(10) by (subst conflictScan.simps) (simp add: Let_def)
  qed
qed

text \<open>The next item of a run goes right behind it.\<close>

lemma conflictScan_next:
  assumes "distinct (B @ post)" "i_right it = head post None" "grouped h l (Some p) B"
    "\<And>x. x \<in> set B \<Longrightarrow> client_of h p \<noteq> client_of h x" "i_origin it \<noteq> originAt h l"
    "\<And>b. l = Some b \<Longrightarrow> lookup (lastID (h b)) = Some b \<and> b \<notin> set B"
  shows "conflictScan h lookup it (head (B @ post) None) lft emptyItemSet emptyItemSet = Some lft"
proof (cases B)
  case Nil
  with assms(2) show ?thesis by (subst conflictScan.simps) (simp split: option.splits)
next
  case (Cons b bs)
  have "Some b \<noteq> i_right it" using assms(1,2) Cons head_in [of post None b] by auto
  moreover have "i_origin (h b) = originAt h l" using assms(3,4) Cons by auto
  ultimately show ?thesis using assms(5,6) Cons
    by (subst conflictScan.simps) (auto simp: Let_def originAt_def split: option.splits)
qed

section \<open>Sorting by client\<close>

lemma sorted_split:
  "sorted (map f xs) \<Longrightarrow> xs = filter (\<lambda>x. f x < c) xs @ filter (\<lambda>x. f x = c) xs @ filter (\<lambda>x. c < f x) xs" for f :: "'a \<Rightarrow> 'b::linorder"
proof (induction xs)
  case (Cons x xs)
  then have ih: "xs = filter (\<lambda>x. f x < c) xs @ filter (\<lambda>x. f x = c) xs @ filter (\<lambda>x. c < f x) xs"
    and le: "\<And>y. y \<in> set xs \<Longrightarrow> f x \<le> f y" by auto
  consider "f x < c" | "f x = c" | "c < f x" by (rule linorder_cases)
  then show ?case
  proof cases
    case 2
    then have "filter (\<lambda>x. f x < c) xs = []" using le by (auto simp: filter_empty_conv not_less)
    then show ?thesis using ih 2 by simp
  next
    case 3
    then have "filter (\<lambda>x. f x < c) xs = []" "filter (\<lambda>x. f x = c) xs = []"
      using le by (fastforce simp: filter_empty_conv)+
    then show ?thesis using ih 3 by simp
  qed (use ih in auto)
qed simp

lemma sort_key_split:
  "sort_key f xs = sort_key f (filter (\<lambda>x. f x < c) xs) @ filter (\<lambda>x. f x = c) xs @ sort_key f (filter (\<lambda>x. c < f x) xs)"
  for f :: "'a \<Rightarrow> 'b::linorder"
proof -
  have "filter (\<lambda>x. f x = c) (sort_key f xs) = filter (\<lambda>x. f x = c) xs" by (rule sort_key_stable)
  then show ?thesis using sorted_split [of f "sort_key f xs" c] by (metis filter_sort sorted_sort_key)
qed

text \<open>The sorted list depends on the order within each client only.\<close>

lemma sort_key_cong_runs:
  fixes f :: "'a \<Rightarrow> 'b::linorder"
  assumes runs: "\<And>c. filter (\<lambda>x. f x = c) xs = filter (\<lambda>x. f x = c) ys"
  shows "sort_key f xs = sort_key f ys"
proof (rule properties_for_sort_key)
  have "count (mset ys) x = count (mset xs) x" for x
    using arg_cong [OF runs [of "f x"], of "\<lambda>zs. count (mset zs) x"] by simp
  then show "mset (sort_key f ys) = mset xs" by (simp add: multiset_eq_iff)
  show "filter (\<lambda>x. f k = f x) (sort_key f ys) = filter (\<lambda>x. f k = f x) xs" for k
    using runs [of "f k"] sort_key_stable [of f "f k" ys] by (simp add: eq_commute [of "f k"])
qed simp

section \<open>Delivering an item\<close>

text \<open>The neighbours and the parent are resolved, then the item is integrated.\<close>

definition deliver :: "nat \<Rightarrow> addr \<Rightarrow> trans \<Rightarrow> trans option" where
  "deliver n a t = do {
     (m, t1) \<leftarrow> missingClient a t;
     (case m of
        Some c \<Rightarrow> None
      | None \<Rightarrow> (case integrateStruct n a 0 t1 of Some (Inr t2) \<Rightarrow> Some t2 | _ \<Rightarrow> None))
   }"

definition structs_of :: "trans \<Rightarrow> Number \<Rightarrow> struct list" where
  "structs_of t c = (case clientStructs t c of None \<Rightarrow> [] | Some ss \<Rightarrow> ss)"

lemma stored_structs_of: "stored t s \<longleftrightarrow> s \<in> set (structs_of t (id_Client (structID t s)))"
  by (simp add: stored_def structs_of_def split: option.splits)

lemma structs_ok_upper: "structs_ok t c k ss \<Longrightarrow> s \<in> set ss \<Longrightarrow> structEnd t s \<le> structEnd t (last ss)"
proof (induction ss arbitrary: k)
  case (Cons x ss)
  show ?case
  proof (cases "ss = []")
    case False
    have "structEnd t x \<le> structEnd t (last ss)"
      using Cons.prems False structs_ok_lower [of t c "structEnd t x" ss "last ss"] structs_ok_client [of t c "structEnd t x" ss "last ss"]
      by (auto simp: structEnd_def)
    then show ?thesis using Cons False by auto
  qed (use Cons.prems in simp)
qed simp

lemma stored_below_state:
  assumes "store_ok t" "stored t s"
  shows "structEnd t s \<le> getState t (id_Client (structID t s))"
proof -
  obtain ss where "clientStructs t (id_Client (structID t s)) = Some ss" "s \<in> set ss"
    using assms(2) by (auto simp: stored_def split: option.splits)
  then show ?thesis using structs_ok_upper [OF store_okD(2) [OF assms(1)]] by (simp add: getState_def)
qed

lemma awaits_none:
  assumes "store_ok t" "stored t (SItem b)"
  shows "awaits t it (Some (i_id (t_heap t b))) = None" "awaits t it (Some (lastID (t_heap t b))) = None"
  using stored_below_state [OF assms] stored_length [OF assms]
  by (auto simp: awaits_def lastID_def GenID_def structEnd_def structID_def structLength_def)

text \<open>An item as it comes off the wire for the gap between \<open>l\<close> and \<open>r\<close>: it names its origins, not yet its neighbours.\<close>

definition wired :: "trans \<Rightarrow> tid \<Rightarrow> addr option \<Rightarrow> addr option \<Rightarrow> addr \<Rightarrow> bool" where
  "wired t y l r a \<longleftrightarrow>
     (let it = t_heap t a in
      i_left it = None \<and> i_right it = None \<and> i_parentSub it = [] \<and>
      i_origin it = originAt (t_heap t) l \<and> i_rightOrigin it = map_option (\<lambda>b. i_id (t_heap t b)) r \<and>
      i_parent it = (if l = None \<and> r = None then ParentType y else NoParent))"

definition member_of :: "trans \<Rightarrow> tid \<Rightarrow> addr \<Rightarrow> bool" where
  "member_of t y b \<longleftrightarrow> stored t (SItem b) \<and> i_parent (t_heap t b) = ParentType y \<and> i_parentSub (t_heap t b) = []"

lemma upd_item_cong: "f (t_heap t a) = g (t_heap t a) \<Longrightarrow> upd_item a f t = upd_item a g t"
  by (simp add: upd_item_def)

lemma upd_item_idle: "f (t_heap t a) = t_heap t a \<Longrightarrow> upd_item a f t = t"
  by (simp add: upd_item_def)

lemma upd_item_twice: "upd_item a g (upd_item a f t) = upd_item a (\<lambda>i. g (f i)) t"
  by (simp add: upd_item_def)

lemma findStruct_upd_item:
  assumes "\<And>i. i_id (f i) = i_id i" "\<And>i. i_length (f i) = i_length i"
  shows "findStruct (upd_item a f t) ident = findStruct t ident" "findItem (upd_item a f t) ident = findItem t ident"
proof -
  have "structID (upd_item a f t) = structID t" "structLength (upd_item a f t) = structLength t"
    using assms by (auto simp: structID_def structLength_def fun_eq_iff split: struct.splits)
  then have "covers_clock (upd_item a f t) = covers_clock t" by (simp add: covers_clock_def structEnd_def fun_eq_iff)
  then show "findStruct (upd_item a f t) ident = findStruct t ident"
    by (simp add: findStruct_def clientStructs_def split: option.splits)
  then show "findItem (upd_item a f t) ident = findItem t ident" by (simp add: findItem_def)
qed

lemma resolveOrigin_wired:
  assumes "store_ok t" "i_origin (t_heap t a) = originAt (t_heap t) l" "i_left (t_heap t a) = None"
    "\<And>b. l = Some b \<Longrightarrow> stored t (SItem b)"
  shows "resolveOrigin a t = Some (upd_item a (\<lambda>i. i\<lparr>i_left := l\<rparr>) t)"
proof (cases l)
  case None
  then show ?thesis using assms(2,3) by (simp add: resolveOrigin_def originAt_def upd_item_idle)
next
  case (Some b)
  then have "findStruct t (lastID (t_heap t b)) = Some (SItem b)"
    using findItem_stored(2) [OF assms(1,4)] by (simp add: findItem_def split: option.splits struct.splits)
  then have "getItemCleanEnd (lastID (t_heap t b)) t = Some (Some b, t)"
    by (simp add: getItemCleanEnd_def) (simp add: lastID_def GenID_def)
  then show ?thesis using assms(2) Some
    by (auto simp: resolveOrigin_def originAt_def intro!: upd_item_cong)
qed

lemma resolveRightOrigin_wired:
  assumes "store_ok t" "i_rightOrigin (t_heap t a) = map_option (\<lambda>b. i_id (t_heap t b)) r" "i_right (t_heap t a) = None"
    "\<And>b. r = Some b \<Longrightarrow> stored t (SItem b)"
  shows "resolveRightOrigin a t = Some (upd_item a (\<lambda>i. i\<lparr>i_right := r\<rparr>) t)"
proof (cases r)
  case None
  then show ?thesis using assms(2,3) by (simp add: resolveRightOrigin_def upd_item_idle)
next
  case (Some b)
  then have "findStruct t (i_id (t_heap t b)) = Some (SItem b)"
    using findItem_stored(1) [OF assms(1,4)] by (simp add: findItem_def split: option.splits struct.splits)
  then have "getItemCleanStart (i_id (t_heap t b)) t = Some (Some b, t)" by (simp add: getItemCleanStart_def)
  then show ?thesis using assms(2) Some
    by (auto simp: resolveRightOrigin_def intro!: upd_item_cong)
qed

lemma stored_upd_item:
  assumes "\<And>i. i_id (f i) = i_id i" "\<And>i. i_length (f i) = i_length i"
  shows "stored (upd_item a f t) s = stored t s" "store_ok (upd_item a f t) = store_ok t"
    "continues (upd_item a f t) s = continues t s" "structs_of (upd_item a f t) = structs_of t"
proof -
  have s: "structID (upd_item a f t) = structID t" "structLength (upd_item a f t) = structLength t"
    using assms by (auto simp: structID_def structLength_def fun_eq_iff split: struct.splits)
  show "stored (upd_item a f t) s = stored t s" "structs_of (upd_item a f t) = structs_of t"
    "continues (upd_item a f t) s = continues t s"
    by (simp_all add: stored_def structs_of_def continues_def getState_def structEnd_def s clientStructs_def fun_eq_iff
        split: option.splits)
  show "store_ok (upd_item a f t) = store_ok t" by (rule store_ok_cong) (auto simp: assms)
qed

lemma missingClient_wired:
  assumes "store_ok t" "wired t y l r a" "\<And>b. l = Some b \<or> r = Some b \<Longrightarrow> member_of t y b \<and> b \<noteq> a"
  shows "missingClient a t = Some (None, upd_item a (\<lambda>i. i\<lparr>i_left := l, i_right := r, i_parent := ParentType y\<rparr>) t)"
proof -
  have w: "i_left (t_heap t a) = None" "i_right (t_heap t a) = None" "i_parentSub (t_heap t a) = []"
    "i_origin (t_heap t a) = originAt (t_heap t) l" "i_rightOrigin (t_heap t a) = map_option (\<lambda>b. i_id (t_heap t b)) r"
    "i_parent (t_heap t a) = (if l = None \<and> r = None then ParentType y else NoParent)"
    using assms(2) by (simp_all add: wired_def Let_def)
  have m: "stored t (SItem b)" "i_parent (t_heap t b) = ParentType y" "i_parentSub (t_heap t b) = []" "b \<noteq> a"
    if "l = Some b \<or> r = Some b" for b
    using assms(3) [OF that] by (simp_all add: member_of_def)
  define t1 where "t1 = upd_item a (\<lambda>i. i\<lparr>i_left := l\<rparr>) t"
  define t2 where "t2 = upd_item a (\<lambda>i. i\<lparr>i_right := r\<rparr>) t1"
  have "resolveOrigin a t = Some t1" using resolveOrigin_wired [OF assms(1) w(4,1)] m(1) by (simp add: t1_def)
  moreover have "resolveRightOrigin a t1 = Some t2"
    unfolding t2_def using w m by (intro resolveRightOrigin_wired) (auto simp: t1_def stored_upd_item assms(1) map_option_case split: option.splits)
  moreover have "resolveParent a t2 = upd_item a (\<lambda>i. i\<lparr>i_left := l, i_right := r, i_parent := ParentType y\<rparr>) t"
    using w m by (auto simp: resolveParent_def inheritParent_def Let_def t2_def t1_def upd_item_twice intro!: upd_item_cong split: option.splits)
  moreover have "awaits t (t_heap t a) (i_origin (t_heap t a)) = None" "awaits t (t_heap t a) (i_rightOrigin (t_heap t a)) = None"
    using awaits_none [OF assms(1)] m(1) w(4,5) by (cases l; cases r; simp add: originAt_def awaits_def [of _ _ None])+
  moreover have "awaits t (t_heap t a) None = None" by (simp add: awaits_def)
  ultimately show ?thesis by (simp add: missingClient_def Let_def w(6))
qed

section \<open>One delivery\<close>

lemma prefix_unique:
  assumes "distinct (X @ X')" "X @ X' = Y @ Y'" "lastp None X = lastp None Y"
  shows "X = Y"
proof (cases X rule: rev_cases)
  case Nil
  with assms(3) show ?thesis by (cases Y rule: rev_cases) simp_all
next
  case (snoc u z)
  with assms(3) obtain v where y: "Y = v @ [z]" by (cases Y rule: rev_cases) simp_all
  have tw: "takeWhile (\<lambda>w. w \<noteq> z) (w @ z # ws) = w" if "distinct (w @ z # ws)" for w ws
    using that by (subst takeWhile_append2) auto
  have e: "u @ z # X' = v @ z # Y'" using assms(2) snoc y by simp
  have "distinct (u @ z # X')" using assms(1) snoc by simp
  then show ?thesis using e tw [of u X'] tw [of v Y'] snoc y by metis
qed

text \<open>Unless the neighbours are adjacent, the left neighbour is what the scan says.\<close>

lemma resolveLeft_scan:
  assumes "list_ok t y (P @ M @ post)" "i_left it = lastp None P" "i_right it = head post None" "i_parentSub it = []"
    "conflictScan (t_heap t) (findItem t) it (head (M @ post) None) (i_left it) emptyItemSet emptyItemSet = Some v"
    "M = [] \<Longrightarrow> v = i_left it"
  shows "resolveLeft it y t = Some v"
proof -
  have ch: "chain (t_heap t) None P (head (M @ post) None)" "chain (t_heap t) (lastp None (P @ M)) post None"
    and d: "distinct (M @ post)" and st: "y_start (t_types t y) = head (P @ M @ post) None"
    using assms(1) by (simp_all add: list_ok_def chain_append head_append lastp_append)
  have fc: "firstConflict it y t = Some (head (M @ post) None)"
    using assms(2,4) ch(1) st by (cases P rule: rev_cases) (simp_all add: firstConflict_def chain_append)
  have adj: "M = []" if "\<not> ((i_left it = None \<and> (case i_right it of None \<Rightarrow> True | Some r \<Rightarrow> i_left (t_heap t r) \<noteq> None)) \<or>
         (case i_left it of None \<Rightarrow> False | Some l \<Rightarrow> i_right (t_heap t l) \<noteq> i_right it))"
  proof (cases P rule: rev_cases)
    case Nil
    then show ?thesis using that ch(2) assms(2,3)
      by (cases post; cases M rule: rev_cases) (simp_all add: lastp_append)
  next
    case (snoc P' p)
    then have "head (M @ post) None = head post None" using that ch(1) assms(2,3) by (simp add: chain_append)
    then show ?thesis using d by (cases M; cases post) auto
  qed
  show ?thesis using fc assms(5,6) adj unfolding resolveLeft_def by (auto split: if_split)
qed

text \<open>The gap between \<open>pre\<close> and \<open>post\<close> after the items \<open>ds\<close> have arrived, starting from \<open>t0\<close>.\<close>

definition same_ids :: "trans \<Rightarrow> trans \<Rightarrow> bool" where
  "same_ids t0 t \<longleftrightarrow> (\<forall>b. i_id (t_heap t b) = i_id (t_heap t0 b) \<and> i_length (t_heap t b) = i_length (t_heap t0 b) \<and>
     i_origin (t_heap t b) = i_origin (t_heap t0 b) \<and> i_rightOrigin (t_heap t b) = i_rightOrigin (t_heap t0 b))"

definition gap_ok :: "trans \<Rightarrow> tid \<Rightarrow> addr list \<Rightarrow> addr list \<Rightarrow> addr list \<Rightarrow> trans \<Rightarrow> bool" where
  "gap_ok t0 y pre post ds t \<longleftrightarrow>
     type_ok t y (pre @ sort_key (client_of (t_heap t0)) ds @ post) \<and> store_ok t \<and> live_type t y \<and>
     (\<forall>b \<in> set (pre @ ds @ post). member_of t y b) \<and> same_ids t0 t \<and>
     (\<forall>b. b \<notin> set (pre @ ds @ post) \<longrightarrow> t_heap t b = t_heap t0 b) \<and>
     y_item (t_types t y) = y_item (t_types t0 y) \<and>
     grouped (t_heap t0) (lastp None pre) None (sort_key (client_of (t_heap t0)) ds) \<and>
     (\<forall>b \<in> set ds. i_rightOrigin (t_heap t0 b) = map_option (\<lambda>b. i_id (t_heap t0 b)) (head post None)) \<and>
     (\<forall>c. structs_of t c = structs_of t0 c @ map SItem (filter (\<lambda>b. client_of (t_heap t0) b = c) ds))"

text \<open>An item that may arrive next: the next of its client's run, with a clock that continues the run.\<close>

definition own_run :: "trans \<Rightarrow> addr list \<Rightarrow> addr \<Rightarrow> addr list" where
  "own_run t0 ds a = filter (\<lambda>b. client_of (t_heap t0) b = client_of (t_heap t0) a) ds"

definition arrives :: "trans \<Rightarrow> tid \<Rightarrow> addr list \<Rightarrow> addr list \<Rightarrow> addr list \<Rightarrow> addr \<Rightarrow> bool" where
  "arrives t0 y pre post ds a \<longleftrightarrow>
     (let it = t_heap t0 a; run = own_run t0 ds a in
      a \<notin> set (pre @ ds @ post) \<and> wired t0 y (lastp (lastp None pre) run) (head post None) a \<and>
      0 < i_length it \<and> \<not> i_deleted it \<and> i_countable it = isCountable (i_content it) \<and> i_content it \<noteq> CType y \<and>
      y_item (t_types t0 y) \<noteq> Some a \<and>
      (if run = [] then continues t0 (SItem a) else id_Clock (i_id it) = structEnd t0 (SItem (last run))))"

text \<open>Where the item lands: at the end of its own run, and a new run behind those of the smaller clients.\<close>

lemma resolveLeft_run:
  fixes pre A F B
  defines "L \<equiv> lastp None pre"
  assumes lo: "list_ok t y (pre @ (A @ F @ B) @ post)" and st: "store_ok t" "\<And>b. b \<in> set (pre @ A @ F @ B) \<Longrightarrow> stored t (SItem b)"
    and it: "i_left it = lastp L F" "i_right it = head post None" "i_parentSub it = []"
      "i_origin it = originAt (t_heap t) (lastp L F)"
    and cl: "\<And>x. x \<in> set A \<Longrightarrow> client_of (t_heap t) x < id_Client (i_id it)" "\<And>x. x \<in> set F \<Longrightarrow> client_of (t_heap t) x = id_Client (i_id it)"
      "\<And>x. x \<in> set B \<Longrightarrow> id_Client (i_id it) < client_of (t_heap t) x"
    and ro: "\<And>x. x \<in> set B \<Longrightarrow> i_rightOrigin (t_heap t x) = i_rightOrigin it"
    and gr: "grouped (t_heap t) L None (A @ F @ B)"
  shows "resolveLeft it y t = Some (lastp None (pre @ A @ F))"
proof (cases F rule: rev_cases)
  case Nil
  have ch: "chain (t_heap t) L (A @ B @ post) None" "distinct (A @ B @ post)"
    using lo Nil by (simp_all add: list_ok_def chain_append L_def)
  have "conflictScan (t_heap t) (findItem t) it (head (A @ B @ post) None) (i_left it) emptyItemSet emptyItemSet =
      Some (lastp (i_left it) A)"
    using conflictScan_new_run [OF ch it(2), of L None "findItem t" emptyItemSet emptyItemSet "i_left it"]
      it(4) gr cl ro findItem_stored(2) [OF st(1)] st(2) Nil by simp
  then show ?thesis using resolveLeft_scan [of t y pre "A @ B" post it] lo it(1,2,3) Nil by (simp add: L_def lastp_append)
next
  case (snoc F' p)
  have pre: "b \<in> set pre" if "L = Some b" for b using that by (auto simp: L_def lastp_def split: if_splits)
  have d: "distinct (B @ post)" "p \<notin> set B" "\<And>b. L = Some b \<Longrightarrow> b \<noteq> p \<and> b \<notin> set B"
    using lo snoc pre by (auto simp: list_ok_def)
  have p: "findItem t (lastID (t_heap t p)) = Some p" using findItem_stored(2) [OF st(1)] st(2) snoc by simp
  have l: "findItem t (lastID (t_heap t b)) = Some b" if "L = Some b" for b
    using findItem_stored(2) [OF st(1)] st(2) pre [OF that] by simp
  have ne: "i_origin it \<noteq> originAt (t_heap t) L"
    using it(4) snoc p l d(3) by (cases L) (auto simp: originAt_def)
  have "conflictScan (t_heap t) (findItem t) it (head (B @ post) None) (i_left it) emptyItemSet emptyItemSet = Some (i_left it)"
    using gr cl(2) [of p] cl(3) l d snoc
    by (intro conflictScan_next [OF d(1) it(2) _ _ ne, of p]) (fastforce simp: grouped_append)+
  then show ?thesis using resolveLeft_scan [of t y "pre @ A @ F" B post it] lo it(1,2,3) snoc by (simp add: lastp_append)
qed

lemma integrate_run:
  fixes pre A F B
  defines "L \<equiv> lastp None pre"
  assumes ok: "type_ok t y (pre @ (A @ F @ B) @ post)" "store_ok t" "live_type t y" "fresh_item t y a" "continues t (SItem a)"
      "a \<notin> set (pre @ (A @ F @ B) @ post)"
    and st: "\<And>b. b \<in> set (pre @ A @ F @ B) \<Longrightarrow> stored t (SItem b)"
    and it: "i_left (t_heap t a) = lastp L F" "i_right (t_heap t a) = head post None" "i_origin (t_heap t a) = originAt (t_heap t) (lastp L F)"
    and cl: "\<And>x. x \<in> set A \<Longrightarrow> client_of (t_heap t) x < client_of (t_heap t) a" "\<And>x. x \<in> set F \<Longrightarrow> client_of (t_heap t) x = client_of (t_heap t) a"
      "\<And>x. x \<in> set B \<Longrightarrow> client_of (t_heap t) a < client_of (t_heap t) x"
    and ro: "\<And>x. x \<in> set B \<Longrightarrow> i_rightOrigin (t_heap t x) = i_rightOrigin (t_heap t a)"
    and gr: "grouped (t_heap t) L None (A @ F @ B)"
  shows "\<exists>t'. integrateStruct n a 0 t = Some (Inr t') \<and> type_ok t' y (pre @ (A @ F @ [a] @ B) @ post) \<and>
    store_ok t' \<and> live_type t' y \<and> integrated y (insert a (set (pre @ (A @ F @ B) @ post))) a t t'"
proof -
  have sub: "i_parentSub (t_heap t a) = []" using ok(4) by (simp add: fresh_item_def Let_def)
  define P M where "P = (if F = [] then pre else pre @ A @ F)" and "M = (if F = [] then A @ B else B)"
  have pm: "pre @ (A @ F @ B) @ post = P @ M @ post" and lp: "i_left (t_heap t a) = lastp None P"
    using it(1) by (auto simp: P_def M_def L_def lastp_append lastp_def)
  obtain t' C D where run: "M = C @ D" "resolveLeft (t_heap t a) y t = Some (lastp None (P @ C))"
    "integrateStruct n a 0 t = Some (Inr t')" "type_ok t' y (P @ C @ a # D @ post)" "store_ok t'" "live_type t' y"
    "integrated y (insert a (set (P @ M @ post))) a t t'"
    using integrateStruct_list [OF ok(1) [unfolded pm] ok(2) ok(6) [unfolded pm] ok(4,3,5) lp it(2)] by blast
  have "resolveLeft (t_heap t a) y t = Some (lastp None (pre @ A @ F))"
    using resolveLeft_run [of t y pre A F B post "t_heap t a"] ok(1,2) st it sub cl ro gr
    by (simp add: type_ok_def L_def client_of_def)
  then have "lastp None (P @ C) = lastp None (pre @ A @ F)" using run(2) by simp
  moreover have d: "distinct ((P @ C) @ D @ post)" "(P @ C) @ D @ post = (pre @ A @ F) @ B @ post"
    using ok(1) [unfolded pm] run(1) pm by (simp_all add: type_ok_def list_ok_def)
  ultimately have "P @ C = pre @ A @ F" using prefix_unique by blast
  moreover from this d(2) have "D = B" by simp
  ultimately have "P @ C @ a # D @ post = pre @ (A @ F @ [a] @ B) @ post" by (metis append.assoc append_Cons append_Nil)
  then show ?thesis unfolding pm using run(3-7) by metis
qed

lemma same_idsD:
  assumes "same_ids t0 t"
  shows "client_of (t_heap t) = client_of (t_heap t0)" "originAt (t_heap t) = originAt (t_heap t0)"
    "grouped (t_heap t) l p xs = grouped (t_heap t0) l p xs" "structID t = structID t0" "structLength t = structLength t0"
    "structEnd t = structEnd t0"
proof -
  have s: "i_id (t_heap t b) = i_id (t_heap t0 b)" "i_length (t_heap t b) = i_length (t_heap t0 b)"
    "i_origin (t_heap t b) = i_origin (t_heap t0 b)" for b using assms by (simp_all add: same_ids_def)
  show "client_of (t_heap t) = client_of (t_heap t0)" "originAt (t_heap t) = originAt (t_heap t0)"
    "grouped (t_heap t) l p xs = grouped (t_heap t0) l p xs"
    by (auto simp: client_of_def originAt_def lastID_def s fun_eq_iff map_option_case split: option.splits intro!: grouped_cong)
  show i: "structID t = structID t0" "structLength t = structLength t0"
    by (simp_all add: structID_def structLength_def s fun_eq_iff split: struct.splits)
  show "structEnd t = structEnd t0" by (simp add: structEnd_def i fun_eq_iff)
qed

lemma continues_next:
  assumes "gap_ok t0 y pre post ds t" "arrives t0 y pre post ds a"
  shows "continues t (SItem a)"
proof -
  let ?c = "client_of (t_heap t0) a" and ?F = "own_run t0 ds a"
  have ids: "same_ids t0 t" and so: "structs_of t ?c = structs_of t0 ?c @ map SItem ?F"
    using assms(1) by (auto simp: gap_ok_def own_run_def)
  note [simp] = same_idsD [OF ids]
  have c: "id_Client (structID t0 (SItem a)) = ?c" by (simp add: structID_def client_of_def)
  show ?thesis
  proof (cases "?F = []")
    case True
    have "continues t0 (SItem a)" using assms(2) True by (simp add: arrives_def Let_def)
    moreover have "clientStructs t0 ?c = Some ss" if "clientStructs t ?c = Some ss" for ss
      using so True that store_okD(1) [OF _ that] assms(1) by (auto simp: structs_of_def gap_ok_def split: option.splits)
    ultimately show ?thesis by (cases "clientStructs t ?c") (auto simp: continues_def getState_def c)
  next
    case False
    then have "clientStructs t ?c = Some (structs_of t0 ?c @ map SItem ?F)" using so
      by (auto simp: structs_of_def split: option.splits)
    moreover have "id_Clock (structID t0 (SItem a)) = structEnd t0 (SItem (last ?F))"
      using assms(2) False by (simp add: arrives_def Let_def structID_def)
    ultimately show ?thesis using False by (simp add: continues_def getState_def c last_map)
  qed
qed

lemma fixed_eqD:
  assumes "fixed i = fixed j"
  shows "i_id i = i_id j" "i_length i = i_length j" "i_origin i = i_origin j" "i_rightOrigin i = i_rightOrigin j"
    "i_parent i = i_parent j" "i_parentSub i = i_parentSub j"
  using arg_cong [OF assms, of i_id] arg_cong [OF assms, of i_length] arg_cong [OF assms, of i_origin]
    arg_cong [OF assms, of i_rightOrigin] arg_cong [OF assms, of i_parent] arg_cong [OF assms, of i_parentSub]
  by (simp_all add: fixed_def)

lemma integrated_ids:
  assumes "integrated y M a t t'"
  shows "same_ids t t'" "i_parent (t_heap t' b) = i_parent (t_heap t b)" "i_parentSub (t_heap t' b) = i_parentSub (t_heap t b)"
    "structs_of t' c = structs_of t c @ (if c = client_of (t_heap t) a then [SItem a] else [])"
proof -
  have f: "fixed (t_heap t' b) = fixed (t_heap t b)" for b using assms by (simp add: integrated_def)
  show "same_ids t t'" "i_parent (t_heap t' b) = i_parent (t_heap t b)" "i_parentSub (t_heap t' b) = i_parentSub (t_heap t b)"
    using fixed_eqD [OF f] by (simp_all add: same_ids_def)
  show "structs_of t' c = structs_of t c @ (if c = client_of (t_heap t) a then [SItem a] else [])"
    using assms by (simp add: integrated_def structs_of_def clientStructs_def client_of_def)
qed

lemma member_integrated:
  assumes "integrated y M a t t'" "member_of t y b \<or> b = a \<and> i_parent (t_heap t a) = ParentType y \<and> i_parentSub (t_heap t a) = []"
  shows "member_of t' y b"
proof -
  have i: "id_Client (structID t' (SItem b)) = client_of (t_heap t) b"
    using integrated_ids(1) [OF assms(1)] by (simp add: structID_def client_of_def same_ids_def)
  have "stored t' (SItem b)" if "stored t (SItem b) \<or> b = a"
    using that unfolding stored_structs_of i integrated_ids(4) [OF assms(1)] by (auto simp: structID_def client_of_def)
  then show ?thesis using assms(2) by (auto simp: member_of_def integrated_ids(2,3) [OF assms(1)])
qed

lemma grouped_insert:
  assumes "grouped h l None (A @ F @ B)" "i_origin (h a) = originAt h (lastp l F)"
    "\<And>x. x \<in> set A \<Longrightarrow> client_of h x < client_of h a" "\<And>x. x \<in> set F \<Longrightarrow> client_of h x = client_of h a"
    "\<And>x. x \<in> set B \<Longrightarrow> client_of h a < client_of h x"
  shows "grouped h l None (A @ F @ [a] @ B)"
proof -
  have mem: "b \<in> set (A @ F)" if "lastp None (A @ F) = Some b" for b
    using that last_in_set [of "A @ F"] by (simp add: lastp_def split: if_splits)
  have le: "client_of h b \<le> client_of h a" if "lastp None (A @ F) = Some b" for b
    using mem [OF that] assms(3) [of b] assms(4) [of b] by auto
  have "grouped h l (lastp None (A @ F)) B = grouped h l (Some a) B"
    using le assms(5) by (intro grouped_restart) (fastforce dest: le assms(5))+
  moreover have "grouped h l (lastp None (A @ F)) [a]"
  proof (cases F rule: rev_cases)
    case Nil
    then show ?thesis using assms(2) assms(3) [of "last A"] by (cases "A = []") (simp_all add: lastp_def)
  next
    case (snoc F' p)
    then show ?thesis using assms(2) assms(4) [of p] by (simp add: lastp_append)
  qed
  ultimately show ?thesis using assms(1) by (simp add: grouped_append lastp_append)
qed

lemma sort_key_snoc:
  fixes f :: "'a \<Rightarrow> 'b::linorder"
  defines "A \<equiv> \<lambda>xs a. sort_key f (filter (\<lambda>x. f x < f a) xs)" and "F \<equiv> \<lambda>xs a. filter (\<lambda>x. f x = f a) xs"
    and "B \<equiv> \<lambda>xs a. sort_key f (filter (\<lambda>x. f a < f x) xs)"
  shows "sort_key f xs = A xs a @ F xs a @ B xs a" "sort_key f (xs @ [a]) = A xs a @ F xs a @ [a] @ B xs a"
  unfolding A_def F_def B_def using sort_key_split [of f xs "f a"] sort_key_split [of f "xs @ [a]" "f a"] by simp_all

lemma wired_cong:
  assumes "same_ids t0 t" "t_heap t a = t_heap t0 a"
  shows "wired t y l r a = wired t0 y l r a"
proof -
  have "map_option (\<lambda>b. i_id (t_heap t b)) r = map_option (\<lambda>b. i_id (t_heap t0 b)) r"
    using assms(1) by (cases r) (simp_all add: same_ids_def)
  then show ?thesis unfolding wired_def Let_def assms(2) same_idsD(2) [OF assms(1)] by simp
qed

lemma deliver_arrives:
  assumes "gap_ok t0 y pre post ds t" "arrives t0 y pre post ds a"
  shows "\<exists>t'. deliver n a t = Some t' \<and> gap_ok t0 y pre post (ds @ [a]) t'"
proof -
  let ?cl = "client_of (t_heap t0)" and ?L = "lastp None pre" and ?R = "head post None"
  define A F B where "A = sort_key ?cl (filter (\<lambda>x. ?cl x < ?cl a) ds)" and "F = own_run t0 ds a"
    and "B = sort_key ?cl (filter (\<lambda>x. ?cl a < ?cl x) ds)"
  have S: "sort_key ?cl ds = A @ F @ B" "sort_key ?cl (ds @ [a]) = A @ F @ [a] @ B"
    using sort_key_snoc [of ?cl ds a] by (simp_all add: A_def F_def B_def own_run_def)
  have mem: "set ds = set A \<union> set F \<union> set B" using arg_cong [OF S(1), of set] by auto
  have cl: "\<And>x. x \<in> set A \<Longrightarrow> ?cl x < ?cl a" "\<And>x. x \<in> set F \<Longrightarrow> ?cl x = ?cl a" "\<And>x. x \<in> set B \<Longrightarrow> ?cl a < ?cl x"
    by (auto simp: A_def F_def B_def own_run_def)
  have g: "type_ok t y (pre @ (A @ F @ B) @ post)" "store_ok t" "live_type t y" "\<And>b. b \<in> set (pre @ ds @ post) \<Longrightarrow> member_of t y b"
    "same_ids t0 t" "\<And>b. b \<notin> set (pre @ ds @ post) \<Longrightarrow> t_heap t b = t_heap t0 b" "y_item (t_types t y) = y_item (t_types t0 y)"
    "grouped (t_heap t0) ?L None (A @ F @ B)"
    "\<And>b. b \<in> set ds \<Longrightarrow> i_rightOrigin (t_heap t0 b) = map_option (\<lambda>b. i_id (t_heap t0 b)) ?R"
    "\<And>c. structs_of t c = structs_of t0 c @ map SItem (filter (\<lambda>b. ?cl b = c) ds)"
    using assms(1) by (simp_all add: gap_ok_def S)
  have r: "a \<notin> set (pre @ ds @ post)" "wired t0 y (lastp ?L F) ?R a" "y_item (t_types t0 y) \<noteq> Some a"
    using assms(2) by (simp_all add: arrives_def Let_def F_def)
  have ha: "t_heap t a = t_heap t0 a" using g(6) r(1) by blast
  note ids = same_idsD [OF g(5)]
  have w: "wired t y (lastp ?L F) ?R a"
    using r(2) by (simp add: wired_cong [OF g(5) ha])
  define t1 where "t1 = upd_item a (\<lambda>i. i\<lparr>i_left := lastp ?L F, i_right := ?R, i_parent := ParentType y\<rparr>) t"
  have nb: "b \<in> set (pre @ ds @ post)" if "lastp ?L F = Some b \<or> ?R = Some b" for b
    using that mem head_in [of post None b] lastp_in [of ?L F b] lastp_in [of None pre b] by auto
  have mc: "missingClient a t = Some (None, t1)"
    unfolding t1_def using nb g(4) r(1) by (intro missingClient_wired [OF g(2) w]) blast
  have ids1: "same_ids t0 t1" using g(5) by (simp add: t1_def same_ids_def)
  have upd: "stored t1 s = stored t s" "store_ok t1" "continues t1 s = continues t s" "structs_of t1 = structs_of t" for s
    using g(2) by (simp_all add: t1_def stored_upd_item)
  have tys: "t_types t1 = t_types t" "b \<noteq> a \<Longrightarrow> t_heap t1 b = t_heap t b" for b by (simp_all add: t1_def)
  have fr: "fresh_item t1 y a"
    using assms(2) w g(7) by (simp add: fresh_item_def arrives_def wired_def Let_def t1_def ha)
  have ok1: "type_ok t1 y (pre @ (A @ F @ B) @ post)" "live_type t1 y"
  proof -
    have "a \<notin> set (pre @ (A @ F @ B) @ post)" using r(1) mem by simp
    then show "type_ok t1 y (pre @ (A @ F @ B) @ post)" using g(1) unfolding t1_def by (subst type_ok_upd_item)
    show "live_type t1 y" using g(3,7) r(3) tys by (auto simp: live_type_def split: option.splits)
  qed
  obtain t' where t': "integrateStruct n a 0 t1 = Some (Inr t')" "type_ok t' y (pre @ (A @ F @ [a] @ B) @ post)"
    "store_ok t'" "live_type t' y" "integrated y (insert a (set (pre @ (A @ F @ B) @ post))) a t1 t'"
  proof -
    note i1 = same_idsD [OF ids1]
    have "i_rightOrigin (t_heap t1 x) = i_rightOrigin (t_heap t1 a)" if "x \<in> set B" for x
      using that mem g(9) [of x] r(2) ids1 by (simp add: same_ids_def wired_def Let_def)
    moreover have "i_origin (t_heap t1 a) = originAt (t_heap t1) (lastp ?L F)"
      using r(2) ids1 by (simp add: i1 same_ids_def wired_def Let_def)
    moreover have "stored t1 (SItem b)" if "b \<in> set (pre @ A @ F @ B)" for b
      using that g(4) [of b] mem by (auto simp: upd member_of_def)
    moreover have "continues t1 (SItem a)" using continues_next [OF assms] by (simp add: upd)
    moreover have "i_left (t_heap t1 a) = lastp ?L F" "i_right (t_heap t1 a) = ?R" by (simp_all add: t1_def)
    moreover have "a \<notin> set (pre @ (A @ F @ B) @ post)" using r(1) mem by simp
    ultimately show thesis
      using integrate_run [OF ok1(1) upd(2) ok1(2) fr, where n = n] cl g(8) that unfolding i1 by blast
  qed
  have "gap_ok t0 y pre post (ds @ [a]) t'"
  proof -
    note i' = integrated_ids [OF t'(5)]
    have "same_ids t0 t'" using ids1 i'(1) by (simp add: same_ids_def)
    moreover have "member_of t' y b" if "b \<in> set (pre @ (ds @ [a]) @ post)" for b
    proof (rule member_integrated [OF t'(5)])
      show "member_of t1 y b \<or> b = a \<and> i_parent (t_heap t1 a) = ParentType y \<and> i_parentSub (t_heap t1 a) = []"
        using that g(4) [of b] fr r(1) by (auto simp: member_of_def upd tys fresh_item_def Let_def)
    qed
    moreover have "t_heap t' b = t_heap t0 b" if "b \<notin> set (pre @ (ds @ [a]) @ post)" for b
      using that t'(5) mem g(6) [of b] tys(2) by (auto simp: integrated_def)
    moreover have "y_item (t_types t' y) = y_item (t_types t0 y)" using t'(5) g(7) tys by (simp add: integrated_def)
    moreover have "grouped (t_heap t0) ?L None (A @ F @ [a] @ B)"
      using grouped_insert [OF g(8) _ cl] r(2) by (simp add: wired_def Let_def)
    moreover have "structs_of t' c = structs_of t0 c @ map SItem (filter (\<lambda>b. ?cl b = c) (ds @ [a]))" for c
      using i'(4) [of c] g(10) [of c] by (simp add: upd same_idsD [OF ids1])
    moreover have "i_rightOrigin (t_heap t0 b) = map_option (\<lambda>b. i_id (t_heap t0 b)) ?R" if "b \<in> set (ds @ [a])" for b
      using that g(9) r(2) by (auto simp: wired_def Let_def)
    ultimately show ?thesis using t'(2-4) unfolding gap_ok_def S by blast
  qed
  then show ?thesis using mc t'(1) by (simp add: deliver_def)
qed

section \<open>All deliveries\<close>

text \<open>The orders of arrival in which every client's items keep their own order.\<close>

fun arriving :: "trans \<Rightarrow> tid \<Rightarrow> addr list \<Rightarrow> addr list \<Rightarrow> addr list \<Rightarrow> addr list \<Rightarrow> bool" where
  "arriving t y pre post ds [] \<longleftrightarrow> True"
| "arriving t y pre post ds (a # as) \<longleftrightarrow> arrives t y pre post ds a \<and> arriving t y pre post (ds @ [a]) as"

lemma deliver_arriving:
  "gap_ok t0 y pre post ds t \<Longrightarrow> arriving t0 y pre post ds as \<Longrightarrow>
     \<exists>t'. foldM (deliver n) as t = Some t' \<and> gap_ok t0 y pre post (ds @ as) t'"
proof (induction as arbitrary: ds t)
  case (Cons a as)
  then obtain t1 where t1: "deliver n a t = Some t1" "gap_ok t0 y pre post (ds @ [a]) t1"
    using deliver_arrives [of t0 y pre post ds t a n] by auto
  with Cons.IH [OF t1(2)] Cons.prems(2) show ?case by simp
qed simp

lemma gap_ok_start:
  assumes "type_ok t y (pre @ post)" "store_ok t" "live_type t y" "list_all (member_of t y) (pre @ post)"
  shows "gap_ok t y pre post [] t"
  using assms by (simp add: gap_ok_def same_ids_def list_all_iff)

text \<open>The clocks of a run increase, so the items determine each client's order.\<close>

lemma sorted_key_unique:
  fixes k :: "'a \<Rightarrow> 'b::linorder"
  assumes "sorted_wrt (\<lambda>x y. k x < k y) xs" "sorted_wrt (\<lambda>x y. k x < k y) ys" "set xs = set ys"
  shows "xs = ys"
proof -
  have s: "sorted_wrt (<) (map k xs)" "sorted_wrt (<) (map k ys)" using assms(1,2) by (simp_all add: sorted_wrt_map)
  then have "map k xs = map k ys" using assms(3) by (intro strict_sorted_equal) simp_all
  moreover have "inj_on k (set xs \<union> set ys)" using s(1) assms(3) by (simp add: strict_sorted_iff distinct_map)
  ultimately show ?thesis by (simp add: inj_on_map_eq_map)
qed

definition clock_of :: "trans \<Rightarrow> addr \<Rightarrow> Number" where
  "clock_of t b = id_Clock (i_id (t_heap t b))"

lemma arriving_clocks:
  assumes "arriving t y pre post ds as" "\<And>c. sorted_wrt (\<lambda>a b. clock_of t a < clock_of t b) (filter (\<lambda>b. client_of (t_heap t) b = c) ds)"
    "\<And>b. b \<in> set ds \<Longrightarrow> 0 < i_length (t_heap t b)"
  shows "sorted_wrt (\<lambda>a b. clock_of t a < clock_of t b) (filter (\<lambda>b. client_of (t_heap t) b = c) (ds @ as))"
  using assms
proof (induction as arbitrary: ds)
  case (Cons a as)
  let ?run = "own_run t ds a"
  have a: "0 < i_length (t_heap t a)" using Cons.prems(1) by (simp add: arrives_def Let_def)
  have up: "clock_of t b < clock_of t a" if "b \<in> set ?run" for b
  proof -
    have ne: "?run \<noteq> []" using that by auto
    then have "clock_of t (last ?run) < clock_of t a"
      using Cons.prems(1) Cons.prems(3) [of "last ?run"] last_in_set [OF ne]
      by (auto simp: arrives_def Let_def clock_of_def structEnd_def structID_def structLength_def own_run_def)
    moreover have "clock_of t b \<le> clock_of t (last ?run)"
    proof (cases "b = last ?run")
      case False
      have "sorted_wrt (\<lambda>a b. clock_of t a < clock_of t b) (butlast ?run @ [last ?run])"
        using Cons.prems(2) ne by (simp add: own_run_def)
      moreover have "b \<in> set (butlast ?run)" using that False ne
        by (metis append_butlast_last_id in_set_butlast_appendI rotate1.simps(2) set_ConsD set_rotate1)
      ultimately show ?thesis by (auto simp: sorted_wrt_append)
    qed simp
    ultimately show ?thesis by simp
  qed
  have "sorted_wrt (\<lambda>a b. clock_of t a < clock_of t b) (filter (\<lambda>b. client_of (t_heap t) b = c) (ds @ [a]))" for c
    using Cons.prems(2) [of c] up by (auto simp: sorted_wrt_append own_run_def)
  moreover have "0 < i_length (t_heap t b)" if "b \<in> set (ds @ [a])" for b using that Cons.prems(3) a by auto
  ultimately show ?case using Cons.IH [of "ds @ [a]"] Cons.prems(1) by simp
qed simp

text \<open>
  Claim C1. Concurrent typing converges: let items arrive for one gap of a list, in two orders that both keep each client's own
  order. Both replicas integrate all of them, and both lists hold the gap's items sorted by client, every client's run unbroken;
  the number of items and the visible length the type keeps are those of that list.
\<close>

theorem concurrent_typing_converges:
  assumes "type_ok t y (pre @ post)" "store_ok t" "live_type t y" "list_all (member_of t y) (pre @ post)"
    and "arriving t y pre post [] as" "arriving t y pre post [] bs" "set as = set bs"
  shows "\<exists>t1 t2. foldM (deliver n) as t = Some t1 \<and> foldM (deliver n) bs t = Some t2 \<and>
    type_ok t1 y (pre @ sort_key (client_of (t_heap t)) as @ post) \<and>
    type_ok t2 y (pre @ sort_key (client_of (t_heap t)) as @ post) \<and> store_ok t1 \<and> store_ok t2"
proof -
  note start = gap_ok_start [OF assms(1-4)]
  obtain t1 t2 where "foldM (deliver n) as t = Some t1" "gap_ok t y pre post as t1"
    "foldM (deliver n) bs t = Some t2" "gap_ok t y pre post bs t2"
    using deliver_arriving [OF start assms(5), of n] deliver_arriving [OF start assms(6), of n] by auto
  moreover have "sort_key (client_of (t_heap t)) as = sort_key (client_of (t_heap t)) bs"
  proof (rule sort_key_cong_runs)
    show "filter (\<lambda>x. client_of (t_heap t) x = c) as = filter (\<lambda>x. client_of (t_heap t) x = c) bs" for c
      using arriving_clocks [OF assms(5), of c] arriving_clocks [OF assms(6), of c] assms(7)
      by (intro sorted_key_unique [of "clock_of t"]) simp_all
  qed
  ultimately show ?thesis by (auto simp: gap_ok_def)
qed

definition example_item :: "Number \<Rightarrow> Number \<Rightarrow> ID option \<Rightarrow> parent \<Rightarrow> item" where
  "example_item client clock org par = newItem (GenID client clock) None org None None par [] (CAny [AUndefined])"

definition example_gap :: trans where
  "example_gap =
     \<lparr>t_heap = (\<lambda>a. if a = 0 then example_item 1 0 None (ParentType 0)
        else if a = 1 then example_item 5 0 (Some (GenID 1 0)) NoParent
        else if a = 2 then example_item 5 1 (Some (GenID 5 0)) NoParent
        else example_item 3 0 (Some (GenID 1 0)) NoParent),
      t_next = 4, t_types = (\<lambda>y. \<lparr>y_start = Some 0, y_map = [], y_length = 1, y_item = None, y_count = 1, y_size = 0\<rparr>),
      t_store = [(1, [SItem 0])], t_deleteSet = newDeleteSet, t_mergeStructs = [], t_beforeState = []\<rparr>"

theorem concurrent_typing_converges_witness:
  "\<exists>t1 t2. foldM (deliver 1) [1, 2, 3] example_gap = Some t1 \<and> foldM (deliver 1) [3, 1, 2] example_gap = Some t2 \<and>
     type_ok t1 0 [0, 3, 1, 2] \<and> type_ok t2 0 [0, 3, 1, 2] \<and> store_ok t1 \<and> store_ok t2"
proof -
  note ex = example_gap_def example_item_def newItem_def newItemWithLength_def GenID_def
  have "type_ok example_gap 0 ([0] @ [])" by (simp add: ex type_ok_def list_ok_def vis_def)
  moreover have "store_ok example_gap" by (simp add: ex store_ok_def structID_def structLength_def)
  moreover have "live_type example_gap 0" by (simp add: ex live_type_def)
  moreover have "list_all (member_of example_gap 0) ([0] @ [])"
    by (simp add: ex member_of_def stored_def clientStructs_def structID_def)
  moreover have "arriving example_gap 0 [0] [] [] [1, 2, 3]" "arriving example_gap 0 [0] [] [] [3, 1, 2]"
    by (simp_all add: ex arrives_def own_run_def client_of_def wired_def Let_def originAt_def lastID_def structEnd_def structID_def
        structLength_def continues_def clientStructs_def)
  moreover have "set [1, 2, 3] = set [3, 1, 2::addr]" by auto
  moreover have "sort_key (client_of (t_heap example_gap)) [1, 2, 3] = [3, 1, 2]" by (simp add: ex client_of_def)
  ultimately show ?thesis using concurrent_typing_converges [of example_gap 0 "[0]" "[]" "[1, 2, 3]" "[3, 1, 2]" 1] by simp
qed

section \<open>Integration in general\<close>

text \<open>
  Claim C2. Integrating an item into a list ends, whatever origins the items carry: the conflict scan stops at the item's right
  neighbour at the latest, the item is linked somewhere between its two neighbours and in both directions, the counters of
  the type are those of the new list, the store is extended by the item, and the lists of the other types are untouched.
\<close>

theorem integrate_between:
  assumes "type_ok t y (pre @ mid @ post)" "store_ok t" "a \<notin> set (pre @ mid @ post)"
    and "fresh_item t y a" "live_type t y" "continues t (SItem a)"
    and "i_left (t_heap t a) = lastp None pre" "i_right (t_heap t a) = head post None"
  shows "\<exists>t' ls rs. mid = ls @ rs \<and> integrateStruct n a 0 t = Some (Inr t') \<and> type_ok t' y (pre @ ls @ a # rs @ post) \<and>
    store_ok t' \<and> stored t' (SItem a) \<and>
    (\<forall>z zs. z \<noteq> y \<and> i_content (t_heap t a) \<noteq> CType z \<and> set zs \<inter> insert a (set (pre @ mid @ post)) = {} \<and> type_ok t z zs
      \<longrightarrow> type_ok t' z zs)"
proof -
  obtain t' ls rs where r: "mid = ls @ rs" "integrateStruct n a 0 t = Some (Inr t')" "type_ok t' y (pre @ ls @ a # rs @ post)"
    "store_ok t'" and i: "integrated y (insert a (set (pre @ mid @ post))) a t t'"
    using integrateStruct_list [OF assms] by blast
  have "stored t' (SItem a)"
    using integrated_ids [OF i] by (simp add: stored_structs_of structID_def same_ids_def client_of_def)
  moreover have "type_ok t' z zs"
    if z: "z \<noteq> y" "i_content (t_heap t a) \<noteq> CType z" "set zs \<inter> insert a (set (pre @ mid @ post)) = {}" "type_ok t z zs" for z zs
  proof -
    have h: "t_heap t' b = t_heap t b" if "b \<in> set zs" for b using i z(3) that unfolding integrated_def by blast
    then have m: "map (\<lambda>x. vis (t_heap t' x)) zs = map (\<lambda>x. vis (t_heap t x)) zs" by auto
    have "t_types t' z = t_types t z" using i z(1,2) by (simp add: integrated_def)
    moreover have "chain (t_heap t') None zs None = chain (t_heap t) None zs None" using h by (intro chain_cong) simp
    ultimately show ?thesis using z(4) unfolding type_ok_def list_ok_def m by simp
  qed
  ultimately show ?thesis using r by blast
qed

theorem integrate_between_witness:
  "\<exists>t'. integrateStruct 1 3 0 (upd_item 3 (\<lambda>i. i\<lparr>i_left := Some 0, i_parent := ParentType 0\<rparr>) example_gap) = Some (Inr t') \<and>
     type_ok t' 0 [0, 3] \<and> store_ok t'"
proof -
  let ?t = "upd_item 3 (\<lambda>i. i\<lparr>i_left := Some 0, i_parent := ParentType 0\<rparr>) example_gap"
  note ex = example_gap_def example_item_def newItem_def newItemWithLength_def GenID_def
  have "type_ok ?t 0 ([0] @ [] @ [])" by (simp add: ex type_ok_def list_ok_def vis_def)
  moreover have "store_ok ?t" by (simp add: ex store_ok_def structID_def structLength_def)
  moreover have "live_type ?t 0" by (simp add: ex live_type_def)
  moreover have "fresh_item ?t 0 3" by (simp add: ex fresh_item_def)
  moreover have "continues ?t (SItem 3)" by (simp add: ex continues_def clientStructs_def structID_def)
  moreover have "i_left (t_heap ?t 3) = lastp None [0]" "i_right (t_heap ?t 3) = head [] None" "3 \<notin> set ([0] @ [] @ [] :: addr list)"
    by (simp_all add: ex)
  ultimately have "\<exists>t' ls rs. [] = ls @ rs \<and> integrateStruct 1 3 0 ?t = Some (Inr t') \<and> type_ok t' 0 ([0] @ ls @ 3 # rs @ []) \<and> store_ok t'"
    using integrate_between [of ?t 0 "[0]" "[]" "[]" 3 1] by blast
  then show ?thesis by auto
qed

end
