(* ===== verification/Splitting.thy ===== *)
theory Splitting
  imports Integration
begin

text \<open>
  Splitting an item (\<^verbatim>\<open>splitItem\<close>, \<^verbatim>\<open>getItemCleanStart\<close>, \<^verbatim>\<open>getItemCleanEnd\<close>) is invisible from outside: the list of the
  type grows by one item behind the left half, what is visible and the clocks the store covers stay as they were, and the
  halves put together are the content that was split.
\<close>

section \<open>The list\<close>

text \<open>An item of a list as the store holds it.\<close>

definition item_ok :: "tid \<Rightarrow> item \<Rightarrow> bool" where
  "item_ok y i \<longleftrightarrow>
     i_parent i = ParentType y \<and> i_parentSub i = [] \<and> 0 < i_length i \<and> content_ok (i_content i) \<and>
     i_length i = contentLength (i_content i) \<and> i_countable i = isCountable (i_content i)"

text \<open>Contents of more than one element always have two halves.\<close>

lemma splice_some:
  assumes "0 < diff" "diff < contentLength c"
  shows "\<exists>l r. spliceContentWithLength c diff len = (l, Some r)"
  using assms by (cases c) (auto simp: spliceArrayAny_def Let_def split: prod.splits)

definition halves :: "item \<Rightarrow> item \<Rightarrow> item \<Rightarrow> Number \<Rightarrow> bool" where
  "halves i l r diff \<longleftrightarrow>
     i_id l = i_id i \<and> i_id r = GenID (id_Client (i_id i)) (id_Clock (i_id i) + diff) \<and>
     i_length l = diff \<and> i_length r = i_length i - diff \<and> i_origin l = i_origin i \<and> i_origin r = Some (lastID l) \<and>
     i_rightOrigin l = i_rightOrigin i \<and> i_rightOrigin r = i_rightOrigin i \<and>
     i_deleted l = i_deleted i \<and> i_deleted r = i_deleted i \<and> i_keep r = i_keep i \<and>
     spliceContentWithLength (i_content i) diff (i_length i) = (i_content l, Some (i_content r))"

lemma splitItem_list:
  assumes "type_ok t y (ys @ la # zs)" "item_ok y (t_heap t la)" "0 < diff" "diff < i_length (t_heap t la)"
    "t_next t \<notin> set (ys @ la # zs)"
  defines "ra \<equiv> t_next t"
  shows "\<exists>t'. splitItem la diff t = Some (ra, t') \<and> type_ok t' y (ys @ la # ra # zs) \<and>
    halves (t_heap t la) (t_heap t' la) (t_heap t' ra) diff \<and> item_ok y (t_heap t' la) \<and> item_ok y (t_heap t' ra) \<and>
    (\<forall>b. b \<noteq> la \<and> b \<noteq> ra \<longrightarrow> core (t_heap t' b) = core (t_heap t b)) \<and> t_store t' = t_store t \<and>
    y_length (t_types t' y) = y_length (t_types t y)"
proof -
  define h where "h = t_heap t"
  let ?i = "h la"
  have i: "i_parent ?i = ParentType y" "i_parentSub ?i = []" "0 < i_length ?i" "content_ok (i_content ?i)"
    "i_length ?i = contentLength (i_content ?i)" "i_countable ?i = isCountable (i_content ?i)"
    using assms(2) by (simp_all add: item_ok_def h_def)
  have lt: "0 < diff" "diff < i_length ?i" using assms(3,4) by (simp_all add: h_def)
  obtain lc rc where sp: "spliceContentWithLength (i_content ?i) diff (i_length ?i) = (lc, Some rc)"
    using splice_some [of diff "i_content ?i" "i_length ?i"] lt i(5) by auto
  note lens = splice_lengths [OF i(4,5) _ _ sp]
  define r where "r = splitRight ?i la rc diff"
  define h2 where "h2 = h(ra := r, la := ?i\<lparr>i_right := Some ra, i_content := lc, i_length := diff\<rparr>)"
  define h3 where "h3 = (case zs of [] \<Rightarrow> h2 | z # _ \<Rightarrow> h2(z := (h2 z)\<lparr>i_left := Some ra\<rparr>))"
  define ty where "ty = (t_types t)(y := (t_types t y)\<lparr>y_count := y_count (t_types t y) + 1\<rparr>)"
  define t' where "t' = t\<lparr>t_heap := h3, t_next := Suc ra, t_mergeStructs := t_mergeStructs t @ [ra], t_types := ty\<rparr>"
  have d: "distinct (ys @ la # zs)" "ra \<notin> set ys" "ra \<noteq> la" "ra \<notin> set zs"
    and ch: "chain h None ys (Some la)" "i_left ?i = lastp None ys" "i_right ?i = head zs None" "chain h (Some la) zs None"
    using assms(1,5) by (auto simp: type_ok_def list_ok_def chain_append h_def ra_def)
  have run: "splitItem la diff t = Some (ra, t')"
    using sp i(1,2) ch(3) d
    by (cases zs) (auto simp: splitItem_def Let_def t'_def h3_def h2_def ty_def r_def upd_item_def upd_type_def h_def ra_def fun_upd_twist)
  have at: "h3 la = ?i\<lparr>i_right := Some ra, i_content := lc, i_length := diff\<rparr>" "h3 ra = r"
    using d by (cases zs; auto simp: h3_def h2_def)+
  have r: "i_left r = Some la" "i_right r = head zs None" "i_parent r = ParentType y" "i_parentSub r = []"
    "i_content r = rc" "i_length r = i_length ?i - diff" "i_countable r = isCountable rc" "i_deleted r = i_deleted ?i"
    by (simp_all add: r_def splitRight_def newItemWithLength_def i ch(3))
  have ok: "item_ok y (h3 la)" "item_ok y (h3 ra)"
    using lens lt i r at by (simp_all add: item_ok_def)
  have oth: "core (h3 b) = core (h b)" if "b \<noteq> la" "b \<noteq> ra" for b
    using that by (cases zs) (auto simp: h3_def h2_def)
  have c3: "chain h3 None (ys @ la # ra # zs) None"
  proof -
    have "h3 b = h b" if "b \<in> set ys" for b using that d by (cases zs) (auto simp: h3_def h2_def)
    then have "chain h3 None ys (Some la)" using ch(1) chain_cong [of ys h3 h] by simp
    moreover have "chain h3 (Some ra) zs None" using ch(4) d by (cases zs) (auto simp: h3_def h2_def)
    ultimately show ?thesis using at r ch(2) by (simp add: chain_append)
  qed
  have v: "vis (h3 la) + vis (h3 ra) = vis ?i" "b \<noteq> la \<Longrightarrow> b \<noteq> ra \<Longrightarrow> vis (h3 b) = vis (h b)" for b
    using lens lt i(6) core_eqD [OF oth] by (simp_all add: vis_def at r)
  have sums: "map (\<lambda>x. vis (h3 x)) ys = map (\<lambda>x. vis (h x)) ys" "map (\<lambda>x. vis (h3 x)) zs = map (\<lambda>x. vis (h x)) zs"
    using d by (auto intro!: v(2))
  have "type_ok t' y (ys @ la # ra # zs)"
  proof -
    have "sum_list (map (\<lambda>x. vis (h3 x)) (ys @ la # ra # zs)) = sum_list (map (\<lambda>x. vis (h x)) (ys @ la # zs))"
      unfolding map_append list.map sums using v(1) by simp
    then show ?thesis
      using assms(1) c3 d unfolding type_ok_def list_ok_def t'_def h_def [symmetric] by (auto simp: ty_def head_append)
  qed
  moreover have "halves ?i (h3 la) (h3 ra) diff"
    using sp unfolding at by (simp add: halves_def r_def splitRight_def newItemWithLength_def lastID_def GenID_def)
  ultimately show ?thesis using run ok oth by (auto simp: t'_def ty_def h_def [symmetric])
qed

section \<open>The store\<close>

lemma structs_ok_append_end:
  "structs_ok t c k (us @ ws) \<longleftrightarrow> structs_ok t c k us \<and> structs_ok t c (if us = [] then k else structEnd t (last us)) ws"
  by (induction us arbitrary: k) auto

lemma structs_ok_distinct: "structs_ok t c k ss \<Longrightarrow> distinct ss"
proof (induction ss arbitrary: k)
  case (Cons s ss)
  have "s \<notin> set ss"
    using Cons.prems structs_ok_lower [of t c "structEnd t s" ss s] by (auto simp: structEnd_def)
  then show ?case using Cons by auto
qed simp

lemma insertAfter_at: "s \<notin> set us \<Longrightarrow> insertAfter s new (us @ s # vs) = us @ s # new # vs"
  by (induction us) auto

definition ids_agree :: "addr set \<Rightarrow> trans \<Rightarrow> trans \<Rightarrow> bool" where
  "ids_agree M t t' \<longleftrightarrow> (\<forall>b. b \<notin> M \<longrightarrow> i_id (t_heap t' b) = i_id (t_heap t b) \<and> i_length (t_heap t' b) = i_length (t_heap t b))"

lemma ids_agreeD:
  assumes "ids_agree M t t'" "\<And>b. b \<in> M \<Longrightarrow> s \<noteq> SItem b"
  shows "structID t' s = structID t s" "structLength t' s = structLength t s" "structEnd t' s = structEnd t s"
proof -
  have i: "structID t' s = structID t s \<and> structLength t' s = structLength t s"
  proof (cases s)
    case (SItem b)
    then have "b \<notin> M" using assms(2) by blast
    then show ?thesis using assms(1) SItem by (simp add: ids_agree_def structID_def structLength_def)
  qed (simp add: structID_def structLength_def)
  then show "structID t' s = structID t s" "structLength t' s = structLength t s" by simp_all
  show "structEnd t' s = structEnd t s" by (simp add: structEnd_def i)
qed

lemma structs_ok_split:
  assumes "structs_ok t c k (us @ SItem la # vs)" "halves (t_heap t la) (t_heap t' la) (t_heap t' ra) diff"
    "0 < diff" "diff < i_length (t_heap t la)" "ids_agree {la, ra} t t'" "SItem ra \<notin> set (us @ vs)"
  shows "structs_ok t' c k (us @ SItem la # SItem ra # vs)" "structEnd t' (SItem ra) = structEnd t (SItem la)"
proof -
  have d: "SItem la \<notin> set (us @ vs)" using structs_ok_distinct [OF assms(1)] by auto
  have same: "structID t' s = structID t s" "structLength t' s = structLength t s" "structEnd t' s = structEnd t s"
    if "s \<in> set us \<or> s \<in> set vs" for s
    using ids_agreeD [OF assms(5), of s] that d assms(6) by auto
  have us: "structs_ok t' c k us = structs_ok t c k us" "structs_ok t' c k' vs = structs_ok t c k' vs" for k'
    using same by (auto intro!: structs_ok_cong)
  show e: "structEnd t' (SItem ra) = structEnd t (SItem la)"
    using assms(2) by (simp add: halves_def structEnd_def structID_def structLength_def GenID_def)
  have "structEnd t' (SItem la) = id_Clock (structID t' (SItem ra))" "id_Client (structID t' (SItem ra)) = id_Client (structID t (SItem la))"
    "structID t' (SItem la) = structID t (SItem la)" "0 < structLength t' (SItem la)" "0 < structLength t' (SItem ra)"
    using assms(2-4) by (simp_all add: halves_def structEnd_def structID_def structLength_def GenID_def)
  then show "structs_ok t' c k (us @ SItem la # SItem ra # vs)"
    using assms(1) us same e by (cases "us = []") (simp_all add: structs_ok_append_end)
qed

lemma storeInsertAfter_split:
  assumes "store_ok t" "stored t (SItem la)" "halves (t_heap t la) (t_heap t' la) (t_heap t' ra) diff"
    "0 < diff" "diff < i_length (t_heap t la)" "ids_agree {la, ra} t t'" "t_store t' = t_store t"
    "\<And>c ss. clientStructs t c = Some ss \<Longrightarrow> SItem ra \<notin> set ss"
  defines "t2 \<equiv> storeInsertAfter (id_Client (i_id (t_heap t la))) (SItem la) (SItem ra) t'"
  shows "store_ok t2 \<and> stored t2 (SItem la) \<and> stored t2 (SItem ra) \<and> getState t2 = getState t \<and>
    t_heap t2 = t_heap t' \<and> t_types t2 = t_types t'"
proof -
  let ?c = "id_Client (i_id (t_heap t la))"
  obtain ss where ss: "clientStructs t ?c = Some ss" "SItem la \<in> set ss"
    using assms(2) by (auto simp: stored_def structID_def split: option.splits)
  note ok = store_okD [OF assms(1) ss(1)]
  obtain us vs where uv: "ss = us @ SItem la # vs" "SItem la \<notin> set us" using split_list_first [OF ss(2)] by blast
  let ?k = "id_Clock (structID t (hd ss))"
  have new: "structs_ok t' ?c ?k (us @ SItem la # SItem ra # vs)" "structEnd t' (SItem ra) = structEnd t (SItem la)"
    using structs_ok_split [OF ok(2) [unfolded uv] assms(3-6)] assms(8) [OF ss(1)] uv by auto
  have m: "clientStructs t2 = (clientStructs t)(?c \<mapsto> us @ SItem la # SItem ra # vs)"
    using ss(1) uv assms(7) by (simp add: t2_def storeInsertAfter_def clientStructs_def insertAfter_at update_conv' fun_eq_iff)
  have h2: "t_heap t2 = t_heap t'" "t_types t2 = t_types t'"
    by (simp_all add: t2_def storeInsertAfter_def)
  have sid: "structID t2 = structID t'" "structLength t2 = structLength t'" "structEnd t2 = structEnd t'"
    by (simp_all add: structID_def structLength_def structEnd_def h2 fun_eq_iff split: struct.splits)
  have same: "structID t' s = structID t s" "structLength t' s = structLength t s" "structEnd t' s = structEnd t s"
    if "clientStructs t c = Some ws" "s \<in> set ws" "s \<noteq> SItem la" for c ws s
    using ids_agreeD [OF assms(6), of s] assms(8) [OF that(1)] that(2,3) by auto
  have oth: "SItem la \<notin> set ws" if "clientStructs t c = Some ws" "c \<noteq> ?c" for c ws
    using structs_ok_client [OF store_okD(2) [OF assms(1) that(1)]] that(2) by (force simp: structID_def)
  have hd: "structID t' (hd (us @ SItem la # SItem ra # vs)) = structID t (hd ss)"
    using same [OF ss(1), of "hd us"] uv assms(3) by (cases us) (auto simp: structID_def halves_def)
  have "ws \<noteq> [] \<and> structs_ok t2 c (id_Clock (structID t2 (hd ws))) ws" if "clientStructs t2 c = Some ws" for c ws
  proof (cases "c = ?c")
    case True
    then have ws: "ws = us @ SItem la # SItem ra # vs" using that by (simp add: m)
    have "structs_ok t2 = structs_ok t'" by (intro ext structs_ok_cong) (simp add: sid)
    then show ?thesis using new(1) hd True unfolding ws sid by simp
  next
    case False
    then have c: "clientStructs t c = Some ws" using that by (simp add: m)
    have sm: "structID t2 s = structID t s \<and> structLength t2 s = structLength t s" if "s \<in> set ws" for s
      using same [OF c that] oth [OF c False] that by (auto simp: sid)
    note old = store_okD [OF assms(1) c]
    show ?thesis using old structs_ok_cong [of ws t2 t, OF sm] sm [of "hd ws"] by simp
  qed
  moreover have "distinct (map fst (t_store t2))"
    using assms(1,7) by (simp add: t2_def storeInsertAfter_def store_ok_def distinct_update split: option.splits)
  ultimately have "store_ok t2" by (simp add: store_ok_iff)
  moreover have "stored t2 (SItem la)" "stored t2 (SItem ra)"
    using assms(3) by (simp_all add: stored_def sid m structID_def halves_def GenID_def)
  moreover have "getState t2 c = getState t c" for c
  proof (cases "c = ?c")
    case True
    have "structEnd t' (last (us @ SItem la # SItem ra # vs)) = structEnd t (last ss)"
      using new(2) same(3) [OF ss(1), of "last vs"] structs_ok_distinct [OF ok(2)] uv by (cases vs rule: rev_cases) auto
    then show ?thesis using True ss(1) by (simp add: getState_def m sid)
  next
    case False
    have "structEnd t' (last ws) = structEnd t (last ws)" if "clientStructs t c = Some ws" for ws
      using last_in_set [OF store_okD(1) [OF assms(1) that]] oth [OF that False] by (intro same(3) [OF that]) auto
    then show ?thesis using False by (simp add: getState_def m sid split: option.splits)
  qed
  ultimately show ?thesis using h2 by auto
qed

section \<open>Clean starts and ends\<close>

definition unused :: "trans \<Rightarrow> addr list \<Rightarrow> addr \<Rightarrow> bool" where
  "unused t xs a \<longleftrightarrow> a \<notin> set xs \<and> list_all (\<lambda>(c, ss). SItem a \<notin> set ss) (t_store t)"

text \<open>A string splits on a boundary unless the offset falls between the two halves of a surrogate pair.\<close>

definition on_boundary :: "'t content \<Rightarrow> Number \<Rightarrow> bool" where
  "on_boundary c diff = (case c of CString s \<Rightarrow> snd (snd (splitStringUTF16AtBoundary s diff)) | _ \<Rightarrow> True)"

text \<open>
  Claim C3. Asking for the item that starts at a clock inside an item splits it there, and asking for the item that
  ends just before that clock performs the same split: the new item has the requested id and stands behind the left half in
  the list of the type, whose visible length is unchanged; the store stays contiguous with the same state vector; and the two
  contents merge back to the one that was split, unless the split fell inside a surrogate pair.
\<close>

theorem clean_split:
  assumes "type_ok t y (ys @ la # zs)" "store_ok t" "item_ok y (t_heap t la)" "stored t (SItem la)"
    and "id_Client ident = id_Client (i_id (t_heap t la))" "id_Clock (i_id (t_heap t la)) < id_Clock ident"
    and "id_Clock ident < structEnd t (SItem la)" "unused t (ys @ la # zs) (t_next t)"
  shows "\<exists>t'. getItemCleanStart ident t = Some (Some (t_next t), t') \<and>
    getItemCleanEnd (GenID (id_Client ident) (id_Clock ident - 1)) t = Some (Some la, t') \<and>
    type_ok t' y (ys @ la # t_next t # zs) \<and> y_length (t_types t' y) = y_length (t_types t y) \<and>
    i_id (t_heap t' (t_next t)) = ident \<and> lastID (t_heap t' la) = GenID (id_Client ident) (id_Clock ident - 1) \<and>
    store_ok t' \<and> stored t' (SItem la) \<and> stored t' (SItem (t_next t)) \<and> getState t' = getState t \<and>
    (on_boundary (i_content (t_heap t la)) (id_Clock ident - id_Clock (i_id (t_heap t la))) \<longrightarrow>
       mergeContentWith (i_content (t_heap t' la)) (i_content (t_heap t' (t_next t))) = Some (i_content (t_heap t la)))"
proof -
  let ?i = "t_heap t la" and ?ra = "t_next t"
  let ?diff = "id_Clock ident - id_Clock (i_id ?i)"
  have df: "0 < ?diff" "?diff < i_length ?i" using assms(6,7) by (simp_all add: structEnd_def structID_def structLength_def)
  have un: "?ra \<notin> set (ys @ la # zs)" "\<And>c ss. clientStructs t c = Some ss \<Longrightarrow> SItem ?ra \<notin> set ss"
    using assms(8) by (auto simp: unused_def list_all_iff clientStructs_def dest: map_of_SomeD)
  obtain t1 where sp: "splitItem la ?diff t = Some (?ra, t1)" and ty: "type_ok t1 y (ys @ la # ?ra # zs)"
    and hv: "halves ?i (t_heap t1 la) (t_heap t1 ?ra) ?diff"
    and fr: "\<And>b. b \<noteq> la \<Longrightarrow> b \<noteq> ?ra \<Longrightarrow> core (t_heap t1 b) = core (t_heap t b)" "t_store t1 = t_store t" "y_length (t_types t1 y) = y_length (t_types t y)"
    using splitItem_list [OF assms(1,3) df un(1)] by blast
  have ag: "ids_agree {la, ?ra} t t1" using core_eqD(1,2) [OF fr(1)] by (simp add: ids_agree_def)
  define t2 where "t2 = storeInsertAfter (id_Client (i_id ?i)) (SItem la) (SItem ?ra) t1"
  have st: "store_ok t2 \<and> stored t2 (SItem la) \<and> stored t2 (SItem ?ra) \<and> getState t2 = getState t \<and>
      t_heap t2 = t_heap t1 \<and> t_types t2 = t_types t1"
    unfolding t2_def by (rule storeInsertAfter_split [OF assms(2,4) hv df ag fr(2)]) (rule un(2))
  have "findStruct t ident = Some (SItem la)" "findStruct t (GenID (id_Client ident) (id_Clock ident - 1)) = Some (SItem la)"
    using assms(5-7) by (auto intro!: findStruct_stored [OF assms(2,4)] simp: covers_clock_def structID_def GenID_def)
  then have "getItemCleanStart ident t = Some (Some ?ra, t2)"
    "getItemCleanEnd (GenID (id_Client ident) (id_Clock ident - 1)) t = Some (Some la, t2)"
    using sp df assms(5) by (simp_all add: getItemCleanStart_def getItemCleanEnd_def GenID_def t2_def)
  moreover have "type_ok t2 y (ys @ la # ?ra # zs)" using ty st by (simp add: type_ok_def list_ok_def)
  moreover have "y_length (t_types t2 y) = y_length (t_types t y)" using fr(3) st by simp
  moreover have "i_id (t_heap t2 ?ra) = ident" "lastID (t_heap t2 la) = GenID (id_Client ident) (id_Clock ident - 1)"
    using hv st assms(5) df by (auto simp: halves_def GenID_def lastID_def)
  moreover have "mergeContentWith (i_content (t_heap t2 la)) (i_content (t_heap t2 ?ra)) = Some (i_content ?i)"
    if b: "on_boundary (i_content ?i) ?diff"
  proof -
    have ok: "content_ok (i_content ?i)" "i_length ?i = contentLength (i_content ?i)" using assms(3) by (simp_all add: item_ok_def)
    have c: "spliceContentWithLength (i_content ?i) ?diff (i_length ?i) = (i_content (t_heap t2 la), Some (i_content (t_heap t2 ?ra)))"
      using hv st by (simp add: halves_def)
    show ?thesis using b df by (intro merge_splice [OF ok _ _ c]) (simp_all add: on_boundary_def)
  qed
  ultimately show ?thesis using st by blast
qed

definition example_split :: trans where
  "example_split =
     \<lparr>t_heap = (\<lambda>a. newItem (GenID 1 0) None None None None (ParentType 0) [] (CAny [AUndefined, ANull, AUndefined])),
      t_next = 1, t_types = (\<lambda>y. \<lparr>y_start = Some 0, y_map = [], y_length = 3, y_item = None, y_count = 1, y_size = 0\<rparr>),
      t_store = [(1, [SItem 0])], t_deleteSet = newDeleteSet, t_mergeStructs = [], t_beforeState = []\<rparr>"

theorem clean_split_witness:
  "\<exists>t'. getItemCleanStart (GenID 1 2) example_split = Some (Some 1, t') \<and>
    getItemCleanEnd (GenID 1 1) example_split = Some (Some 0, t') \<and> type_ok t' 0 [0, 1] \<and> y_length (t_types t' 0) = 3 \<and>
    mergeContentWith (i_content (t_heap t' 0)) (i_content (t_heap t' 1)) = Some (CAny [AUndefined, ANull, AUndefined])"
proof -
  note ex = example_split_def newItem_def newItemWithLength_def GenID_def
  have "type_ok example_split 0 ([] @ 0 # [])" by (simp add: ex type_ok_def list_ok_def vis_def)
  moreover have "store_ok example_split" by (simp add: ex store_ok_def structID_def structLength_def)
  moreover have "item_ok 0 (t_heap example_split 0)" by (simp add: ex item_ok_def)
  moreover have "stored example_split (SItem 0)" by (simp add: ex stored_def clientStructs_def structID_def)
  moreover have "id_Client (GenID 1 2) = id_Client (i_id (t_heap example_split 0))"
    "id_Clock (i_id (t_heap example_split 0)) < id_Clock (GenID 1 2)"
    "id_Clock (GenID 1 2) < structEnd example_split (SItem 0)" "unused example_split ([] @ 0 # []) (t_next example_split)"
    by (simp_all add: ex structEnd_def structID_def structLength_def unused_def)
  moreover have v: "t_next example_split = 1" "y_length (t_types example_split 0) = 3"
    "i_content (t_heap example_split 0) = CAny [AUndefined, ANull, AUndefined]" "id_Client (GenID 1 2) = 1" "id_Clock (GenID 1 2) - 1 = 1"
    by (simp_all add: ex)
  moreover have "on_boundary (i_content (t_heap example_split 0)) (id_Clock (GenID 1 2) - id_Clock (i_id (t_heap example_split 0)))"
    by (simp add: ex on_boundary_def)
  ultimately show ?thesis
    using clean_split [of example_split 0 "[]" 0 "[]" "GenID 1 2"] unfolding v append_Nil by blast
qed

section \<open>Merging back\<close>

text \<open>
  Claim C4. Splitting an item and merging the halves again restores the document: every item but the abandoned right half,
  every type and the store are what they were, provided the item was not redone and the split did not fall inside a
  surrogate pair.
\<close>

theorem split_merge:
  assumes "item_ok y (t_heap t la)" "0 < diff" "diff < i_length (t_heap t la)" "i_redone (t_heap t la) = None"
    and "on_boundary (i_content (t_heap t la)) diff" "la \<noteq> t_next t"
    and "case i_right (t_heap t la) of None \<Rightarrow> True | Some z \<Rightarrow> z \<noteq> la \<and> z \<noteq> t_next t \<and> i_left (t_heap t z) = Some la"
  shows "\<exists>t1 t2. splitItem la diff t = Some (t_next t, t1) \<and> mergeStructWith la (t_next t) t1 = Some t2 \<and>
    (\<forall>b. b \<noteq> t_next t \<longrightarrow> t_heap t2 b = t_heap t b) \<and> t_types t2 = t_types t \<and> t_store t2 = t_store t \<and>
    t_deleteSet t2 = t_deleteSet t"
proof -
  define i where "i = t_heap t la"
  define ra where "ra = t_next t"
  have i: "i_parent i = ParentType y" "i_parentSub i = []" "content_ok (i_content i)"
    "i_length i = contentLength (i_content i)" "i_countable i = isCountable (i_content i)" "i_redone i = None"
    using assms(1,4) by (simp_all add: item_ok_def i_def)
  have lt: "0 < diff" "diff < i_length i" using assms(2,3) by (simp_all add: i_def)
  obtain lc rc where sp: "spliceContentWithLength (i_content i) diff (i_length i) = (lc, Some rc)"
    using splice_some [of diff "i_content i" "i_length i"] lt i(4) by auto
  note lens = splice_lengths [OF i(3,4) _ _ sp]
  have mg: "mergeContentWith lc rc = Some (i_content i)"
    using assms(5) lt by (intro merge_splice [OF i(3,4) _ _ sp]) (simp_all add: on_boundary_def i_def)
  define l where "l = i\<lparr>i_right := Some ra, i_content := lc, i_length := diff\<rparr>"
  define r where "r = splitRight i la rc diff"
  define h1 where "h1 = (t_heap t)(ra := r, la := l)"
  define h2 where "h2 = (case i_right i of None \<Rightarrow> h1 | Some z \<Rightarrow> h1(z := (h1 z)\<lparr>i_left := Some ra\<rparr>))"
  define t1 where "t1 = t\<lparr>t_heap := h2, t_next := Suc ra, t_mergeStructs := t_mergeStructs t @ [ra],
    t_types := (t_types t)(y := (t_types t y)\<lparr>y_count := y_count (t_types t y) + 1\<rparr>)\<rparr>"
  have ne: "la \<noteq> ra" using assms(6) by (simp add: ra_def)
  have split: "splitItem la diff t = Some (ra, t1)"
    using sp i(1,2) ne assms(7)
    by (cases "i_right i") (auto simp: splitItem_def Let_def t1_def h2_def h1_def l_def r_def upd_item_def upd_type_def i_def ra_def fun_upd_twist)
  have at: "h2 la = l" "h2 ra = r" using ne assms(7) by (auto simp: h2_def h1_def i_def ra_def split: option.splits)
  have can: "canMergeWith la ra t1"
    using lens lt i by (simp add: canMergeWith_def t1_def at Let_def l_def r_def splitRight_def newItemWithLength_def GenID_def CompareIDs_def split: option.splits)
  define t2 where "t2 = completeMergeWith la ra (upd_item la (\<lambda>i. i\<lparr>i_content := i_content (t_heap t la)\<rparr>) t1)"
  have merge: "mergeStructWith la ra t1 = Some t2"
    using can mg by (simp add: mergeStructWith_def t2_def) (simp add: t1_def at l_def r_def splitRight_def newItemWithLength_def i_def)
  have r: "i_right r = i_right i" "i_length r = i_length i - diff" "i_keep r = i_keep i"
    by (simp_all add: r_def splitRight_def newItemWithLength_def)
  have t2: "t_heap t2 = (case i_right i of None \<Rightarrow> h2(la := i) | Some z \<Rightarrow> h2(la := i, z := (h2 z)\<lparr>i_left := Some la\<rparr>))"
    "t_types t2 = (t_types t1)(y := (t_types t1 y)\<lparr>y_count := y_count (t_types t1 y) - 1\<rparr>)"
    "t_store t2 = t_store t1" "t_deleteSet t2 = t_deleteSet t1"
    using ne i(1,2) assms(7)
    by (auto simp: t2_def completeMergeWith_def Let_def t1_def at r l_def i_def [symmetric] split: option.splits)
  have "t_heap t2 b = t_heap t b" if "b \<noteq> ra" for b
    using that assms(7) unfolding t2(1) by (auto simp: h2_def h1_def i_def ra_def split: option.splits)
  moreover have "t_types t2 = t_types t" "t_store t2 = t_store t" "t_deleteSet t2 = t_deleteSet t"
    by (simp_all add: t2(2-4) t1_def)
  ultimately show ?thesis using split merge unfolding ra_def by blast
qed

theorem split_merge_witness:
  "\<exists>t1 t2. splitItem 0 2 example_split = Some (1, t1) \<and> mergeStructWith 0 1 t1 = Some t2 \<and>
     t_heap t2 0 = t_heap example_split 0 \<and> t_types t2 = t_types example_split"
proof -
  note ex = example_split_def newItem_def newItemWithLength_def GenID_def
  have "item_ok 0 (t_heap example_split 0)" by (simp add: ex item_ok_def)
  moreover have "(2::Number) < i_length (t_heap example_split 0)" "i_redone (t_heap example_split 0) = None"
    "on_boundary (i_content (t_heap example_split 0)) 2" "i_right (t_heap example_split 0) = None" "t_next example_split = 1"
    by (simp_all add: ex on_boundary_def)
  ultimately show ?thesis using split_merge [of 0 example_split 0 2] by auto
qed

end
