(* ===== verification/Deletion.thy ===== *)
theory Deletion
  imports Integration
begin

text \<open>
  Deletion (\<^verbatim>\<open>deleteItemStruct\<close> and the \<^verbatim>\<open>deleteContent\<close> of nested types). The cascade into nested types ends after as many
  levels as the types are nested, changes nothing but marks, counters and the delete set, and leaves no live item under a deleted one.
\<close>

text \<open>The children of an item whose content is a type: the list, and the values of the keys.\<close>

definition children :: "trans \<Rightarrow> addr \<Rightarrow> addr list" where
  "children t a =
     (case i_content (t_heap t a) of
        CType z \<Rightarrow> (case itemsFrom (t_heap t) (y_start (t_types t z)) of None \<Rightarrow> [] | Some xs \<Rightarrow> xs) @ map snd (y_map (t_types t z))
      | _ \<Rightarrow> [])"

text \<open>Types nested at most \<open>n\<close> deep, with finite lists.\<close>

primrec nested :: "nat \<Rightarrow> trans \<Rightarrow> addr \<Rightarrow> bool" where
  "nested 0 t a \<longleftrightarrow> False"
| "nested (Suc n) t a \<longleftrightarrow>
     (case i_parent (t_heap t a) of ParentType y \<Rightarrow> True | _ \<Rightarrow> False) \<and>
     (case i_content (t_heap t a) of CType z \<Rightarrow> itemsFrom (t_heap t) (y_start (t_types t z)) \<noteq> None | _ \<Rightarrow> True) \<and>
     list_all (nested n t) (children t a)"

definition shape :: "item \<Rightarrow> item" where
  "shape i = i\<lparr>i_deleted := False\<rparr>"

text \<open>What deletion leaves alone, and that it takes no mark back.\<close>

definition deletes :: "trans \<Rightarrow> trans \<Rightarrow> bool" where
  "deletes t t' \<longleftrightarrow>
     (\<forall>b. shape (t_heap t' b) = shape (t_heap t b)) \<and> (\<forall>b. i_deleted (t_heap t b) \<longrightarrow> i_deleted (t_heap t' b)) \<and>
     (\<forall>z. y_start (t_types t' z) = y_start (t_types t z) \<and> y_map (t_types t' z) = y_map (t_types t z)) \<and>
     t_store t' = t_store t \<and> deletedIds (t_deleteSet t) \<subseteq> deletedIds (t_deleteSet t')"

text \<open>No live item directly under a deleted one.\<close>

definition buried :: "trans \<Rightarrow> addr \<Rightarrow> bool" where
  "buried t b \<longleftrightarrow> i_deleted (t_heap t b) \<longrightarrow> list_all (\<lambda>c. i_deleted (t_heap t c)) (children t b)"

lemma shape_eqD:
  assumes "shape i = shape j"
  shows "i_content i = i_content j" "i_parent i = i_parent j" "i_right i = i_right j" "i_id i = i_id j" "i_length i = i_length j"
  using arg_cong [OF assms, of i_content] arg_cong [OF assms, of i_parent] arg_cong [OF assms, of i_right]
    arg_cong [OF assms, of i_id] arg_cong [OF assms, of i_length]
  by (simp_all add: shape_def)

lemma shape_deleted [simp]: "shape (i\<lparr>i_deleted := d\<rparr>) = shape i"
  by (simp add: shape_def)

lemma itemsFrom_None [simp]: "itemsFrom h None = Some []"
  by (simp add: itemsFrom.simps)

lemma itemsFrom_Some: "itemsFrom h (Some a) = map_option (Cons a) (itemsFrom h (i_right (h a)))"
  by (subst itemsFrom.simps) (simp add: map_option_case split: option.splits)

lemma itemsFrom_mono:
  assumes "itemsFrom h r = Some xs" "\<And>b. i_right (h' b) = i_right (h b)"
  shows "itemsFrom h' r = Some xs"
  using assms(1)
proof (induction xs arbitrary: r)
  case Nil
  then show ?case by (cases r) (auto simp: itemsFrom_Some)
next
  case (Cons x xs)
  then show ?case by (cases r) (auto simp: itemsFrom_Some assms(2))
qed

lemma itemsFrom_cong:
  assumes "\<And>b. i_right (h' b) = i_right (h b)"
  shows "itemsFrom h' r = itemsFrom h r"
  using itemsFrom_mono [of h r _ h'] itemsFrom_mono [of h' r _ h] assms
  by (cases "itemsFrom h r"; cases "itemsFrom h' r") auto

lemma deletes_refl: "deletes t t"
  by (simp add: deletes_def)

lemma deletes_trans: "deletes t t' \<Longrightarrow> deletes t' t'' \<Longrightarrow> deletes t t''"
  by (auto simp: deletes_def)

lemma deletes_children:
  assumes "deletes t t'"
  shows "children t' a = children t a" "nested n t' a = nested n t a"
proof -
  have s: "shape (t_heap t' b) = shape (t_heap t b)" for b using assms by (simp add: deletes_def)
  note sh = shape_eqD [OF s]
  have i: "itemsFrom (t_heap t') r = itemsFrom (t_heap t) r" for r by (rule itemsFrom_cong) (rule sh)
  have y: "y_start (t_types t' z) = y_start (t_types t z)" "y_map (t_types t' z) = y_map (t_types t z)" for z
    using assms by (simp_all add: deletes_def)
  show c: "children t' a = children t a" for a by (simp add: children_def sh i y split: content.splits)
  show "nested n t' a = nested n t a"
    by (induction n arbitrary: a) (simp_all add: sh i y c cong: list.pred_cong split: content.splits parent.splits)
qed

section \<open>One step\<close>

lemma unlinkDeleted_ok:
  assumes "i_parent (t_heap t a) = ParentType y"
  shows "\<exists>t'. unlinkDeleted a t = Some t' \<and> deletes t t' \<and> i_deleted (t_heap t' a) \<and>
    (\<forall>b. b \<noteq> a \<longrightarrow> t_heap t' b = t_heap t b) \<and>
    {id_Client (i_id (t_heap t a))} \<times> {id_Clock (i_id (t_heap t a)) ..< id_Clock (i_id (t_heap t a)) + i_length (t_heap t a)}
      \<subseteq> deletedIds (t_deleteSet t')"
  using assms
  by (auto simp: unlinkDeleted_def Let_def deletes_def deletedIds_def clientItems_addToDeleteSet covers_def newDeleteItem_def
      split: if_splits)

definition visitChild :: "nat \<Rightarrow> addr \<Rightarrow> trans \<Rightarrow> trans option" where
  "visitChild n c s =
     (if \<not> i_deleted (t_heap s c) then deleteItemStruct n c s
      else if id_Clock (i_id (t_heap s c)) < beforeClock s (id_Client (i_id (t_heap s c)))
      then Some (s\<lparr>t_mergeStructs := t_mergeStructs s @ [c]\<rparr>) else Some s)"

lemma deleteItemStruct_Suc:
  assumes "nested (Suc n) t a" "\<not> i_deleted (t_heap t a)" "unlinkDeleted a t = Some t1" "deletes t t1"
  shows "deleteItemStruct (Suc n) a t = foldM (visitChild n) (children t1 a) t1"
proof (cases "i_content (t_heap t a)")
  case (CType z)
  have c: "i_content (t_heap t1 a) = CType z" using assms(4) CType shape_eqD(1) [of "t_heap t1 a" "t_heap t a"] by (simp add: deletes_def)
  have "nested (Suc n) t1 a" using assms(1) deletes_children(2) [OF assms(4)] by blast
  then obtain xs where xs: "itemsFrom (t_heap t1) (y_start (t_types t1 z)) = Some xs" using c by auto
  then show ?thesis using assms(2,3) CType c
    by (simp add: children_def) (simp add: visitChild_def [abs_def])
qed (use assms(2,3,4) shape_eqD(1) [of "t_heap t1 a" "t_heap t a"] in \<open>simp_all add: children_def deletes_def\<close>)

text \<open>Marks set by the cascade keep the rest buried; \<open>X\<close> are the items whose children are still being visited.\<close>

lemma buried_keep:
  assumes "deletes t t'" "buried t b" "i_deleted (t_heap t' b) = i_deleted (t_heap t b)"
  shows "buried t' b"
  using assms deletes_children(1) [OF assms(1), of b] by (auto simp: buried_def deletes_def list_all_iff)

section \<open>The cascade\<close>

definition cascades :: "nat \<Rightarrow> addr \<Rightarrow> trans \<Rightarrow> bool" where
  "cascades n a t \<longleftrightarrow>
     (\<forall>X. (\<forall>b. b \<notin> X \<longrightarrow> buried t b) \<longrightarrow>
       (\<exists>t'. deleteItemStruct n a t = Some t' \<and> deletes t t' \<and> i_deleted (t_heap t' a) \<and> (\<forall>b. b \<notin> X \<longrightarrow> buried t' b)))"

lemma visit_all:
  assumes "\<And>c s. nested n s c \<Longrightarrow> cascades n c s"
  shows "list_all (nested n s) cs \<Longrightarrow> (\<And>b. b \<notin> X \<Longrightarrow> buried s b) \<Longrightarrow>
    \<exists>s'. foldM (visitChild n) cs s = Some s' \<and> deletes s s' \<and> list_all (\<lambda>c. i_deleted (t_heap s' c)) cs \<and>
      (\<forall>b. b \<notin> X \<longrightarrow> buried s' b)"
proof (induction cs arbitrary: s)
  case (Cons c cs)
  have "\<exists>s1. visitChild n c s = Some s1 \<and> deletes s s1 \<and> i_deleted (t_heap s1 c) \<and> (\<forall>b. b \<notin> X \<longrightarrow> buried s1 b)"
  proof (cases "i_deleted (t_heap s c)")
    case True
    let ?q = "s\<lparr>t_mergeStructs := t_mergeStructs s @ [c]\<rparr>"
    have q: "deletes s ?q" by (simp add: deletes_def)
    then have "buried ?q b" if "b \<notin> X" for b using Cons.prems(2) [OF that] by (rule buried_keep) simp
    then show ?thesis using True Cons.prems(2) q by (auto simp: visitChild_def deletes_refl)
  next
    case False
    then show ?thesis using assms [of s c] Cons.prems by (auto simp: visitChild_def cascades_def)
  qed
  then obtain s1 where s1: "visitChild n c s = Some s1" "deletes s s1" "i_deleted (t_heap s1 c)" "\<And>b. b \<notin> X \<Longrightarrow> buried s1 b"
    by blast
  have "list_all (nested n s1) cs" using Cons.prems(1) deletes_children(2) [OF s1(2)] by (simp add: list_all_iff)
  then obtain s2 where s2: "foldM (visitChild n) cs s1 = Some s2" "deletes s1 s2" "list_all (\<lambda>c. i_deleted (t_heap s2 c)) cs"
    "\<forall>b. b \<notin> X \<longrightarrow> buried s2 b"
    using Cons.IH s1(4) by blast
  then show ?case using s1 deletes_trans [OF s1(2) s2(2)] by (auto simp: deletes_def)
qed (simp add: deletes_refl)

lemma nested_cascades: "nested n t a \<Longrightarrow> cascades n a t"
proof (induction n arbitrary: t a)
  case (Suc n)
  show ?case unfolding cascades_def
  proof (intro allI impI)
    fix X
    assume X: "\<forall>b. b \<notin> X \<longrightarrow> buried t b"
    show "\<exists>t'. deleteItemStruct (Suc n) a t = Some t' \<and> deletes t t' \<and> i_deleted (t_heap t' a) \<and> (\<forall>b. b \<notin> X \<longrightarrow> buried t' b)"
    proof (cases "i_deleted (t_heap t a)")
      case True
      then show ?thesis using X by (auto simp: deletes_refl)
    next
      case False
      obtain y where "i_parent (t_heap t a) = ParentType y" using Suc.prems by (auto split: parent.splits)
      then obtain t1 where t1: "unlinkDeleted a t = Some t1" "deletes t t1" "i_deleted (t_heap t1 a)"
        "\<And>b. b \<noteq> a \<Longrightarrow> t_heap t1 b = t_heap t b"
        using unlinkDeleted_ok by blast
      have "list_all (nested n t1) (children t1 a)"
        using Suc.prems deletes_children(2) [OF t1(2), of "Suc n" a] by simp
      moreover have "buried t1 b" if "b \<notin> insert a X" for b
        using that X t1(4) by (intro buried_keep [OF t1(2)]) auto
      ultimately obtain t2 where t2: "foldM (visitChild n) (children t1 a) t1 = Some t2" "deletes t1 t2"
        "list_all (\<lambda>c. i_deleted (t_heap t2 c)) (children t1 a)" "\<forall>b. b \<notin> insert a X \<longrightarrow> buried t2 b"
        using visit_all [of n t1 "children t1 a" "insert a X"] Suc.IH by blast
      have "buried t2 a" using t2(3) deletes_children(1) [OF t2(2)] by (simp add: buried_def)
      then show ?thesis
        using deleteItemStruct_Suc [OF Suc.prems False t1(1,2)] t1(3) t2 deletes_trans [OF t1(2) t2(2)] by (auto simp: deletes_def)
    qed
  qed
qed simp

text \<open>
  Claim C5. Deleting an item whose types are nested at most \<open>n\<close> deep ends within \<open>n\<close> levels of the cascade. It marks the
  item, never takes a mark or a range of the delete set back, moves no item and touches no struct; and where no live item lay
  under a deleted one before, none does afterwards, so everything below the item is deleted with it.
\<close>

theorem delete_cascade:
  assumes "nested n t a" "\<forall>b. buried t b"
  shows "\<exists>t'. deleteItemStruct n a t = Some t' \<and> deletes t t' \<and> i_deleted (t_heap t' a) \<and> (\<forall>b. buried t' b)"
  using nested_cascades [OF assms(1)] assms(2) unfolding cascades_def by (auto dest: spec [of _ "{}"])

text \<open>A map inside a list: item 0 holds type 1, whose key points to item 1.\<close>

definition example_nested :: trans where
  "example_nested =
     \<lparr>t_heap = (\<lambda>a. if a = 0 then newItem (GenID 1 0) None None None None (ParentType 0) [] (CType 1)
        else newItem (GenID 1 (int a)) None None None None (ParentType 1) [107] (CAny [ANull])),
      t_next = 2,
      t_types = (\<lambda>y. if y = 0 then \<lparr>y_start = Some 0, y_map = [], y_length = 1, y_item = None, y_count = 1, y_size = 0\<rparr>
        else \<lparr>y_start = None, y_map = [([107], 1)], y_length = 0, y_item = Some 0, y_count = 0, y_size = 1\<rparr>),
      t_store = [(1, [SItem 0, SItem 1])], t_deleteSet = newDeleteSet, t_mergeStructs = [], t_beforeState = []\<rparr>"

theorem delete_cascade_witness:
  "\<exists>t'. deleteItemStruct 2 0 example_nested = Some t' \<and> i_deleted (t_heap t' 0) \<and> i_deleted (t_heap t' 1)"
proof -
  note ex = example_nested_def newItem_def newItemWithLength_def
  have n: "nested 2 example_nested 0" by (simp add: ex numeral_2_eq_2 children_def)
  have "\<forall>b. buried example_nested b" by (simp add: ex buried_def)
  from delete_cascade [OF n this] obtain t' where t': "deleteItemStruct 2 0 example_nested = Some t'"
    "deletes example_nested t'" "i_deleted (t_heap t' 0)" "\<forall>b. buried t' b" by blast
  have "children t' 0 = [1]" using deletes_children(1) [OF t'(2)] by (simp add: ex children_def)
  then show ?thesis using t' by (auto simp: buried_def)
qed

end
