(* ===== verification/StoreEffects.thy ===== *)
theory StoreEffects
  imports Splitting Deletion
begin

text \<open>
  What resolving and integrating an item do to the struct store and to items outside it, whatever the lists of the types look like: splits leave
  the states alone, integration moves the state of one client to the end of the item, and items that wait outside the store keep everything
  their dependencies are read from.
\<close>

section \<open>Items outside the store\<close>

definition addrs :: "trans \<Rightarrow> addr set" where
  "addrs t = {a. \<exists>c ss. clientStructs t c = Some ss \<and> SItem a \<in> set ss}"

definition heap_ok :: "trans \<Rightarrow> bool" where
  "heap_ok t \<longleftrightarrow> store_ok t \<and> (\<forall>a \<in> addrs t. a < t_next t)"

definition wire :: "item \<Rightarrow> ID \<times> Number \<times> ID option \<times> ID option \<times> parent" where
  "wire i = (i_id i, i_length i, i_origin i, i_rightOrigin i, i_parent i)"

text \<open>Nothing that waits changes, except the items in \<open>M\<close>, and nothing that waits is stored.\<close>

definition evolves :: "addr set \<Rightarrow> trans \<Rightarrow> trans \<Rightarrow> bool" where
  "evolves M t t' \<longleftrightarrow> heap_ok t' \<and> t_next t \<le> t_next t' \<and>
     (\<forall>b < t_next t. b \<notin> addrs t \<longrightarrow> b \<notin> M \<longrightarrow> b \<notin> addrs t' \<and> wire (t_heap t' b) = wire (t_heap t b))"

lemma evolves_trans: "evolves M t t' \<Longrightarrow> evolves M t' t'' \<Longrightarrow> evolves M t t''"
  by (auto simp: evolves_def)

lemma evolves_refl: "heap_ok t \<Longrightarrow> evolves M t t"
  by (simp add: evolves_def)

lemma evolves_mono: "evolves M t t' \<Longrightarrow> M \<subseteq> N \<Longrightarrow> evolves N t t'"
  by (auto simp: evolves_def)

lemma evolvesD:
  assumes "evolves M t t'" "b < t_next t" "b \<notin> addrs t" "b \<notin> M"
  shows "b < t_next t'" "b \<notin> addrs t'" "wire (t_heap t' b) = wire (t_heap t b)"
  using assms by (auto simp: evolves_def)

text \<open>A change that leaves the ids and lengths of the stored items alone.\<close>

lemma store_frame:
  assumes "t_store t' = t_store t" "\<And>b. b \<in> addrs t \<Longrightarrow> i_id (t_heap t' b) = i_id (t_heap t b) \<and> i_length (t_heap t' b) = i_length (t_heap t b)"
  shows "addrs t' = addrs t" "store_ok t' = store_ok t" "store_ok t \<Longrightarrow> getState t' = getState t"
proof -
  have c: "clientStructs t' = clientStructs t" by (simp add: clientStructs_def assms(1) fun_eq_iff)
  then show "addrs t' = addrs t" by (simp add: addrs_def)
  have s: "structID t' s = structID t s \<and> structLength t' s = structLength t s" if "clientStructs t k = Some ss" "s \<in> set ss" for k ss s
  proof (cases s)
    case (SItem b)
    then have "b \<in> addrs t" using that by (auto simp: addrs_def)
    then show ?thesis using assms(2) SItem by (simp add: structID_def structLength_def)
  qed (simp add: structID_def structLength_def)
  have so: "(ss \<noteq> [] \<and> structs_ok t' k (id_Clock (structID t' (hd ss))) ss) = (ss \<noteq> [] \<and> structs_ok t k (id_Clock (structID t (hd ss))) ss)"
    if "clientStructs t k = Some ss" for k ss
    using structs_ok_cong [of ss t' t, OF s [OF that]] s [OF that, of "hd ss"] by auto
  show "store_ok t' = store_ok t" unfolding store_ok_iff c assms(1) using so by blast
  show "getState t' = getState t" if "store_ok t"
  proof (rule ext)
    fix k
    have "structEnd t' (last ss) = structEnd t (last ss)" if "clientStructs t k = Some ss" for ss
      using s [OF that, of "last ss"] store_okD(1) [OF \<open>store_ok t\<close> that] by (simp add: structEnd_def)
    then show "getState t' k = getState t k" by (simp add: getState_def c split: option.splits)
  qed
qed

lemma frame_evolves:
  assumes "heap_ok t" "t_store t' = t_store t" "t_next t' = t_next t"
    "\<And>b. b \<in> addrs t \<Longrightarrow> i_id (t_heap t' b) = i_id (t_heap t b) \<and> i_length (t_heap t' b) = i_length (t_heap t b)"
    "\<And>b. b \<notin> M \<Longrightarrow> b \<notin> addrs t \<Longrightarrow> wire (t_heap t' b) = wire (t_heap t b)"
  shows "evolves M t t'" "getState t' = getState t" "addrs t' = addrs t"
  using store_frame [OF assms(2,4)] assms(1,3,5) by (auto simp: evolves_def heap_ok_def)

lemma wire_simps [simp]:
  "wire (i\<lparr>i_left := l\<rparr>) = wire i" "wire (i\<lparr>i_right := l\<rparr>) = wire i" "wire (i\<lparr>i_deleted := d\<rparr>) = wire i"
  by (simp_all add: wire_def)

lemma wireD: "wire i = wire j \<Longrightarrow> i_id i = i_id j \<and> i_length i = i_length j \<and> i_origin i = i_origin j \<and> i_rightOrigin i = i_rightOrigin j \<and> i_parent i = i_parent j"
  by (simp add: wire_def)

text \<open>The most common case: no item changes but in its links and marks.\<close>

lemma same_wire_evolves:
  assumes "heap_ok t" "t_store t' = t_store t" "t_next t' = t_next t" "\<And>b. wire (t_heap t' b) = wire (t_heap t b)"
  shows "evolves M t t'" "getState t' = getState t" "addrs t' = addrs t"
proof -
  have i: "i_id (t_heap t' b) = i_id (t_heap t b) \<and> i_length (t_heap t' b) = i_length (t_heap t b)" for b using wireD [OF assms(4)] by simp
  show "evolves M t t'" "getState t' = getState t" "addrs t' = addrs t"
    by (rule frame_evolves [OF assms(1-3) i assms(4)])+
qed

lemma upd_waiting:
  assumes "heap_ok t" "a \<notin> addrs t"
  shows "evolves {a} t (upd_item a f t)" "getState (upd_item a f t) = getState t" "addrs (upd_item a f t) = addrs t"
proof -
  have i: "i_id (t_heap (upd_item a f t) b) = i_id (t_heap t b) \<and> i_length (t_heap (upd_item a f t) b) = i_length (t_heap t b)" if "b \<in> addrs t" for b
    using that assms(2) by auto
  show "evolves {a} t (upd_item a f t)" "getState (upd_item a f t) = getState t" "addrs (upd_item a f t) = addrs t"
    by (rule frame_evolves [OF assms(1) _ _ i, where M = "{a}"]; simp)+
qed

section \<open>Splits\<close>

lemma splitItem_frame:
  assumes "splitItem la diff t = Some (ra, t')" "la \<noteq> t_next t"
  shows "ra = t_next t" "halves (t_heap t la) (t_heap t' la) (t_heap t' ra) diff" "t_store t' = t_store t" "t_next t' = Suc (t_next t)"
    "\<And>b. b \<noteq> la \<Longrightarrow> b \<noteq> ra \<Longrightarrow> wire (t_heap t' b) = wire (t_heap t b)"
proof -
  let ?i = "t_heap t la"
  obtain lc rc where sp: "spliceContentWithLength (i_content ?i) diff (i_length ?i) = (lc, Some rc)"
    using assms(1) by (auto simp: splitItem_def Let_def split: prod.splits option.splits)
  show ra: "ra = t_next t" using assms(1) sp by (simp add: splitItem_def Let_def)
  define h2 where "h2 = (t_heap t)(ra := splitRight ?i la rc diff, la := ?i\<lparr>i_right := Some ra, i_content := lc, i_length := diff\<rparr>)"
  define h3 where "h3 = (case i_right ?i of None \<Rightarrow> h2 | Some rr \<Rightarrow> h2(rr := (h2 rr)\<lparr>i_left := Some ra\<rparr>))"
  have t': "t_heap t' = h3" "t_store t' = t_store t" "t_next t' = Suc (t_next t)"
    using assms sp by (auto simp: splitItem_def Let_def h3_def h2_def ra split: option.splits parent.splits if_splits)
  then show "t_store t' = t_store t" "t_next t' = Suc (t_next t)" by simp_all
  have l: "h3 b = h2 b \<or> h3 b = (h2 b)\<lparr>i_left := Some ra\<rparr>" for b
    by (simp add: h3_def split: option.splits)
  have "halves ?i (h2 la) (h2 ra) diff"
    using sp assms(2) by (simp add: h2_def ra halves_def splitRight_def newItemWithLength_def lastID_def GenID_def)
  then show "halves ?i (t_heap t' la) (t_heap t' ra) diff"
    using l [of la] l [of ra] unfolding t' by (elim disjE) (simp_all add: halves_def lastID_def)
  show "wire (t_heap t' b) = wire (t_heap t b)" if "b \<noteq> la" "b \<noteq> ra" for b
  proof -
    have "h2 b = t_heap t b" using that by (simp add: h2_def)
    then show ?thesis using l [of b] by (auto simp: t')
  qed
qed

lemma split_evolves:
  assumes "heap_ok t" "stored t (SItem la)" "0 < diff" "diff < i_length (t_heap t la)" "splitItem la diff t = Some (ra, t1)"
  defines "t2 \<equiv> storeInsertAfter (id_Client (i_id (t_heap t la))) (SItem la) (SItem ra) t1"
  shows "evolves {} t t2" "getState t2 = getState t"
proof -
  have la: "la \<in> addrs t" using assms(2) by (auto simp: stored_def addrs_def split: option.splits)
  then have n: "la \<noteq> t_next t" using assms(1) by (auto simp: heap_ok_def)
  note f = splitItem_frame [OF assms(5) n]
  have ag: "ids_agree {la, ra} t t1" using wireD [OF f(5)] by (simp add: ids_agree_def)
  have un: "SItem ra \<notin> set ss" if "clientStructs t c = Some ss" for c ss
    using that assms(1) f(1) by (force simp: heap_ok_def addrs_def)
  have st: "store_ok t2" "getState t2 = getState t" and h: "t_heap t2 = t_heap t1"
    unfolding t2_def using storeInsertAfter_split [OF _ assms(2) f(2) assms(3,4) ag f(3) un] assms(1) by (auto simp: heap_ok_def)
  show "getState t2 = getState t" by (rule st)
  have i: "set (insertAfter s new ss) \<subseteq> insert new (set ss)" for s new ss by (induction ss) auto
  have ad: "addrs t2 \<subseteq> insert ra (addrs t)"
  proof
    fix b
    assume "b \<in> addrs t2"
    then obtain c ss where b: "clientStructs t2 c = Some ss" "SItem b \<in> set ss" by (auto simp: addrs_def)
    then have "\<exists>ss'. clientStructs t c = Some ss' \<and> SItem b \<in> insert (SItem ra) (set ss')"
      using i f(3) unfolding t2_def storeInsertAfter_def clientStructs_def by (auto simp: update_conv' split: option.splits if_splits)
    then show "b \<in> insert ra (addrs t)" by (auto simp: addrs_def)
  qed
  have nx: "t_next t2 = Suc (t_next t)" by (simp add: t2_def storeInsertAfter_def f(4))
  have "heap_ok t2" using st(1) ad assms(1) by (fastforce simp: heap_ok_def nx f(1) less_Suc_eq)
  moreover have "b \<notin> addrs t2 \<and> wire (t_heap t2 b) = wire (t_heap t b)" if "b < t_next t" "b \<notin> addrs t" for b
  proof -
    have "b \<noteq> ra" "b \<noteq> la" using that la f(1) by auto
    then show ?thesis using that(2) ad f(5) h by auto
  qed
  ultimately show "evolves {} t t2" by (simp add: evolves_def nx)
qed

lemma findStruct_someD:
  assumes "findStruct t ident = Some s" "store_ok t"
  shows "stored t s" "id_Client (structID t s) = id_Client ident" "covers_clock t (id_Clock ident) s"
proof -
  obtain ss where ss: "clientStructs t (id_Client ident) = Some ss" "find (covers_clock t (id_Clock ident)) ss = Some s"
    using assms(1) by (auto simp: findStruct_def split: option.splits)
  then have s: "s \<in> set ss" "covers_clock t (id_Clock ident) s" by (auto simp: find_Some_iff)
  show c: "id_Client (structID t s) = id_Client ident" using structs_ok_client [OF store_okD(2) [OF assms(2) ss(1)] s(1)] by simp
  show "covers_clock t (id_Clock ident) s" by (rule s)
  show "stored t s" using ss(1) s(1) c by (simp add: stored_def)
qed

lemma clean_evolves:
  assumes "heap_ok t"
  shows "getItemCleanEnd ident t = Some (l, t') \<Longrightarrow> evolves {} t t' \<and> getState t' = getState t"
    "getItemCleanStart ident t = Some (l, t') \<Longrightarrow> evolves {} t t' \<and> getState t' = getState t"
proof -
  have so: "store_ok t" using assms by (simp add: heap_ok_def)
  have sp: "evolves {} t t' \<and> getState t' = getState t"
    if s: "findStruct t ident = Some (SItem a)" "splitItem a d t = Some (ra, t1)" "t' = storeInsertAfter (id_Client ident) (SItem a) (SItem ra) t1"
      "0 < d" "d < i_length (t_heap t a)" for a ra t1 d
  proof -
    note f = findStruct_someD [OF s(1) so]
    have "t' = storeInsertAfter (id_Client (i_id (t_heap t a))) (SItem a) (SItem ra) t1" using f(2) s(3) by (simp add: structID_def)
    then show ?thesis using split_evolves [OF assms f(1) s(4,5,2)] by blast
  qed
  have cov: "id_Clock (i_id (t_heap t a)) \<le> id_Clock ident \<and> id_Clock ident < id_Clock (i_id (t_heap t a)) + i_length (t_heap t a)"
    if "findStruct t ident = Some (SItem a)" for a
    using findStruct_someD(3) [OF that so] by (simp add: covers_clock_def structEnd_def structID_def structLength_def)
  show "evolves {} t t' \<and> getState t' = getState t" if g: "getItemCleanEnd ident t = Some (l, t')"
  proof (cases "findStruct t ident")
    case (Some s)
    then show ?thesis
    proof (cases s)
      case (SItem a)
      note f = Some [unfolded SItem]
      show ?thesis
        using g f cov [OF f] evolves_refl [OF assms] sp [OF f, of "id_Clock ident - id_Clock (i_id (t_heap t a)) + 1"]
        by (auto simp: getItemCleanEnd_def split: option.splits if_splits)
    qed (use g evolves_refl [OF assms] in \<open>simp add: getItemCleanEnd_def\<close>)
  qed (use g evolves_refl [OF assms] in \<open>simp add: getItemCleanEnd_def\<close>)
  show "evolves {} t t' \<and> getState t' = getState t" if g: "getItemCleanStart ident t = Some (l, t')"
  proof (cases "findStruct t ident")
    case (Some s)
    then show ?thesis
    proof (cases s)
      case (SItem a)
      note f = Some [unfolded SItem]
      show ?thesis
        using g f cov [OF f] evolves_refl [OF assms] sp [OF f, of "id_Clock ident - id_Clock (i_id (t_heap t a))"]
        by (auto simp: getItemCleanStart_def split: option.splits if_splits)
    qed (use g evolves_refl [OF assms] in \<open>simp add: getItemCleanStart_def\<close>)
  qed (use g evolves_refl [OF assms] in \<open>simp add: getItemCleanStart_def\<close>)
qed
section \<open>Dependencies\<close>

definition deps :: "item \<Rightarrow> ID set" where
  "deps i = set_option (i_origin i) \<union> set_option (i_rightOrigin i) \<union> (case i_parent i of ParentID ident \<Rightarrow> {ident} | _ \<Rightarrow> {})"

lemma deps_cong: "wire i = wire j \<Longrightarrow> deps i = deps j"
  by (simp add: deps_def wire_def)

text \<open>A dependency that is missing belongs to another client and is not covered by the state.\<close>

definition lacking :: "trans \<Rightarrow> item \<Rightarrow> ID \<Rightarrow> bool" where
  "lacking t i d \<longleftrightarrow> d \<in> deps i \<and> id_Client d \<noteq> id_Client (i_id i) \<and> getState t (id_Client d) \<le> id_Clock d"

lemma awaits_lacking:
  assumes "\<And>d. r = Some d \<Longrightarrow> d \<in> deps i"
  shows "awaits t i r = Some c \<Longrightarrow> \<exists>d. lacking t i d \<and> id_Client d = c"
    "awaits t i r = None \<Longrightarrow> r = Some d \<Longrightarrow> \<not> lacking t i d"
  using assms by (auto simp: awaits_def lacking_def split: option.splits if_splits)

lemma resolve_waiting:
  assumes ok: "heap_ok t" "a < t_next t" "a \<notin> addrs t" and r: "r = resolveOrigin a t \<or> r = resolveRightOrigin a t" "r = Some t'"
  shows "evolves {a} t t' \<and> getState t' = getState t \<and> a \<notin> addrs t' \<and>
    i_id (t_heap t' a) = i_id (t_heap t a) \<and> i_length (t_heap t' a) = i_length (t_heap t a)"
proof (cases "t' = t")
  case False
  have "\<exists>f s. t' = upd_item a f s \<and> (evolves {} t s \<and> getState s = getState t) \<and> (\<forall>i. i_id (f i) = i_id i \<and> i_length (f i) = i_length i)"
    using r(1)
  proof
    assume o: "r = resolveOrigin a t"
    with r(2) False obtain ident l s where "getItemCleanEnd ident t = Some (l, s)"
      and t': "t' = upd_item a (\<lambda>i. case l of Some b \<Rightarrow> i\<lparr>i_left := l, i_origin := Some (lastID (t_heap s b))\<rparr>
            | None \<Rightarrow> i\<lparr>i_left := None, i_origin := None, i_parent := NoParent\<rparr>) s"
      by (auto simp: resolveOrigin_def split: option.splits)
    with clean_evolves(1) [OF ok(1)] have e: "evolves {} t s \<and> getState s = getState t" by blast
    show ?thesis unfolding t' by (intro exI conjI, rule refl) (simp_all add: e split: option.splits)
  next
    assume o: "r = resolveRightOrigin a t"
    with r(2) False obtain ident l s where "getItemCleanStart ident t = Some (l, s)"
      and t': "t' = upd_item a (\<lambda>i. case l of Some b \<Rightarrow> i\<lparr>i_right := l, i_rightOrigin := Some (i_id (t_heap s b))\<rparr>
            | None \<Rightarrow> i\<lparr>i_right := None, i_rightOrigin := None, i_parent := NoParent\<rparr>) s"
      by (auto simp: resolveRightOrigin_def split: option.splits)
    with clean_evolves(2) [OF ok(1)] have e: "evolves {} t s \<and> getState s = getState t" by blast
    show ?thesis unfolding t' by (intro exI conjI, rule refl) (simp_all add: e split: option.splits)
  qed
  then obtain f s where s: "t' = upd_item a f s" "evolves {} t s" "getState s = getState t" "\<And>i. i_id (f i) = i_id i \<and> i_length (f i) = i_length i"
    by blast
  note e = evolvesD [OF s(2) ok(2,3), simplified]
  have h: "heap_ok s" using s(2) by (simp add: evolves_def)
  note u = upd_waiting [OF h e(2), of f]
  show ?thesis using evolves_trans [OF evolves_mono [OF s(2)] u(1)] u(2,3) s e wireD [OF e(3)] by simp
qed (use ok evolves_refl in simp)

lemma resolveParent_waiting:
  assumes "heap_ok t" "a \<notin> addrs t"
  shows "evolves {a} t (resolveParent a t) \<and> getState (resolveParent a t) = getState t \<and> a \<notin> addrs (resolveParent a t) \<and>
    i_id (t_heap (resolveParent a t) a) = i_id (t_heap t a) \<and> i_length (t_heap (resolveParent a t) a) = i_length (t_heap t a)"
proof -
  have u: "evolves {a} t (upd_item a f t) \<and> getState (upd_item a f t) = getState t \<and> a \<notin> addrs (upd_item a f t) \<and>
      i_id (t_heap (upd_item a f t) a) = i_id (t_heap t a) \<and> i_length (t_heap (upd_item a f t) a) = i_length (t_heap t a)"
    if "\<And>i. i_id (f i) = i_id i \<and> i_length (f i) = i_length i" for f
    using upd_waiting [OF assms, of f] assms(2) that by simp
  have i: "\<exists>f. inheritParent a t = upd_item a f t \<and> (\<forall>i. i_id (f i) = i_id i \<and> i_length (f i) = i_length i)"
  proof -
    have id: "\<exists>f. t = upd_item a f t \<and> (\<forall>i. i_id (f i) = i_id i \<and> i_length (f i) = i_length i)"
      by (rule exI [of _ "\<lambda>i. i"]) (simp add: upd_item_def)
    have two: "upd_item a g (upd_item a f t) = upd_item a (\<lambda>i. g (f i)) t" for f g by (simp add: upd_item_def)
    let ?f = "\<lambda>s b i. i\<lparr>i_parent := i_parent (t_heap s b), i_parentSub := i_parentSub (t_heap s b)\<rparr>"
    have one: "\<exists>f. upd_item a (?f s b) t = upd_item a f t \<and> (\<forall>i. i_id (f i) = i_id i \<and> i_length (f i) = i_length i)" for s b
      by (rule exI [of _ "?f s b"]) simp
    have both: "\<exists>f. upd_item a (?f s' b') (upd_item a (?f s b) t) = upd_item a f t \<and> (\<forall>i. i_id (f i) = i_id i \<and> i_length (f i) = i_length i)" for s b s' b'
      unfolding two by (rule exI [of _ "\<lambda>i. ?f s' b' (?f s b i)"]) simp
    show ?thesis unfolding inheritParent_def Let_def
      by (cases "i_left (t_heap t a)"; cases "i_right (t_heap t a)") (simp_all only: option.case id one both)
  qed
  show ?thesis
  proof (cases "i_parent (t_heap t a)")
    case NoParent
    then show ?thesis using i u by (auto simp: resolveParent_def)
  next
    case (ParentID ident)
    then show ?thesis using u by (auto simp: resolveParent_def split: option.splits content.splits)
  qed (use assms evolves_refl in \<open>simp_all add: resolveParent_def\<close>)
qed

lemma missingClient_waits:
  assumes "missingClient a t = Some (Some c, t')"
  shows "t' = t" "\<exists>d. lacking t (t_heap t a) d \<and> id_Client d = c"
proof -
  let ?i = "t_heap t a"
  have d: "\<And>d. i_origin ?i = Some d \<Longrightarrow> d \<in> deps ?i" "\<And>d. i_rightOrigin ?i = Some d \<Longrightarrow> d \<in> deps ?i"
    "\<And>d. (case i_parent ?i of ParentID ident \<Rightarrow> Some ident | _ \<Rightarrow> None) = Some d \<Longrightarrow> d \<in> deps ?i"
    by (auto simp: deps_def split: parent.splits)
  show "t' = t" using assms by (auto simp: missingClient_def Let_def bind_eq_Some_conv split: option.splits)
  show "\<exists>d. lacking t ?i d \<and> id_Client d = c"
    using assms awaits_lacking(1) [OF d(1)] awaits_lacking(1) [OF d(2)] awaits_lacking(1) [OF d(3)]
    by (auto simp: missingClient_def Let_def bind_eq_Some_conv split: option.splits)
qed

lemma missingClient_resolves:
  assumes "heap_ok t" "a < t_next t" "a \<notin> addrs t" "missingClient a t = Some (None, t')"
  shows "evolves {a} t t' \<and> getState t' = getState t \<and> a \<notin> addrs t' \<and>
    i_id (t_heap t' a) = i_id (t_heap t a) \<and> i_length (t_heap t' a) = i_length (t_heap t a)"
proof -
  obtain t1 t2 where t: "resolveOrigin a t = Some t1" "resolveRightOrigin a t1 = Some t2" "t' = resolveParent a t2"
    using assms(4) by (auto simp: missingClient_def Let_def bind_eq_Some_conv split: option.splits)
  note r1 = resolve_waiting [OF assms(1-3) _ t(1)]
  have 1: "heap_ok t1" "a < t_next t1" using r1 assms(2) by (auto simp: evolves_def)
  note r2 = resolve_waiting [OF 1 _ _ t(2)]
  have 2: "heap_ok t2" using r1 r2 by (auto simp: evolves_def)
  note r3 = resolveParent_waiting [OF 2, of a]
  show ?thesis using r1 r2 r3 unfolding t(3) by (auto intro: evolves_trans)
qed

section \<open>Integration\<close>

lemma deleteItemStruct_frame:
  "deleteItemStruct n a t = Some t' \<Longrightarrow> (\<forall>b. wire (t_heap t' b) = wire (t_heap t b)) \<and> t_store t' = t_store t \<and> t_next t' = t_next t"
proof (induction n arbitrary: a t t')
  case (Suc n)
  have un: "(\<forall>b. wire (t_heap t1 b) = wire (t_heap t b)) \<and> t_store t1 = t_store t \<and> t_next t1 = t_next t" if "unlinkDeleted a t = Some t1" for t1
    using that by (auto simp: unlinkDeleted_def Let_def split: parent.splits if_splits)
  have fold: "(\<forall>b. wire (t_heap s' b) = wire (t_heap s b)) \<and> t_store s' = t_store s \<and> t_next s' = t_next s"
    if "foldM (visitChild n) cs s = Some s'" for cs s s'
    using that
  proof (induction cs arbitrary: s)
    case (Cons c cs)
    obtain s1 where s1: "visitChild n c s = Some s1" "foldM (visitChild n) cs s1 = Some s'"
      using Cons.prems by (auto split: option.splits)
    have "(\<forall>b. wire (t_heap s1 b) = wire (t_heap s b)) \<and> t_store s1 = t_store s \<and> t_next s1 = t_next s"
      using s1(1) Suc.IH by (auto simp: visitChild_def split: if_splits)
    then show ?case using Cons.IH [OF s1(2)] by simp
  qed simp
  have v: "(\<lambda>c s. if \<not> i_deleted (t_heap s c) then deleteItemStruct n c s
      else if id_Clock (i_id (t_heap s c)) < beforeClock s (id_Client (i_id (t_heap s c)))
      then Some (s\<lparr>t_mergeStructs := t_mergeStructs s @ [c]\<rparr>) else Some s) = visitChild n"
    by (simp add: visitChild_def fun_eq_iff)
  show ?case
  proof (cases "i_deleted (t_heap t a)")
    case False
    then obtain t1 where t1: "unlinkDeleted a t = Some t1"
      and r: "(\<exists>cs. foldM (visitChild n) cs t1 = Some t') \<or> t' = t1"
      using Suc.prems unfolding deleteItemStruct.simps v
      by (cases "i_content (t_heap t a)") (auto simp: bind_eq_Some_conv)
    then show ?thesis using un [OF t1] fold by auto
  qed (use Suc.prems in simp)
qed simp

lemma linkItem_frame:
  "linkItem a y t = Some t' \<Longrightarrow> (\<forall>b. wire (t_heap t' b) = wire (t_heap t b)) \<and> t_store t' = t_store t \<and> t_next t' = t_next t"
  by (auto simp: linkItem_def Let_def bind_eq_Some_conv split: option.splits if_splits)

lemma settleEntry_frame:
  "settleEntry n a y t = Some t' \<Longrightarrow> (\<forall>b. wire (t_heap t' b) = wire (t_heap t b)) \<and> t_store t' = t_store t \<and> t_next t' = t_next t"
  by (auto simp: settleEntry_def Let_def split: option.splits if_splits dest!: deleteItemStruct_frame)
text \<open>Adding a struct that continues its client.\<close>

lemma addStruct_state:
  assumes "store_ok t" "0 < structLength t s" "addStruct s t = Inr t'" "clientStructs t (id_Client (structID t s)) = None \<Longrightarrow> id_Clock (structID t s) = 0"
  defines "c \<equiv> id_Client (structID t s)"
  shows "getState t c = id_Clock (structID t s)" "store_ok t'" "getState t' = (getState t)(c := structEnd t s)"
    "addrs t' = addrs t \<union> {a. s = SItem a}" "t_heap t' = t_heap t" "t_next t' = t_next t" "t_types t' = t_types t"
proof -
  have ct: "continues t s" "getState t c = id_Clock (structID t s)"
    using assms(3,4) by (auto simp: continues_def addStruct_def Let_def getState_def c_def split: option.splits if_splits)
  show "getState t c = id_Clock (structID t s)" by (rule ct)
  obtain st where st: "t' = t\<lparr>t_store := st\<rparr>" "map_of st = (map_of (t_store t))(c \<mapsto> (case clientStructs t c of None \<Rightarrow> [] | Some ss \<Rightarrow> ss) @ [s])"
    "store_ok (t\<lparr>t_store := st\<rparr>)"
    using addStruct_ok [OF assms(1,2) ct(1)] assms(3) unfolding c_def by auto
  show "store_ok t'" "t_heap t' = t_heap t" "t_next t' = t_next t" "t_types t' = t_types t" using st by simp_all
  have e: "structEnd t' x = structEnd t x" for x by (simp add: st(1) structEnd_def structID_def structLength_def split: struct.splits)
  have m: "clientStructs t' = (clientStructs t)(c \<mapsto> (case clientStructs t c of None \<Rightarrow> [] | Some ss \<Rightarrow> ss) @ [s])"
    by (simp add: clientStructs_def st(1,2) fun_eq_iff)
  show "getState t' = (getState t)(c := structEnd t s)"
    by (rule ext) (simp add: getState_def m e cong: option.case_cong)
  show "addrs t' = addrs t \<union> {a. s = SItem a}"
  proof (rule set_eqI)
    fix a
    have "a \<in> addrs t' \<longleftrightarrow> (\<exists>k ss. k \<noteq> c \<and> clientStructs t k = Some ss \<and> SItem a \<in> set ss) \<or> (\<exists>ss. clientStructs t c = Some ss \<and> SItem a \<in> set ss) \<or> s = SItem a"
      by (auto simp: addrs_def m split: option.splits)
    also have "\<dots> \<longleftrightarrow> a \<in> addrs t \<union> {a. s = SItem a}" by (auto simp: addrs_def)
    finally show "a \<in> addrs t' \<longleftrightarrow> a \<in> addrs t \<union> {a. s = SItem a}" .
  qed
qed

lemma cutOffset_frame:
  assumes "heap_ok t" "a < t_next t" "a \<notin> addrs t" "cutOffset a offset t = Some t'" "0 \<le> offset"
  shows "evolves {a} t t' \<and> getState t' = getState t \<and> a \<notin> addrs t' \<and>
    i_id (t_heap t' a) = (i_id (t_heap t a))\<lparr>id_Clock := id_Clock (i_id (t_heap t a)) + offset\<rparr> \<and> i_length (t_heap t' a) = i_length (t_heap t a) - offset"
proof (cases "offset > 0")
  case True
  let ?id = "(i_id (t_heap t a))\<lparr>id_Clock := id_Clock (i_id (t_heap t a)) + offset\<rparr>"
  obtain ident l s c where s: "getItemCleanEnd ident t = Some (l, s)"
    and t': "t' = upd_item a (\<lambda>i. i\<lparr>i_id := ?id, i_left := l,
         i_origin := (case l of None \<Rightarrow> i_origin i | Some l \<Rightarrow> Some (lastID (t_heap s l))), i_content := c, i_length := i_length i - offset\<rparr>) s"
  proof -
    obtain lc rc where sp: "spliceContentWithLength (i_content (t_heap t a)) offset (i_length (t_heap t a)) = (lc, rc)" by force
    show ?thesis using assms(4) True that sp unfolding cutOffset_def Let_def by (cases rc) (auto simp: bind_eq_Some_conv)
  qed
  define f :: "item \<Rightarrow> item" where "f = (\<lambda>i. i\<lparr>i_id := ?id, i_left := l,
         i_origin := (case l of None \<Rightarrow> i_origin i | Some l \<Rightarrow> Some (lastID (t_heap s l))), i_content := c, i_length := i_length i - offset\<rparr>)"
  have f: "i_id (f i) = ?id \<and> i_length (f i) = i_length i - offset" for i by (simp add: f_def)
  have e: "evolves {} t s" "getState s = getState t" using clean_evolves(1) [OF assms(1) s] by blast+
  note w = evolvesD [OF e(1) assms(2,3), simplified]
  have h: "heap_ok s" using e(1) by (simp add: evolves_def)
  note u = upd_waiting [OF h w(2), of f]
  show ?thesis
    using evolves_trans [OF evolves_mono [OF e(1)] u(1)] u(2,3) e(2) w wireD [OF w(3)] f unfolding t' f_def [symmetric] by simp
qed (use assms evolves_refl in \<open>simp add: cutOffset_def\<close>)
lemma addStruct_evolves:
  assumes "heap_ok t" "0 < structLength t s" "getState t (id_Client (structID t s)) = id_Clock (structID t s)" "addStruct s t = Inr t'"
    "\<And>a. s = SItem a \<Longrightarrow> a < t_next t"
  shows "evolves {a. s = SItem a} t t' \<and> getState t' = (getState t)(id_Client (structID t s) := structEnd t s) \<and>
    t_heap t' = t_heap t \<and> t_types t' = t_types t"
proof -
  have "clientStructs t (id_Client (structID t s)) = None \<Longrightarrow> id_Clock (structID t s) = 0" using assms(3) by (simp add: getState_def)
  note f = addStruct_state [OF _ assms(2,4) this]
  show ?thesis using f assms(1,5) by (auto simp: evolves_def heap_ok_def)
qed

lemma linked_frame:
  assumes "heap_ok t" "linkItem a y (upd_item a (\<lambda>i. i\<lparr>i_left := lft\<rparr>) t) = Some t2" "settleEntry n a y t2 = Some t3"
  defines "t' \<equiv> countItem a y t3"
  shows "evolves M t t'" "getState t' = getState t" "heap_ok t'" "t_next t' = t_next t"
    "i_id (t_heap t' a) = i_id (t_heap t a)" "i_length (t_heap t' a) = i_length (t_heap t a)"
proof -
  have w: "wire (t_heap t' b) = wire (t_heap t b)" for b
    using linkItem_frame [OF assms(2)] settleEntry_frame [OF assms(3)] by (simp add: t'_def countItem_def Let_def)
  have s: "t_store t' = t_store t" "t_next t' = t_next t"
    using linkItem_frame [OF assms(2)] settleEntry_frame [OF assms(3)] by (simp_all add: t'_def countItem_def Let_def)
  note e = same_wire_evolves [OF assms(1) s w]
  show "evolves M t t'" "getState t' = getState t" "t_next t' = t_next t" by (rule e s)+
  show "heap_ok t'" using e(1) by (simp add: evolves_def)
  show "i_id (t_heap t' a) = i_id (t_heap t a)" "i_length (t_heap t' a) = i_length (t_heap t a)" using wireD [OF w] by simp_all
qed

text \<open>An item whose clock is the state of its client moves that state to its end, and the store never refuses it.\<close>

lemma integrateStruct_state:
  assumes ok: "heap_ok t" "a < t_next t" "a \<notin> addrs t" and run: "integrateStruct n a offset t = Some (Inr t')"
    and offs: "0 \<le> offset" "offset < i_length (t_heap t a)" "getState t (id_Client (i_id (t_heap t a))) = id_Clock (i_id (t_heap t a)) + offset"
  shows "evolves {a} t t' \<and>
    getState t' = (getState t)(id_Client (i_id (t_heap t a)) := id_Clock (i_id (t_heap t a)) + i_length (t_heap t a))"
proof -
  let ?c = "id_Client (i_id (t_heap t a))"
  obtain t1 where t1: "cutOffset a offset t = Some t1" using run by (auto simp: integrateStruct_def bind_eq_Some_conv)
  have cut: "evolves {a} t t1" "getState t1 = getState t" "a \<notin> addrs t1" "id_Client (i_id (t_heap t1 a)) = ?c"
      "id_Clock (i_id (t_heap t1 a)) = id_Clock (i_id (t_heap t a)) + offset" "i_length (t_heap t1 a) = i_length (t_heap t a) - offset"
    using cutOffset_frame [OF ok t1 offs(1)] by simp_all
  have h1: "heap_ok t1" "a < t_next t1" using cut(1) ok(2) by (auto simp: evolves_def)
  show ?thesis
  proof (cases "i_parent (t_heap t1 a)")
    case NoParent
    let ?s = "SGC (i_id (t_heap t1 a)) (i_length (t_heap t1 a))"
    have "addStruct ?s t1 = Inr t'" using run t1 NoParent by (simp add: integrateStruct_def gcIntegrate_def)
    from addStruct_evolves [OF h1(1) _ _ this] cut(2,4-6) offs
    have e: "evolves {} t1 t'" "getState t' = (getState t1)(?c := id_Clock (i_id (t_heap t a)) + i_length (t_heap t a))"
      by (simp_all add: structID_def structLength_def structEnd_def)
    show ?thesis using evolves_trans [OF cut(1) evolves_mono [OF e(1)]] e(2) cut(2) by simp
  next
    case (ParentType y)
    obtain lft t2 t3 where l12: "linkItem a y (upd_item a (\<lambda>i. i\<lparr>i_left := lft\<rparr>) t1) = Some t2" "settleEntry n a y t2 = Some t3"
      and r3: "(case addStruct (SItem a) (countItem a y t3) of
             Inl e \<Rightarrow> Some (Inl e)
           | Inr t4 \<Rightarrow>
               let t5 = integrateContent a t4;
                   parentDeleted = (case y_item (t_types t5 y) of None \<Rightarrow> False | Some p \<Rightarrow> i_deleted (t_heap t5 p))
               in if parentDeleted \<or> i_parentSub (t_heap t5 a) \<noteq> [] \<and> i_right (t_heap t5 a) \<noteq> None
                  then (case deleteItemStruct n a t5 of None \<Rightarrow> None | Some t6 \<Rightarrow> Some (Inr t6))
                  else Some (Inr t5)) = Some (Inr t')"
      using run t1 ParentType unfolding integrateStruct_def by (auto simp: bind_eq_Some_conv)
    obtain t4 where l3: "addStruct (SItem a) (countItem a y t3) = Inr t4" using r3 by (cases "addStruct (SItem a) (countItem a y t3)") simp_all
    have fin: "t' = integrateContent a t4 \<or> deleteItemStruct n a (integrateContent a t4) = Some t'"
      using r3 unfolding l3 sum.case Let_def by (auto split: if_splits option.splits)
    note l = l12 l3
    note e3 = linked_frame [OF h1(1) l(1,2)]
    have e4: "evolves {a} (countItem a y t3) t4"
      "getState t4 = (getState (countItem a y t3))(?c := id_Clock (i_id (t_heap t a)) + i_length (t_heap t a))"
      using addStruct_evolves [OF e3(3) _ _ l(3)] e3 cut(2,4-6) offs h1(2)
      by (simp_all add: structID_def structLength_def structEnd_def)
    have h4: "heap_ok t4" using e4(1) by (simp add: evolves_def)
    define t5 where "t5 = integrateContent a t4"
    have w5: "wire (t_heap t5 b) = wire (t_heap t4 b)" for b by (simp add: t5_def integrateContent_def Let_def split: content.splits)
    have s5: "t_store t5 = t_store t4" "t_next t5 = t_next t4" by (simp_all add: t5_def integrateContent_def Let_def split: content.splits)
    have "(\<forall>b. wire (t_heap t' b) = wire (t_heap t4 b)) \<and> t_store t' = t_store t4 \<and> t_next t' = t_next t4"
      using fin [folded t5_def] w5 s5 deleteItemStruct_frame [of n a t5 t'] by auto
    then have e': "evolves {a} t4 t'" "getState t' = getState t4" using same_wire_evolves [OF h4] by blast+
    have "evolves {a} t t'" by (rule evolves_trans [OF cut(1) evolves_trans [OF e3(1) evolves_trans [OF e4(1) e'(1)]]])
    then show ?thesis using e'(2) e4(2) e3(2) cut(2) by simp
  qed (use run t1 in \<open>simp_all add: integrateStruct_def\<close>)
qed

lemma integrateStruct_accepted:
  assumes ok: "heap_ok t" "a < t_next t" "a \<notin> addrs t"
    and offs: "0 \<le> offset" "getState t (id_Client (i_id (t_heap t a))) = id_Clock (i_id (t_heap t a)) + offset"
  shows "integrateStruct n a offset t \<noteq> Some (Inl e)"
proof
  assume run: "integrateStruct n a offset t = Some (Inl e)"
  obtain t1 where t1: "cutOffset a offset t = Some t1" using run by (auto simp: integrateStruct_def bind_eq_Some_conv)
  have cut: "evolves {a} t t1" "getState t1 (id_Client (i_id (t_heap t1 a))) = id_Clock (i_id (t_heap t1 a))"
    using cutOffset_frame [OF ok t1 offs(1)] offs(2) by simp_all
  have h1: "heap_ok t1" using cut(1) by (simp add: evolves_def)
  have acc: "addStruct s t \<noteq> Inl e" if "getState t (id_Client (structID t s)) = id_Clock (structID t s)" for s t e
    using that by (auto simp: addStruct_def Let_def getState_def split: option.splits)
  show False
  proof (cases "i_parent (t_heap t1 a)")
    case NoParent
    then show False using run t1 acc cut(2) by (simp add: integrateStruct_def gcIntegrate_def structID_def)
  next
    case (ParentType y)
    obtain lft t2 t3 where l: "linkItem a y (upd_item a (\<lambda>i. i\<lparr>i_left := lft\<rparr>) t1) = Some t2" "settleEntry n a y t2 = Some t3"
      and r3: "(case addStruct (SItem a) (countItem a y t3) of
             Inl e \<Rightarrow> Some (Inl e)
           | Inr t4 \<Rightarrow>
               let t5 = integrateContent a t4;
                   parentDeleted = (case y_item (t_types t5 y) of None \<Rightarrow> False | Some p \<Rightarrow> i_deleted (t_heap t5 p))
               in if parentDeleted \<or> i_parentSub (t_heap t5 a) \<noteq> [] \<and> i_right (t_heap t5 a) \<noteq> None
                  then (case deleteItemStruct n a t5 of None \<Rightarrow> None | Some t6 \<Rightarrow> Some (Inr t6))
                  else Some (Inr t5)) = Some (Inl e)"
      using run t1 ParentType unfolding integrateStruct_def by (auto simp: bind_eq_Some_conv)
    obtain e' where "addStruct (SItem a) (countItem a y t3) = Inl e'"
      using r3 by (cases "addStruct (SItem a) (countItem a y t3)") (auto simp: Let_def split: if_splits option.splits)
    then show False using acc linked_frame(2,5) [OF h1 l] cut(2) by (simp add: structID_def)
  qed (use run t1 in \<open>simp_all add: integrateStruct_def\<close>)
qed

end
