(* ===== verification/Applying.thy ===== *)
theory Applying
  imports StoreEffects
begin

text \<open>
  Applying the structs of an update to a document (\<^verbatim>\<open>integrateStructs\<close> of \<^verbatim>\<open>crdt/merge.go\<close>): a work loop over the structs of every
  client that follows missing dependencies with an explicit stack and puts aside what cannot be applied yet.

  A decoded struct is a \<open>ref\<close>: an item that lives in the heap of the document but not yet in its store, a collected run or a gap. The pointer to the
  current struct reader is the client it reads, the slice of client ids is kept from its end to its beginning. The pending buffer is the list of the
  structs that the code encodes into it. \<open>None\<close> is a run-time panic, as in theory \<open>Items\<close>.
\<close>

section \<open>Definitions\<close>

datatype ref = RItem addr | RGC ID Number | RSkip ID Number

definition refID :: "trans \<Rightarrow> ref \<Rightarrow> ID" where
  "refID t r = (case r of RItem a \<Rightarrow> i_id (t_heap t a) | RGC ident len \<Rightarrow> ident | RSkip ident len \<Rightarrow> ident)"

definition refLength :: "trans \<Rightarrow> ref \<Rightarrow> Number" where
  "refLength t r = (case r of RItem a \<Rightarrow> i_length (t_heap t a) | RGC ident len \<Rightarrow> len | RSkip ident len \<Rightarrow> len)"

type_synonym clientStructRef = "ref list \<times> nat"

record work =
  w_refs :: "(Number \<times> clientStructRef) list"
  w_ids :: "Number list"
  w_cur :: "Number option"
  w_stack :: "ref list"
  w_rest :: "(Number \<times> ref list) list"
  w_missing :: "(Number \<times> Number) list"

text \<open>Drops the exhausted readers from the end of the ids; the lookup of a client that has no reader would be a \<^verbatim>\<open>nil\<close> dereference.\<close>

fun getNextStructTarget :: "(Number \<times> clientStructRef) list \<Rightarrow> Number list \<Rightarrow> (Number option \<times> Number list) option" where
  "getNextStructTarget m [] = Some (None, [])"
| "getNextStructTarget m (c # cs) =
     (case map_of m c of
        None \<Rightarrow> None
      | Some (rs, i) \<Rightarrow> if i = length rs then getNextStructTarget m cs else Some (Some c, c # cs))"

definition readNext :: "Number \<Rightarrow> work \<Rightarrow> (ref \<times> work) option" where
  "readNext c w =
     (case map_of (w_refs w) c of
        None \<Rightarrow> None
      | Some (rs, i) \<Rightarrow> if i < length rs then Some (rs ! i, w\<lparr>w_refs := AList.update c (rs, i + 1) (w_refs w)\<rparr>) else None)"

definition updateMissingSv :: "Number \<Rightarrow> Number \<Rightarrow> work \<Rightarrow> work" where
  "updateMissingSv client clock w =
     (case map_of (w_missing w) client of
        Some mclock \<Rightarrow> if mclock > clock then w\<lparr>w_missing := AList.update client clock (w_missing w)\<rparr> else w
      | None \<Rightarrow> w\<lparr>w_missing := AList.update client clock (w_missing w)\<rparr>)"

definition appendRest :: "Number \<Rightarrow> ref list \<Rightarrow> work \<Rightarrow> work" where
  "appendRest client rs w =
     w\<lparr>w_rest := AList.update client ((case map_of (w_rest w) client of None \<Rightarrow> [] | Some old \<Rightarrow> old) @ rs) (w_rest w)\<rparr>"

definition addToRest :: "trans \<Rightarrow> ref \<Rightarrow> work \<Rightarrow> work option" where
  "addToRest t r w =
     (let client = id_Client (refID t r)
      in case map_of (w_refs w) client of
           Some (rs, i) \<Rightarrow>
             if i = 0 then None
             else
               let w1 = appendRest client (drop (i - 1) rs) w
               in Some (w1\<lparr>w_refs := AList.delete client (w_refs w1), w_ids := filter (\<lambda>c. c \<noteq> client) (w_ids w1)\<rparr>)
         | None \<Rightarrow>
             let w1 = appendRest client [r] w
             in Some (w1\<lparr>w_ids := filter (\<lambda>c. c \<noteq> client) (w_ids w1)\<rparr>))"

definition addStackToRestSS :: "trans \<Rightarrow> work \<Rightarrow> work option" where
  "addStackToRestSS t w = map_option (\<lambda>w'. w'\<lparr>w_stack := []\<rparr>) (foldM (addToRest t) (w_stack w) w)"

text \<open>The struct to look at next: the top of the stack, the next one of the current reader, or the first one of the next reader.\<close>

definition nextReader :: "work \<Rightarrow> (ref option \<times> work) option" where
  "nextReader w =
     (case getNextStructTarget (w_refs w) (w_ids w) of
        None \<Rightarrow> None
      | Some (None, ids) \<Rightarrow> Some (None, w\<lparr>w_cur := None, w_ids := ids\<rparr>)
      | Some (Some c, ids) \<Rightarrow> map_option (\<lambda>(r, w1). (Some r, w1)) (readNext c (w\<lparr>w_cur := Some c, w_ids := ids\<rparr>)))"

definition nextStackHead :: "work \<Rightarrow> (ref option \<times> work) option" where
  "nextStackHead w =
     (if w_stack w \<noteq> [] then Some (Some (last (w_stack w)), w\<lparr>w_stack := butlast (w_stack w)\<rparr>)
      else case w_cur w of
        Some c \<Rightarrow>
          (case map_of (w_refs w) c of
             Some (rs, i) \<Rightarrow>
               if i < length rs then map_option (\<lambda>(r, w'). (Some r, w')) (readNext c w)
               else nextReader w
           | None \<Rightarrow> nextReader w)
      | None \<Rightarrow> nextReader w)"
subsection \<open>The loop\<close>

text \<open>Only an item can wait for another client.\<close>

definition refMissing :: "ref \<Rightarrow> trans \<Rightarrow> (Number option \<times> trans) option" where
  "refMissing r t = (case r of RItem a \<Rightarrow> missingClient a t | _ \<Rightarrow> Some (None, t))"

definition integrateRef :: "nat \<Rightarrow> ref \<Rightarrow> Number \<Rightarrow> trans \<Rightarrow> (go_error + trans) option" where
  "integrateRef n r offset t =
     (case r of
        RItem a \<Rightarrow> integrateStruct n a offset t
      | RGC ident len \<Rightarrow> Some (gcIntegrate ident len offset t)
      | RSkip ident len \<Rightarrow> Some (Inr t))"

definition advance :: "work \<Rightarrow> trans \<Rightarrow> (go_error + ref option \<times> work \<times> trans) option" where
  "advance w t = map_option (\<lambda>(r, w'). Inr (r, w', t)) (nextStackHead w)"

definition putAside :: "work \<Rightarrow> trans \<Rightarrow> (go_error + ref option \<times> work \<times> trans) option" where
  "putAside w t = (case addStackToRestSS t w of None \<Rightarrow> None | Some w' \<Rightarrow> advance w' t)"

text \<open>One turn of the loop with the struct \<open>r\<close> at hand; the struct of the next turn is \<open>None\<close> when the loop ends.\<close>

definition turn :: "nat \<Rightarrow> ref \<Rightarrow> work \<Rightarrow> trans \<Rightarrow> (go_error + ref option \<times> work \<times> trans) option" where
  "turn n r w t =
     (if case r of RSkip ident len \<Rightarrow> True | _ \<Rightarrow> False then advance w t
      else
        let client = id_Client (refID t r); offset = getState t client - id_Clock (refID t r);
            w1 = w\<lparr>w_stack := w_stack w @ [r]\<rparr>
        in if offset < 0 then putAside (updateMissingSv client (id_Clock (refID t r) - 1) w1) t
           else case refMissing r t of
             None \<Rightarrow> None
           | Some (Some missing, t1) \<Rightarrow>
               let (rs, i) = (case map_of (w_refs w1) missing of None \<Rightarrow> ([], 0) | Some structRefs \<Rightarrow> structRefs)
               in if length rs = i then putAside (updateMissingSv missing (getState t1 missing) w1) t1
                  else map_option (\<lambda>(r', w2). Inr (Some r', w2, t1)) (readNext missing w1)
           | Some (None, t1) \<Rightarrow>
               if offset = 0 \<or> offset < refLength t1 r
               then (case integrateRef n r offset t1 of
                       None \<Rightarrow> None
                     | Some (Inl e) \<Rightarrow> Some (Inl e)
                     | Some (Inr t2) \<Rightarrow> advance w t2)
               else advance w t1)"

text \<open>Every turn reads a struct or takes one from the stack.\<close>

definition unread :: "(Number \<times> clientStructRef) list \<Rightarrow> nat" where
  "unread m = sum_list (map (\<lambda>(c, rs, i). length rs - i) m)"

definition weight :: "work \<Rightarrow> nat" where
  "weight w = 2 * unread (w_refs w) + length (w_stack w)"

lemma unread_update: "map_of m c = Some (rs, i) \<Longrightarrow> i < length rs \<Longrightarrow> Suc (unread (AList.update c (rs, Suc i) m)) = unread m"
  by (induction m) (auto simp: unread_def split: if_splits)

lemma unread_delete: "unread (AList.delete c m) \<le> unread m"
  by (induction m) (auto simp: unread_def AList.delete_eq)

lemma readNext_weight: "readNext c w = Some (r, w') \<Longrightarrow> weight w' + 2 = weight w \<and> w_stack w' = w_stack w"
  using unread_update [of "w_refs w" c] by (fastforce simp: readNext_def weight_def split: option.splits if_splits prod.splits)

lemma nextStackHead_weight: "nextStackHead w = Some (Some r, w') \<Longrightarrow> weight w' < weight w"
proof -
  have n: "nextReader w = Some (Some r, w') \<Longrightarrow> weight w' < weight w"
    by (auto simp: nextReader_def weight_def split: option.splits prod.splits dest!: readNext_weight)
  assume "nextStackHead w = Some (Some r, w')"
  then show ?thesis
    by (cases "w_stack w" rule: rev_cases)
      (auto simp: nextStackHead_def weight_def split: option.splits if_splits prod.splits dest!: n readNext_weight)
qed

lemma addToRest_weight: "addToRest t r w = Some w' \<Longrightarrow> unread (w_refs w') \<le> unread (w_refs w)"
  by (auto simp: addToRest_def Let_def appendRest_def unread_delete split: option.splits if_splits prod.splits)

lemma addStack_weight:
  assumes "addStackToRestSS t w = Some w'"
  shows "unread (w_refs w') \<le> unread (w_refs w)" "w_stack w' = []"
proof -
  have "unread (w_refs w') \<le> unread (w_refs w)" if "foldM (addToRest t) st w = Some w'" for st w w'
    using that by (induction st arbitrary: w) (auto split: option.splits dest!: addToRest_weight intro: order.trans)
  then show "unread (w_refs w') \<le> unread (w_refs w)" "w_stack w' = []" using assms by (auto simp: addStackToRestSS_def)
qed

lemma updateMissingSv_simps [simp]:
  "w_refs (updateMissingSv c k w) = w_refs w" "w_stack (updateMissingSv c k w) = w_stack w" "w_ids (updateMissingSv c k w) = w_ids w"
  "w_cur (updateMissingSv c k w) = w_cur w" "w_rest (updateMissingSv c k w) = w_rest w"
  by (simp_all add: updateMissingSv_def split: option.splits)

lemma turn_weight:
  assumes "turn n r w t = Some (Inr (Some r', w', t'))"
  shows "weight w' < weight w"
proof -
  have adv: "advance w1 t1 = Some (Inr (Some r', w', t')) \<Longrightarrow> weight w' < weight w1" for w1 t1
    by (auto simp: advance_def dest: nextStackHead_weight)
  have aside: "weight w' < weight w" if p: "putAside w1 t1 = Some (Inr (Some r', w', t'))" and r: "w_refs w1 = w_refs w" for w1 t1
  proof -
    obtain w2 where w2: "addStackToRestSS t1 w1 = Some w2" "weight w' < weight w2"
      using p adv by (auto simp: putAside_def split: option.splits)
    then show ?thesis using addStack_weight [OF w2(1)] r by (simp add: weight_def)
  qed
  show ?thesis
    using assms
    by (auto simp: turn_def Let_def weight_def split: if_splits option.splits prod.splits sum.splits
        dest!: adv aside readNext_weight [unfolded weight_def])
qed

function integrateLoop :: "nat \<Rightarrow> ref \<Rightarrow> work \<Rightarrow> trans \<Rightarrow> (go_error + work \<times> trans) option" where
  "integrateLoop n r w t =
     (case turn n r w t of
        None \<Rightarrow> None
      | Some (Inl e) \<Rightarrow> Some (Inl e)
      | Some (Inr (None, w', t')) \<Rightarrow> Some (Inr (w', t'))
      | Some (Inr (Some r', w', t')) \<Rightarrow> integrateLoop n r' w' t')"
  by pat_completeness auto
termination
  by (relation "measure (\<lambda>(n, r, w, t). weight w)") (auto dest: turn_weight)

declare integrateLoop.simps [simp del]

record pendingStructsResult =
  p_missing :: "(Number \<times> Number) list"
  p_update :: "(Number \<times> ref list) list"

definition startWork :: "(Number \<times> ref list) list \<Rightarrow> work" where
  "startWork refs = \<lparr>w_refs = map (\<lambda>(c, rs). (c, rs, 0)) refs, w_ids = rev (sort (map fst refs)), w_cur = None, w_stack = [], w_rest = [], w_missing = []\<rparr>"

definition integrateStructs :: "nat \<Rightarrow> (Number \<times> ref list) list \<Rightarrow> trans \<Rightarrow> (go_error + pendingStructsResult option \<times> trans) option" where
  "integrateStructs n clientsStructRefs t =
     (case nextReader (startWork clientsStructRefs) of
        None \<Rightarrow> None
      | Some (None, w) \<Rightarrow> Some (Inr (None, t))
      | Some (Some r, w) \<Rightarrow>
          (case integrateLoop n r w t of
             None \<Rightarrow> None
           | Some (Inl e) \<Rightarrow> Some (Inl e)
           | Some (Inr (w', t')) \<Rightarrow>
               Some (Inr (if w_rest w' = [] then None else Some \<lparr>p_missing = w_missing w', p_update = w_rest w'\<rparr>, t'))))"
section \<open>The state of the loop\<close>

text \<open>Positions of a struct as the update brought it, before the loop has touched the document.\<close>

abbreviation cl :: "trans \<Rightarrow> ref \<Rightarrow> Number" where "cl t r \<equiv> id_Client (refID t r)"
abbreviation start :: "trans \<Rightarrow> ref \<Rightarrow> Number" where "start t r \<equiv> id_Clock (refID t r)"
abbreviation fin :: "trans \<Rightarrow> ref \<Rightarrow> Number" where "fin t r \<equiv> start t r + refLength t r"

definition isSkipRef :: "ref \<Rightarrow> bool" where
  "isSkipRef r = (case r of RSkip ident len \<Rightarrow> True | _ \<Rightarrow> False)"

definition refs_ok :: "trans \<Rightarrow> (Number \<times> ref list) list \<Rightarrow> bool" where
  "refs_ok t refs \<longleftrightarrow> distinct (map fst refs) \<and>
     (\<forall>(c, rs) \<in> set refs. distinct rs \<and>
        (\<forall>r \<in> set rs. cl t r = c \<and> 0 < refLength t r \<and> (case r of RItem a \<Rightarrow> a < t_next t \<and> a \<notin> addrs t | _ \<Rightarrow> True)))"

text \<open>The dependencies of the update follow some logical time: no struct depends, directly or not, on itself or on a later struct of its client.\<close>

definition timed :: "(Number \<Rightarrow> Number \<Rightarrow> nat) \<Rightarrow> trans \<Rightarrow> (Number \<times> ref list) list \<Rightarrow> bool" where
  "timed lam t refs \<longleftrightarrow> (\<forall>c k k'. k \<le> k' \<longrightarrow> lam c k \<le> lam c k') \<and>
     (\<forall>(c, rs) \<in> set refs. \<forall>a. RItem a \<in> set rs \<longrightarrow>
        (\<forall>d \<in> deps (t_heap t a). id_Client d \<noteq> c \<longrightarrow> lam (id_Client d) (id_Clock d) < lam c (id_Clock (i_id (t_heap t a)))))"

definition causal :: "trans \<Rightarrow> (Number \<times> ref list) list \<Rightarrow> bool" where
  "causal t refs \<longleftrightarrow> (\<exists>lam. timed lam t refs)"

text \<open>The document \<open>t\<close> holds the struct \<open>r\<close>.\<close>

definition settled :: "trans \<Rightarrow> trans \<Rightarrow> ref \<Rightarrow> bool" where
  "settled t0 t r \<longleftrightarrow> isSkipRef r \<or> fin t0 r \<le> getState t (cl t0 r)"

text \<open>\<open>x\<close> waits for a struct of the client of \<open>y\<close>.\<close>

definition lacks :: "trans \<Rightarrow> trans \<Rightarrow> ref \<Rightarrow> ref \<Rightarrow> bool" where
  "lacks t0 t x y \<longleftrightarrow> (\<exists>a d. x = RItem a \<and> d \<in> deps (t_heap t0 a) \<and> id_Client d = cl t0 y \<and> cl t0 y \<noteq> cl t0 x \<and>
     getState t (id_Client d) \<le> id_Clock d)"

definition pend :: "work \<Rightarrow> ref list \<Rightarrow> ref set" where
  "pend w L = set L \<union> {x. \<exists>c rs i. map_of (w_refs w) c = Some (rs, i) \<and> x \<in> set (drop i rs)}"

text \<open>
  The invariant, with the structs \<open>L\<close> on the stack and at hand: a reader has settled everything it has read but the struct in \<open>L\<close>; the structs of a
  client whose reader is gone are settled up to the ones put aside; what is pending is untouched; and the structs of \<open>L\<close> wait for one another.
\<close>

definition reading :: "trans \<Rightarrow> (Number \<times> ref list) list \<Rightarrow> work \<Rightarrow> ref list \<Rightarrow> trans \<Rightarrow> bool" where
  "reading t0 refs w L t \<longleftrightarrow>
     (\<forall>c rs i. map_of (w_refs w) c = Some (rs, i) \<longrightarrow> map_of refs c = Some rs \<and> i \<le> length rs \<and>
        (\<forall>j < i. rs ! j \<notin> set L \<longrightarrow> settled t0 t (rs ! j)) \<and> (i < length rs \<longrightarrow> c \<in> set (w_ids w))) \<and>
     (\<forall>c \<in> set (w_ids w). map_of (w_refs w) c \<noteq> None)"

definition aside :: "trans \<Rightarrow> (Number \<times> ref list) list \<Rightarrow> work \<Rightarrow> trans \<Rightarrow> bool" where
  "aside t0 refs w t \<longleftrightarrow>
     (\<forall>c rs. map_of refs c = Some rs \<longrightarrow> map_of (w_refs w) c = None \<longrightarrow>
        (\<exists>i < length rs. map_of (w_rest w) c = Some (drop i rs) \<and> (\<forall>j < i. settled t0 t (rs ! j)))) \<and>
     (\<forall>c rs. map_of (w_rest w) c = Some rs \<longrightarrow> map_of refs c \<noteq> None \<and> map_of (w_refs w) c = None)"

definition waiting :: "trans \<Rightarrow> work \<Rightarrow> ref list \<Rightarrow> trans \<Rightarrow> bool" where
  "waiting t0 w L t \<longleftrightarrow>
     (\<forall>x \<in> set L. \<exists>rs i. map_of (w_refs w) (cl t0 x) = Some (rs, Suc i) \<and> i < length rs \<and> rs ! i = x) \<and>
     (\<forall>a. RItem a \<in> pend w L \<longrightarrow> a < t_next t \<and> a \<notin> addrs t \<and> wire (t_heap t a) = wire (t_heap t0 a)) \<and>
     distinct (map (cl t0) L) \<and> successively (lacks t0 t) L"

definition run_ok :: "trans \<Rightarrow> (Number \<times> ref list) list \<Rightarrow> work \<Rightarrow> ref list \<Rightarrow> trans \<Rightarrow> bool" where
  "run_ok t0 refs w L t \<longleftrightarrow> heap_ok t \<and> (\<forall>c. getState t0 c \<le> getState t c) \<and> reading t0 refs w L t \<and> aside t0 refs w t \<and> waiting t0 w L t"

definition bounded :: "trans \<Rightarrow> trans \<Rightarrow> ref list \<Rightarrow> bool" where
  "bounded t0 t L \<longleftrightarrow> (\<forall>x \<in> set L. start t0 x \<le> getState t (cl t0 x))"

lemma refs_okD:
  assumes "refs_ok t refs" "map_of refs c = Some rs"
  shows "distinct rs" "\<And>r. r \<in> set rs \<Longrightarrow> cl t r = c \<and> 0 < refLength t r"
    "\<And>a. RItem a \<in> set rs \<Longrightarrow> a < t_next t \<and> a \<notin> addrs t"
proof -
  have "\<forall>(c, rs) \<in> set refs. distinct rs \<and>
        (\<forall>r \<in> set rs. cl t r = c \<and> 0 < refLength t r \<and> (case r of RItem a \<Rightarrow> a < t_next t \<and> a \<notin> addrs t | _ \<Rightarrow> True))"
    using assms(1) by (simp add: refs_ok_def)
  from bspec [OF this map_of_SomeD [OF assms(2)]]
  have a: "distinct rs" "\<forall>r \<in> set rs. cl t r = c \<and> 0 < refLength t r \<and> (case r of RItem a \<Rightarrow> a < t_next t \<and> a \<notin> addrs t | _ \<Rightarrow> True)" by simp_all
  show "distinct rs" by (rule a)
  show "cl t r = c \<and> 0 < refLength t r" if "r \<in> set rs" for r
    using bspec [OF a(2) that] by (elim conjE) (intro conjI)
  show "a < t_next t \<and> a \<notin> addrs t" if "RItem a \<in> set rs" for a
    using bspec [OF a(2) that] unfolding ref.case by (elim conjE) (intro conjI)
qed

lemma refID_pend:
  assumes "waiting t0 w L t" "r \<in> pend w L"
  shows "refID t r = refID t0 r" "refLength t r = refLength t0 r"
proof -
  have "refID t r = refID t0 r \<and> refLength t r = refLength t0 r"
  proof (cases r)
    case (RItem a)
    then have "wire (t_heap t a) = wire (t_heap t0 a)" using assms by (simp add: waiting_def)
    from wireD [OF this] show ?thesis using RItem by (simp add: refID_def refLength_def)
  qed (simp_all add: refID_def refLength_def)
  then show "refID t r = refID t0 r" "refLength t r = refLength t0 r" by simp_all
qed

lemma waiting_reader:
  assumes "waiting t0 w L t" "x \<in> set L"
  obtains rs i where "map_of (w_refs w) (cl t0 x) = Some (rs, Suc i)" "i < length rs" "rs ! i = x"
proof -
  have "\<forall>x \<in> set L. \<exists>rs i. map_of (w_refs w) (cl t0 x) = Some (rs, Suc i) \<and> i < length rs \<and> rs ! i = x"
    using assms(1) unfolding waiting_def by (rule conjunct1)
  from bspec [OF this assms(2)] that show ?thesis by blast
qed

text \<open>The struct of a client in \<open>L\<close> is the only one of its client there, and the last one its reader has read.\<close>

lemma waiting_unique:
  assumes "refs_ok t0 refs" "reading t0 refs w L t" "waiting t0 w L t" "x \<in> set L" "map_of (w_refs w) (cl t0 x) = Some (rs, Suc i)" "j < i"
  shows "rs ! j \<notin> set L"
proof
  assume "rs ! j \<in> set L"
  have rs: "map_of refs (cl t0 x) = Some rs" "Suc i \<le> length rs" using assms(2,5) by (auto simp: reading_def)
  note ok = refs_okD [OF assms(1) rs(1)]
  have xi: "rs ! i = x" using assms(3,4,5) by (fastforce simp: waiting_def)
  have "cl t0 (rs ! j) = cl t0 x" using ok(2) [of "rs ! j"] rs(2) assms(6) by simp
  then have "rs ! j = x" using assms(3,4) \<open>rs ! j \<in> set L\<close> by (auto simp: waiting_def distinct_map inj_on_def)
  then show False using xi ok(1) rs(2) assms(6) nth_eq_iff_index_eq [of rs i j] by simp
qed

section \<open>Reading\<close>

lemma readNext_ok:
  assumes ok: "refs_ok t0 refs" "run_ok t0 refs w L t" and rd: "readNext c w = Some (x, w')"
    and new: "c \<notin> cl t0 ` set L" "L \<noteq> [] \<Longrightarrow> cl t0 x = c \<Longrightarrow> lacks t0 t (last L) x"
  shows "run_ok t0 refs w' (L @ [x]) t \<and> w_stack w' = w_stack w \<and> w_rest w' = w_rest w"
proof -
  obtain rs i where rs: "map_of (w_refs w) c = Some (rs, i)" "i < length rs" "x = rs ! i"
    and w': "w' = w\<lparr>w_refs := AList.update c (rs, Suc i) (w_refs w)\<rparr>"
    using rd by (auto simp: readNext_def split: option.splits if_splits)
  have m: "map_of (w_refs w') = (map_of (w_refs w))(c \<mapsto> (rs, Suc i))" by (simp add: w' update_conv')
  have r: "reading t0 refs w L t" "waiting t0 w L t" "aside t0 refs w t" using ok(2) by (simp_all add: run_ok_def)
  have mr: "map_of refs c = Some rs" using r(1) rs(1) by (auto simp: reading_def)
  note rk = refs_okD [OF ok(1) mr]
  have cx: "cl t0 x = c" using rk(2) [of x] rs by simp
  have "reading t0 refs w' (L @ [x]) t"
    using r(1) rs unfolding reading_def m by (auto simp: w' less_Suc_eq)
  moreover have "aside t0 refs w' t" using r(3) rs(1) unfolding aside_def m by (auto simp: w')
  moreover have "waiting t0 w' (L @ [x]) t"
  proof -
    have "pend w' (L @ [x]) \<subseteq> pend w L"
    proof -
      have "x \<in> set (drop i rs)" "set (drop (Suc i) rs) \<subseteq> set (drop i rs)"
        using rs(2,3) by (auto simp: Cons_nth_drop_Suc [symmetric])
      then show ?thesis using rs(1) unfolding pend_def m by (auto split: if_splits)
    qed
    moreover have "\<exists>rs' i'. map_of (w_refs w') (cl t0 y) = Some (rs', Suc i') \<and> i' < length rs' \<and> rs' ! i' = y" if "y \<in> set L" for y
      using r(2) that new(1) unfolding m waiting_def by fastforce
    ultimately show ?thesis
      using r(2) rs cx new unfolding waiting_def
      by (auto simp: m successively_append_iff)
  qed
  ultimately show ?thesis using ok(2) by (simp add: run_ok_def w')
qed
lemma run_ok_cong:
  "w_refs w' = w_refs w \<Longrightarrow> w_ids w' = w_ids w \<Longrightarrow> w_rest w' = w_rest w \<Longrightarrow> run_ok t0 refs w' L t = run_ok t0 refs w L t"
  by (simp add: run_ok_def reading_def aside_def waiting_def pend_def)

lemma getNextStructTarget_ok:
  assumes "\<forall>c \<in> set ids. map_of m c \<noteq> None"
  shows "\<exists>q ids'. getNextStructTarget m ids = Some (q, ids') \<and> set ids' \<subseteq> set ids \<and>
    (\<forall>c rs i. c \<in> set ids \<longrightarrow> map_of m c = Some (rs, i) \<longrightarrow> i \<noteq> length rs \<longrightarrow> c \<in> set ids') \<and>
    (case q of None \<Rightarrow> ids' = [] | Some c \<Rightarrow> \<exists>rs i. map_of m c = Some (rs, i) \<and> i \<noteq> length rs)"
  using assms
proof (induction ids)
  case (Cons c cs)
  obtain rs i where c: "map_of m c = Some (rs, i)" using Cons.prems by auto
  show ?case
  proof (cases "i = length rs")
    case True
    then show ?thesis using Cons c by fastforce
  next
    case False
    then show ?thesis using c by auto
  qed
qed simp

definition exhausted :: "work \<Rightarrow> bool" where
  "exhausted w \<longleftrightarrow> (\<forall>c rs i. map_of (w_refs w) c = Some (rs, i) \<longrightarrow> i = length rs)"

lemma nextReader_ok:
  assumes ok: "refs_ok t0 refs" "run_ok t0 refs w [] t"
  shows "\<exists>q w'. nextReader w = Some (q, w') \<and> w_rest w' = w_rest w \<and>
    (case q of None \<Rightarrow> run_ok t0 refs w' [] t \<and> exhausted w' | Some x \<Rightarrow> run_ok t0 refs w' [x] t \<and> w_stack w' = w_stack w)"
proof -
  have rd: "reading t0 refs w [] t" using ok(2) by (simp add: run_ok_def)
  then have "\<forall>c \<in> set (w_ids w). map_of (w_refs w) c \<noteq> None" by (simp add: reading_def)
  then obtain q ids where q: "getNextStructTarget (w_refs w) (w_ids w) = Some (q, ids)" "set ids \<subseteq> set (w_ids w)"
    "\<And>c rs i. c \<in> set (w_ids w) \<Longrightarrow> map_of (w_refs w) c = Some (rs, i) \<Longrightarrow> i \<noteq> length rs \<Longrightarrow> c \<in> set ids"
    "case q of None \<Rightarrow> ids = [] | Some c \<Rightarrow> \<exists>rs i. map_of (w_refs w) c = Some (rs, i) \<and> i \<noteq> length rs"
    using getNextStructTarget_ok by blast
  have up: "run_ok t0 refs (w\<lparr>w_cur := q, w_ids := ids\<rparr>) [] t"
  proof -
    have "reading t0 refs (w\<lparr>w_cur := q, w_ids := ids\<rparr>) [] t" using rd q(2,3) unfolding reading_def by fastforce
    then show ?thesis using ok(2) by (simp add: run_ok_def aside_def waiting_def pend_def)
  qed
  show ?thesis
  proof (cases q)
    case None
    have "exhausted w" unfolding exhausted_def
    proof (intro allI impI)
      fix c rs i
      assume c: "map_of (w_refs w) c = Some (rs, i)"
      then have "i \<le> length rs" "i < length rs \<longrightarrow> c \<in> set (w_ids w)" using rd by (auto simp: reading_def)
      then show "i = length rs" using q(3) [OF _ c] q(4) None by auto
    qed
    then show ?thesis using None q(1) up by (simp add: nextReader_def exhausted_def)
  next
    case (Some c)
    obtain rs i where c: "map_of (w_refs w) c = Some (rs, i)" "i \<noteq> length rs" using q(4) Some by auto
    have "i < length rs" using rd c by (fastforce simp: reading_def)
    then obtain x w' where x: "readNext c (w\<lparr>w_cur := q, w_ids := ids\<rparr>) = Some (x, w')" using c by (simp add: readNext_def)
    from readNext_ok [OF ok(1) up x] show ?thesis using x Some q(1) by (simp add: nextReader_def)
  qed
qed

lemma nextStackHead_ok:
  assumes ok: "refs_ok t0 refs" "run_ok t0 refs w (w_stack w) t" "bounded t0 t (w_stack w)"
  shows "\<exists>q w'. nextStackHead w = Some (q, w') \<and> w_rest w' = w_rest w \<and>
    (case q of None \<Rightarrow> run_ok t0 refs w' [] t \<and> exhausted w'
     | Some x \<Rightarrow> run_ok t0 refs w' (w_stack w' @ [x]) t \<and> bounded t0 t (w_stack w'))"
proof (cases "w_stack w" rule: rev_cases)
  case Nil
  note r = ok(2) [unfolded Nil]
  have b: "bounded t0 t []" by (simp add: bounded_def)
  have n: "\<exists>q w'. nextReader w = Some (q, w') \<and> w_rest w' = w_rest w \<and>
    (case q of None \<Rightarrow> run_ok t0 refs w' [] t \<and> exhausted w' | Some x \<Rightarrow> run_ok t0 refs w' (w_stack w' @ [x]) t \<and> bounded t0 t (w_stack w'))"
    using nextReader_ok [OF ok(1) r] Nil b by (fastforce split: option.splits)
  show ?thesis
  proof (cases "\<exists>c rs i. w_cur w = Some c \<and> map_of (w_refs w) c = Some (rs, i) \<and> i < length rs")
    case True
    then obtain c rs i where c: "w_cur w = Some c" "map_of (w_refs w) c = Some (rs, i)" "i < length rs" by blast
    then obtain x w' where x: "readNext c w = Some (x, w')" by (simp add: readNext_def)
    have "run_ok t0 refs w' [x] t \<and> w_stack w' = [] \<and> w_rest w' = w_rest w" using readNext_ok [OF ok(1) r x] Nil by simp
    then show ?thesis using x c Nil b by (simp add: nextStackHead_def)
  next
    case False
    then have "nextStackHead w = nextReader w" using Nil by (auto simp: nextStackHead_def split: option.splits)
    then show ?thesis using n by simp
  qed
next
  case (snoc st x)
  have "run_ok t0 refs (w\<lparr>w_stack := st\<rparr>) (st @ [x]) t" using ok(2) snoc run_ok_cong [of "w\<lparr>w_stack := st\<rparr>" w] by simp
  then show ?thesis using snoc ok(3) by (simp add: nextStackHead_def bounded_def)
qed

section \<open>Putting aside\<close>

lemma addToRest_ok:
  assumes ok: "refs_ok t0 refs" "run_ok t0 refs w (x # L) t"
  shows "\<exists>w'. addToRest t x w = Some w' \<and> run_ok t0 refs w' L t"
proof -
  let ?c = "cl t0 x"
  have r: "reading t0 refs w (x # L) t" "waiting t0 w (x # L) t" "aside t0 refs w t" using ok(2) by (simp_all add: run_ok_def)
  obtain rs i where rs: "map_of (w_refs w) ?c = Some (rs, Suc i)" "i < length rs" "rs ! i = x" using r(2) by (auto simp: waiting_def)
  have mr: "map_of refs ?c = Some rs" using r(1) rs(1) by (auto simp: reading_def)
  have before: "settled t0 t (rs ! j)" if "j < i" for j
    using waiting_unique [OF ok(1) r(1,2) _ rs(1) that] r(1) rs(1) that by (auto simp: reading_def)
  have nr: "map_of (w_rest w) ?c = None" using r(3) rs(1) unfolding aside_def by (metis option.distinct(1) not_None_eq)
  have cx: "cl t x = ?c" using refID_pend(1) [OF r(2), of x] by (simp add: pend_def)
  define w' where "w' = w\<lparr>w_rest := AList.update ?c (drop i rs) (w_rest w), w_refs := AList.delete ?c (w_refs w), w_ids := filter (\<lambda>c. c \<noteq> ?c) (w_ids w)\<rparr>"
  have run: "addToRest t x w = Some w'" using rs nr by (simp add: addToRest_def appendRest_def Let_def w'_def cx)
  have m: "map_of (w_refs w') = (map_of (w_refs w))(?c := None)" "map_of (w_rest w') = (map_of (w_rest w))(?c \<mapsto> drop i rs)"
    by (simp_all add: w'_def delete_conv' update_conv')
  have ncl: "?c \<notin> cl t0 ` set L" using r(2) by (auto simp: waiting_def)
  have "reading t0 refs w' L t" unfolding reading_def
  proof (intro conjI allI impI ballI)
    fix c rs' i'
    assume c: "map_of (w_refs w') c = Some (rs', i')"
    then have c': "map_of (w_refs w) c = Some (rs', i')" "c \<noteq> ?c" by (auto simp: m split: if_splits)
    then show d: "map_of refs c = Some rs'" "i' \<le> length rs'" "i' < length rs' \<Longrightarrow> c \<in> set (w_ids w')"
      using r(1) by (auto simp: reading_def w'_def)
    show "settled t0 t (rs' ! j)" if "j < i'" "rs' ! j \<notin> set L" for j
    proof -
      have "cl t0 (rs' ! j) = c" using refs_okD(2) [OF ok(1) d(1), of "rs' ! j"] d(2) that(1) by simp
      then have "rs' ! j \<noteq> x" using c'(2) by auto
      then show ?thesis using r(1) c'(1) that by (auto simp: reading_def)
    qed
  next
    fix c assume "c \<in> set (w_ids w')"
    then show "map_of (w_refs w') c \<noteq> None" using r(1) by (auto simp: reading_def m w'_def)
  qed
  moreover have "aside t0 refs w' t"
    using r(3) mr rs(2) before unfolding aside_def m by (auto split: if_splits)
  moreover have "waiting t0 w' L t"
  proof -
    have "pend w' L \<subseteq> pend w (x # L)" by (auto simp: pend_def m split: if_splits)
    moreover have "map_of (w_refs w') (cl t0 y) = map_of (w_refs w) (cl t0 y)" if "y \<in> set L" for y
    proof -
      have "cl t0 y \<noteq> ?c" using ncl that by (metis imageI)
      then show ?thesis by (simp add: m)
    qed
    ultimately show ?thesis using r(2) unfolding waiting_def by (auto simp: successively_Cons)
  qed
  ultimately show ?thesis using ok(2) run by (simp add: run_ok_def)
qed

lemma addStack_ok:
  assumes "refs_ok t0 refs" "run_ok t0 refs w (w_stack w) t"
  shows "\<exists>w'. addStackToRestSS t w = Some w' \<and> run_ok t0 refs w' [] t \<and> w_stack w' = []"
proof -
  have "\<exists>w'. foldM (addToRest t) L w = Some w' \<and> run_ok t0 refs w' [] t" if "run_ok t0 refs w L t" for L w
    using that
  proof (induction L arbitrary: w)
    case (Cons x L)
    obtain w1 where w1: "addToRest t x w = Some w1" "run_ok t0 refs w1 L t" using addToRest_ok [OF assms(1) Cons.prems] by blast
    then show ?case using Cons.IH [OF w1(2)] by simp
  qed simp
  then obtain w1 where w1: "foldM (addToRest t) (w_stack w) w = Some w1" "run_ok t0 refs w1 [] t" using assms(2) by blast
  then show ?thesis using run_ok_cong [of "w1\<lparr>w_stack := []\<rparr>" w1] by (simp add: addStackToRestSS_def)
qed
section \<open>One turn\<close>

lemma settled_mono: "(\<And>c. getState t c \<le> getState t' c) \<Longrightarrow> settled t0 t x \<Longrightarrow> settled t0 t' x"
  by (auto simp: settled_def intro: order.trans)

text \<open>The struct at hand is done: the document may have moved, but only at that struct.\<close>

lemma run_ok_done:
  assumes ok: "refs_ok t0 refs" "run_ok t0 refs w (L @ [r]) t" and ev: "evolves {a. r = RItem a} t t'"
    and st: "getState t' = (getState t)(cl t0 r := v)" "getState t (cl t0 r) \<le> v" and s: "settled t0 t' r"
  shows "run_ok t0 refs w L t'"
proof -
  have i: "reading t0 refs w (L @ [r]) t" "waiting t0 w (L @ [r]) t" "aside t0 refs w t" "\<And>c. getState t0 c \<le> getState t c"
    using ok(2) by (simp_all add: run_ok_def)
  have mono: "getState t c \<le> getState t' c" for c using st by simp
  note sm = settled_mono [of t t', OF mono]
  have "reading t0 refs w L t'" unfolding reading_def
  proof (intro conjI allI impI)
    fix c rs k j
    assume c: "map_of (w_refs w) c = Some (rs, k)"
    show "map_of refs c = Some rs" "k \<le> length rs" "k < length rs \<Longrightarrow> c \<in> set (w_ids w)" using i(1) c by (auto simp: reading_def)
    show "settled t0 t' (rs ! j)" if j: "j < k" "rs ! j \<notin> set L"
    proof (cases "rs ! j = r")
      case False
      then have "rs ! j \<notin> set (L @ [r])" using j(2) by simp
      then have "settled t0 t (rs ! j)" using i(1) c j(1) unfolding reading_def by blast
      then show ?thesis by (rule sm)
    qed (use s in simp)
  qed (use i(1) in \<open>simp add: reading_def\<close>)
  moreover have "aside t0 refs w t'" using i(3) sm unfolding aside_def by metis
  moreover have "waiting t0 w L t'"
  proof -
    obtain rs k where rs: "map_of (w_refs w) (cl t0 r) = Some (rs, Suc k)" "k < length rs" "rs ! k = r" using waiting_reader [OF i(2), of r] by auto
    have nr: "r \<notin> pend w L"
    proof
      assume "r \<in> pend w L"
      moreover have "r \<notin> set L" using i(2) by (auto simp: waiting_def)
      ultimately obtain c rs' j where c: "map_of (w_refs w) c = Some (rs', j)" "r \<in> set (drop j rs')" by (auto simp: pend_def)
      have mr: "map_of refs c = Some rs'" using i(1) c(1) by (auto simp: reading_def)
      have "c = cl t0 r" using refs_okD(2) [OF ok(1) mr] in_set_dropD [OF c(2)] by simp
      then have j: "rs' = rs" "j = Suc k" using c(1) rs(1) by simp_all
      obtain m where "m < length (drop j rs')" "drop j rs' ! m = r" using c(2) by (auto simp: in_set_conv_nth)
      then have "rs ! (Suc k + m) = rs ! k" "Suc k + m < length rs" using rs(3) by (simp_all add: j)
      then show False using nth_eq_iff_index_eq [OF refs_okD(1) [OF ok(1) mr], of "Suc k + m" k] rs(2) by (simp add: j)
    qed
    have "a < t_next t' \<and> a \<notin> addrs t' \<and> wire (t_heap t' a) = wire (t_heap t0 a)" if "RItem a \<in> pend w L" for a
    proof -
      have "RItem a \<in> pend w (L @ [r])" "r \<noteq> RItem a" using that nr by (auto simp: pend_def)
      then show ?thesis using i(2) evolvesD [OF ev, of a] by (auto simp: waiting_def)
    qed
    moreover have "successively (lacks t0 t') L"
    proof (rule successively_mono)
      show "successively (lacks t0 t) L" using i(2) by (simp add: waiting_def successively_append_iff)
      fix x y assume "x \<in> set L" "y \<in> set L" "lacks t0 t x y"
      moreover have "cl t0 y \<noteq> cl t0 r" using i(2) \<open>y \<in> set L\<close> by (force simp: waiting_def)
      ultimately show "lacks t0 t' x y" unfolding lacks_def by (metis fun_upd_other st(1))
    qed
    ultimately show ?thesis using i(2) unfolding waiting_def by auto
  qed
  ultimately show ?thesis using ev i(4) mono order.trans [OF i(4) mono] by (simp add: run_ok_def evolves_def)
qed

text \<open>A chain of structs that wait for one another goes back in time, so a missing client is not among theirs.\<close>

lemma waits_back:
  assumes ok: "refs_ok t0 refs" "timed lam t0 refs" "run_ok t0 refs w (L @ [r]) t" "bounded t0 t (L @ [r])"
    and d: "r = RItem a" "d \<in> deps (t_heap t0 a)" "id_Client d \<noteq> cl t0 r" "getState t (id_Client d) \<le> id_Clock d"
  shows "id_Client d \<notin> cl t0 ` set (L @ [r])"
proof -
  let ?at = "\<lambda>x. lam (cl t0 x) (start t0 x)"
  have i: "reading t0 refs w (L @ [r]) t" "waiting t0 w (L @ [r]) t" using ok(3) by (simp_all add: run_ok_def)
  have mono: "k \<le> k' \<Longrightarrow> lam c k \<le> lam c k'" for c k k' using ok(2) by (simp add: timed_def)
  have dep_before: "lam (id_Client d) (id_Clock d) < ?at x" if "x \<in> set (L @ [r])" "x = RItem b" "d \<in> deps (t_heap t0 b)" "id_Client d \<noteq> cl t0 x" for x b d
  proof -
    obtain rs k where rs: "map_of (w_refs w) (cl t0 x) = Some (rs, Suc k)" "k < length rs" "rs ! k = x" using waiting_reader [OF i(2) \<open>x \<in> set (L @ [r])\<close>] by blast
    have m: "map_of refs (cl t0 x) = Some rs" using i(1) rs(1) by (auto simp: reading_def)
    have b: "RItem b \<in> set rs" using rs nth_mem [of k rs] that(2) by simp
    have "\<forall>(c, rs) \<in> set refs. \<forall>a. RItem a \<in> set rs \<longrightarrow>
        (\<forall>d \<in> deps (t_heap t0 a). id_Client d \<noteq> c \<longrightarrow> lam (id_Client d) (id_Clock d) < lam c (id_Clock (i_id (t_heap t0 a))))"
      using ok(2) by (simp add: timed_def)
    from bspec [OF this map_of_SomeD [OF m]] b that(3,4)
    have "lam (id_Client d) (id_Clock d) < lam (cl t0 x) (id_Clock (i_id (t_heap t0 b)))" by simp
    then show ?thesis using that(2) by (simp add: refID_def)
  qed
  have step: "?at y < ?at x" if l: "lacks t0 t x y" "x \<in> set (L @ [r])" "y \<in> set (L @ [r])" for x y
  proof -
    obtain b e where e: "x = RItem b" "e \<in> deps (t_heap t0 b)" "id_Client e = cl t0 y" "cl t0 y \<noteq> cl t0 x" "getState t (id_Client e) \<le> id_Clock e"
      using l(1) by (auto simp: lacks_def)
    have "start t0 y \<le> id_Clock e" using ok(4) that(3) e(3,5) by (fastforce simp: bounded_def)
    then have "?at y \<le> lam (id_Client e) (id_Clock e)" using mono e(3) by simp
    then show ?thesis using dep_before [OF that(2) e(1,2)] e(3,4) by simp
  qed
  have "\<forall>x \<in> set (M @ [r]). ?at r \<le> ?at x" if "successively (lacks t0 t) (M @ [r])" "set (M @ [r]) \<subseteq> set (L @ [r])" for M
    using that
  proof (induction M)
    case (Cons y M)
    let ?z = "hd (M @ [r])"
    have z: "?z \<in> set (M @ [r])" by (cases M) auto
    have l: "lacks t0 t y ?z" "successively (lacks t0 t) (M @ [r])" using Cons.prems(1) by (cases M; auto)+
    have ih: "\<forall>x \<in> set (M @ [r]). ?at r \<le> ?at x" using Cons.IH [OF l(2)] Cons.prems(2) by simp
    have "?at ?z < ?at y" using step [OF l(1)] z Cons.prems(2) by auto
    then show ?case using ih z by (metis append_Cons order.strict_implies_order order.trans set_ConsD)
  qed simp
  then have le: "?at r \<le> ?at x" if "x \<in> set (L @ [r])" for x using that i(2) unfolding waiting_def by blast
  show ?thesis
  proof
    assume "id_Client d \<in> cl t0 ` set (L @ [r])"
    then obtain x where x: "x \<in> set (L @ [r])" "id_Client d = cl t0 x" by blast
    have "start t0 x \<le> id_Clock d" using ok(4) x d(4) by (fastforce simp: bounded_def)
    then have "?at x \<le> lam (id_Client d) (id_Clock d)" using mono x(2) by simp
    also have "\<dots> < ?at r" using dep_before [of r a d] d(1-3) by simp
    finally show False using le [OF x(1)] by simp
  qed
qed
text \<open>The update brings everything it depends on, without gaps.\<close>

definition complete :: "trans \<Rightarrow> (Number \<times> ref list) list \<Rightarrow> bool" where
  "complete t0 refs \<longleftrightarrow>
     (\<forall>(c, rs) \<in> set refs. list_all (\<lambda>r. \<not> isSkipRef r) rs \<and>
        (\<forall>i < length rs. start t0 (rs ! i) \<le> (if i = 0 then getState t0 c else fin t0 (rs ! (i - 1)))) \<and>
        (\<forall>a. RItem a \<in> set rs \<longrightarrow> (\<forall>d \<in> deps (t_heap t0 a). id_Client d \<noteq> c \<longrightarrow>
           id_Clock d < getState t0 (id_Client d) \<or>
           (\<exists>rs' r. map_of refs (id_Client d) = Some rs' \<and> r \<in> set rs' \<and> id_Clock d < fin t0 r))))"

lemma completeD:
  assumes "complete t0 refs" "map_of refs c = Some rs"
  shows "\<And>r. r \<in> set rs \<Longrightarrow> \<not> isSkipRef r"
    "\<And>i. i < length rs \<Longrightarrow> start t0 (rs ! i) \<le> (if i = 0 then getState t0 c else fin t0 (rs ! (i - 1)))"
    "\<And>a d. RItem a \<in> set rs \<Longrightarrow> d \<in> deps (t_heap t0 a) \<Longrightarrow> id_Client d \<noteq> c \<Longrightarrow>
       id_Clock d < getState t0 (id_Client d) \<or> (\<exists>rs' r. map_of refs (id_Client d) = Some rs' \<and> r \<in> set rs' \<and> id_Clock d < fin t0 r)"
  using bspec [OF assms(1) [unfolded complete_def] map_of_SomeD [OF assms(2)]] by (auto simp: list_all_iff)

text \<open>The struct at hand of a complete update continues the document.\<close>

lemma complete_continues:
  assumes ok: "refs_ok t0 refs" "run_ok t0 refs w (L @ [r]) t" "complete t0 refs"
  shows "start t0 r \<le> getState t (cl t0 r)"
proof -
  have i: "reading t0 refs w (L @ [r]) t" "waiting t0 w (L @ [r]) t" "\<And>c. getState t0 c \<le> getState t c" using ok(2) by (simp_all add: run_ok_def)
  have r: "r \<in> set (L @ [r])" by simp
  obtain rs k where rs: "map_of (w_refs w) (cl t0 r) = Some (rs, Suc k)" "k < length rs" "rs ! k = r" using waiting_reader [OF i(2) r] by blast
  have m: "map_of refs (cl t0 r) = Some rs" using i(1) rs(1) by (auto simp: reading_def)
  note c = completeD [OF ok(3) m]
  show ?thesis
  proof (cases k)
    case 0
    then show ?thesis using c(2) [OF rs(2)] i(3) [of "cl t0 r"] rs(3) by simp
  next
    case (Suc j)
    have "rs ! j \<notin> set (L @ [r])" by (rule waiting_unique [OF ok(1) i(1,2) r rs(1)]) (simp add: Suc)
    then have "settled t0 t (rs ! j)" using i(1) rs(1) Suc by (fastforce simp: reading_def)
    moreover have "rs ! j \<in> set rs" using rs(2) Suc by simp
    ultimately have "fin t0 (rs ! j) \<le> getState t (cl t0 r)" using c(1) refs_okD(2) [OF ok(1) m] by (fastforce simp: settled_def)
    then show ?thesis using c(2) [OF rs(2)] rs(3) Suc by simp
  qed
qed

text \<open>A client that a struct of a complete update waits for has structs to read.\<close>

lemma complete_readable:
  assumes ok: "refs_ok t0 refs" "run_ok t0 refs w (L @ [r]) t" "complete t0 refs" "w_rest w = []"
    and d: "r = RItem a" "d \<in> deps (t_heap t0 a)" "id_Client d \<noteq> cl t0 r" "getState t (id_Client d) \<le> id_Clock d"
    and n: "id_Client d \<notin> cl t0 ` set (L @ [r])"
  shows "\<exists>rs i. map_of (w_refs w) (id_Client d) = Some (rs, i) \<and> i < length rs"
proof -
  have i: "reading t0 refs w (L @ [r]) t" "waiting t0 w (L @ [r]) t" "aside t0 refs w t" "\<And>c. getState t0 c \<le> getState t c"
    using ok(2) by (simp_all add: run_ok_def)
  have r: "r \<in> set (L @ [r])" by simp
  obtain rs k where rs: "map_of (w_refs w) (cl t0 r) = Some (rs, Suc k)" "k < length rs" "rs ! k = r" using waiting_reader [OF i(2) r] by blast
  have m: "map_of refs (cl t0 r) = Some rs" using i(1) rs(1) by (auto simp: reading_def)
  have "RItem a \<in> set rs" using rs d(1) nth_mem [of k rs] by simp
  from completeD(3) [OF ok(3) m this d(2,3)] i(4) [of "id_Client d"] d(4)
  obtain rs' x where x: "map_of refs (id_Client d) = Some rs'" "x \<in> set rs'" "id_Clock d < fin t0 x" by force
  have "map_of (w_refs w) (id_Client d) \<noteq> None"
    using i(3) x(1) ok(4) unfolding aside_def by (metis map_of.simps(1) option.distinct(1))
  then obtain k' where k': "map_of (w_refs w) (id_Client d) = Some (rs', k')" using i(1) x(1) by (fastforce simp: reading_def)
  have "k' < length rs'"
  proof (rule ccontr)
    assume "\<not> k' < length rs'"
    then obtain j where j: "j < k'" "rs' ! j = x" using x(2) by (metis in_set_conv_nth leI order.strict_trans2)
    have cx: "cl t0 x = id_Client d" using refs_okD(2) [OF ok(1) x(1,2)] by simp
    then have "x \<notin> set (L @ [r])" using n by (metis imageI)
    then have "settled t0 t x" using i(1) k' j by (fastforce simp: reading_def)
    then show False using completeD(1) [OF ok(3) x(1,2)] x(3) d(4) cx by (simp add: settled_def)
  qed
  then show ?thesis using k' by blast
qed
lemma integrateRef_ok:
  assumes ok: "heap_ok t" "\<And>a. r = RItem a \<Longrightarrow> a < t_next t \<and> a \<notin> addrs t" "\<not> isSkipRef r"
    and offs: "0 \<le> offset" "offset < refLength t r" "getState t (cl t r) = start t r + offset"
  shows "integrateRef n r offset t \<noteq> Some (Inl e)"
    "integrateRef n r offset t = Some (Inr t') \<Longrightarrow> evolves {a. r = RItem a} t t' \<and> getState t' = (getState t)(cl t r := fin t r)"
    "(\<And>a. r \<noteq> RItem a) \<Longrightarrow> integrateRef n r offset t \<noteq> None"
proof -
  have "integrateRef n r offset t \<noteq> Some (Inl e) \<and>
    (integrateRef n r offset t = Some (Inr t') \<longrightarrow> evolves {a. r = RItem a} t t' \<and> getState t' = (getState t)(cl t r := fin t r))"
  proof (cases r)
    case (RItem a)
    then show ?thesis
      using integrateStruct_accepted [OF ok(1) _ _ offs(1), of a n e] integrateStruct_state [OF ok(1) _ _ _ offs(1), of a n t'] ok(2) offs(2,3)
      by (simp add: integrateRef_def refID_def refLength_def)
  next
    case (RGC ident len)
    let ?s = "SGC (ident\<lparr>id_Clock := id_Clock ident + offset\<rparr>) (len - offset)"
    have g: "gcIntegrate ident len offset t = addStruct ?s t" using offs(1) by (cases "offset > 0") (simp_all add: gcIntegrate_def)
    have p: "0 < structLength t ?s" "getState t (id_Client (structID t ?s)) = id_Clock (structID t ?s)"
      using offs RGC by (simp_all add: structID_def structLength_def refID_def refLength_def)
    have "addStruct ?s t \<noteq> Inl e" using p(2) by (auto simp: addStruct_def Let_def getState_def split: option.splits)
    moreover have "evolves {} t t' \<and> getState t' = (getState t)(cl t r := fin t r)" if "addStruct ?s t = Inr t'"
      using addStruct_evolves [OF ok(1) p that] RGC by (simp add: structID_def structLength_def structEnd_def refID_def refLength_def)
    ultimately show ?thesis using g RGC by (auto simp: integrateRef_def)
  qed (use ok(3) in \<open>simp add: isSkipRef_def\<close>)
  then show "integrateRef n r offset t \<noteq> Some (Inl e)"
    "integrateRef n r offset t = Some (Inr t') \<Longrightarrow> evolves {a. r = RItem a} t t' \<and> getState t' = (getState t)(cl t r := fin t r)" by blast+
  show "(\<And>a. r \<noteq> RItem a) \<Longrightarrow> integrateRef n r offset t \<noteq> None" by (cases r) (auto simp: integrateRef_def)
qed

definition progress :: "trans \<Rightarrow> (Number \<times> ref list) list \<Rightarrow> ref option \<Rightarrow> work \<Rightarrow> trans \<Rightarrow> bool" where
  "progress t0 refs q w t =
     (case q of None \<Rightarrow> run_ok t0 refs w [] t \<and> exhausted w
      | Some x \<Rightarrow> run_ok t0 refs w (w_stack w @ [x]) t \<and> bounded t0 t (w_stack w))"

lemma advance_ok:
  assumes "refs_ok t0 refs" "run_ok t0 refs w (w_stack w) t" "bounded t0 t (w_stack w)"
  shows "\<exists>q w'. advance w t = Some (Inr (q, w', t)) \<and> w_rest w' = w_rest w \<and> progress t0 refs q w' t"
  using nextStackHead_ok [OF assms] by (auto simp: advance_def progress_def)

lemma putAside_ok:
  assumes "refs_ok t0 refs" "run_ok t0 refs w (w_stack w) t"
  shows "\<exists>q w'. putAside w t = Some (Inr (q, w', t)) \<and> progress t0 refs q w' t"
proof -
  obtain w1 where w1: "addStackToRestSS t w = Some w1" "run_ok t0 refs w1 [] t" "w_stack w1 = []" using addStack_ok [OF assms] by blast
  have "bounded t0 t (w_stack w1)" by (simp add: w1(3) bounded_def)
  then show ?thesis using advance_ok [OF assms(1), of w1 t] w1 by (auto simp: putAside_def)
qed

lemma turn_ok:
  assumes ok: "refs_ok t0 refs" "timed lam t0 refs" "run_ok t0 refs w (w_stack w @ [r]) t" "bounded t0 t (w_stack w)"
  shows "case turn n r w t of None \<Rightarrow> \<exists>a. r = RItem a
    | Some (Inl e) \<Rightarrow> False
    | Some (Inr (q, w', t')) \<Rightarrow> progress t0 refs q w' t' \<and> (complete t0 refs \<and> w_rest w = [] \<longrightarrow> w_rest w' = [])"
proof -
  have i: "reading t0 refs w (w_stack w @ [r]) t" "waiting t0 w (w_stack w @ [r]) t" "heap_ok t" "\<And>c. getState t0 c \<le> getState t c"
    using ok(3) by (simp_all add: run_ok_def)
  have rp: "r \<in> pend w (w_stack w @ [r])" by (simp add: pend_def)
  note id = refID_pend [OF i(2) rp]
  have r: "r \<in> set (w_stack w @ [r])" by simp
  obtain rs k where rs: "map_of (w_refs w) (cl t0 r) = Some (rs, Suc k)" "k < length rs" "rs ! k = r" using waiting_reader [OF i(2) r] by blast
  have m: "map_of refs (cl t0 r) = Some rs" using i(1) rs(1) by (auto simp: reading_def)
  have pos: "0 < refLength t0 r" using refs_okD(2) [OF ok(1) m, of r] rs nth_mem [of k rs] by simp
  let ?c = "cl t0 r" and ?w1 = "w\<lparr>w_stack := w_stack w @ [r]\<rparr>"
  define offset where "offset = getState t ?c - start t0 r"
  have one: "\<exists>q w'. advance w t' = Some (Inr (q, w', t')) \<and> w_rest w' = w_rest w \<and> progress t0 refs q w' t'"
    if "evolves {a. r = RItem a} t t'" "getState t' = (getState t)(?c := v)" "getState t ?c \<le> v" "settled t0 t' r" for t' v
  proof -
    have d: "run_ok t0 refs w (w_stack w) t'" by (rule run_ok_done [OF ok(1,3) that])
    have "getState t c \<le> getState t' c" for c using that(2,3) by simp
    then have "bounded t0 t' (w_stack w)" using ok(4) by (auto simp: bounded_def intro: order.trans)
    then show ?thesis by (rule advance_ok [OF ok(1) d])
  qed
  have w1: "run_ok t0 refs (updateMissingSv c v ?w1) (w_stack (updateMissingSv c v ?w1)) t" for c v
    using ok(3) run_ok_cong [of "updateMissingSv c v ?w1" w] by simp
  show ?thesis
  proof (cases "isSkipRef r")
    case True
    have "getState t = (getState t)(?c := getState t ?c)" by simp
    from one [OF evolves_refl [OF i(3)] this] True
    obtain q w' where "advance w t = Some (Inr (q, w', t))" "w_rest w' = w_rest w" "progress t0 refs q w' t" by (auto simp: settled_def)
    then show ?thesis using True by (simp add: turn_def isSkipRef_def)
  next
    case False
    note ns = False
    have tn: "turn n r w t =
      (if offset < 0 then putAside (updateMissingSv ?c (start t0 r - 1) ?w1) t
       else case refMissing r t of None \<Rightarrow> None
           | Some (Some missing, t1) \<Rightarrow>
               let (rs, i) = (case map_of (w_refs ?w1) missing of None \<Rightarrow> ([], 0) | Some structRefs \<Rightarrow> structRefs)
               in if length rs = i then putAside (updateMissingSv missing (getState t1 missing) ?w1) t1
                  else map_option (\<lambda>(r', w2). Inr (Some r', w2, t1)) (readNext missing ?w1)
           | Some (None, t1) \<Rightarrow>
               if offset = 0 \<or> offset < refLength t1 r
               then (case integrateRef n r offset t1 of None \<Rightarrow> None | Some (Inl e) \<Rightarrow> Some (Inl e) | Some (Inr t2) \<Rightarrow> advance w t2)
               else advance w t1)"
    proof -
      have "(case r of RSkip ident len \<Rightarrow> True | _ \<Rightarrow> False) = False" using False by (simp add: isSkipRef_def)
      then show ?thesis by (simp only: turn_def if_False Let_def id offset_def)
    qed
    show ?thesis
    proof (cases "offset < 0")
      case True
      then have "\<not> complete t0 refs" using complete_continues [OF ok(1,3)] by (auto simp: offset_def)
      moreover obtain q w' where "putAside (updateMissingSv ?c (start t0 r - 1) ?w1) t = Some (Inr (q, w', t))" "progress t0 refs q w' t"
        using putAside_ok [OF ok(1) w1] by blast
      ultimately show ?thesis using True by (simp add: tn)
    next
      case False
      then have o: "0 \<le> offset" "start t0 r \<le> getState t ?c" by (simp_all add: offset_def)
      have b: "bounded t0 t (w_stack w @ [r])" using ok(4) o(2) by (simp add: bounded_def)
      show ?thesis
      proof (cases "refMissing r t")
        case None
        then have "\<exists>a. r = RItem a" by (cases r) (simp_all add: refMissing_def)
        then show ?thesis using None o(1) by (simp add: tn)
      next
        case (Some mt)
        obtain q t1 where mt: "refMissing r t = Some (q, t1)" using Some by (cases mt) simp
        show ?thesis
        proof (cases q)
          case (Some c)
          then obtain a where a: "r = RItem a" "missingClient a t = Some (Some c, t1)" using mt by (cases r) (simp_all add: refMissing_def)
          have t1: "t1 = t" by (rule missingClient_waits(1) [OF a(2)])
          have "wire (t_heap t a) = wire (t_heap t0 a)" using i(2) rp a(1) by (simp add: waiting_def)
          then obtain d where d: "d \<in> deps (t_heap t0 a)" "id_Client d = c" "c \<noteq> ?c" "getState t c \<le> id_Clock d"
            using missingClient_waits(2) [OF a(2)] deps_cong [of "t_heap t a" "t_heap t0 a"] id a(1) by (auto simp: lacking_def refID_def)
          have nc: "c \<notin> cl t0 ` set (w_stack w @ [r])" using waits_back [OF ok(1-3) b a(1) d(1)] d(2-4) by simp
          show ?thesis
          proof (cases "\<exists>rs' i'. map_of (w_refs w) c = Some (rs', i') \<and> i' < length rs'")
            case True
            then obtain x w' where x: "readNext c ?w1 = Some (x, w')" by (auto simp: readNext_def)
            have w1': "run_ok t0 refs ?w1 (w_stack w @ [r]) t" using ok(3) run_ok_cong [of ?w1 w] by simp
            have lk: "lacks t0 t (last (w_stack w @ [r])) x" if "cl t0 x = c" using a(1) d that by (auto simp: lacks_def)
            have rd: "run_ok t0 refs w' ((w_stack w @ [r]) @ [x]) t \<and> w_stack w' = w_stack w @ [r] \<and> w_rest w' = w_rest w"
              using readNext_ok [OF ok(1) w1' x nc lk] by simp
            then show ?thesis using True b x o(1) Some mt t1 by (auto simp: tn progress_def)
          next
            case False
            then have e: "case (case map_of (w_refs w) c of None \<Rightarrow> ([], 0) | Some structRefs \<Rightarrow> structRefs) of (rs, i) \<Rightarrow> length rs = i"
              using i(1) by (auto simp: reading_def split: option.splits prod.splits) (metis le_neq_implies_less)
            have "\<not> (complete t0 refs \<and> w_rest w = [])" using complete_readable [OF ok(1,3) _ _ a(1) d(1)] nc d(2-4) False by auto
            moreover have "turn n r w t = putAside (updateMissingSv c (getState t c) ?w1) t"
              using o(1) mt Some t1 e by (auto simp: tn Let_def split: prod.splits)
            moreover obtain q w' where "putAside (updateMissingSv c (getState t c) ?w1) t = Some (Inr (q, w', t))" "progress t0 refs q w' t"
              using putAside_ok [OF ok(1) w1] by blast
            ultimately show ?thesis by auto
          qed
        next
          case None
          have res: "evolves {a. r = RItem a} t t1 \<and> getState t1 = getState t \<and> refID t1 r = refID t0 r \<and> refLength t1 r = refLength t0 r \<and>
              (\<forall>a. r = RItem a \<longrightarrow> a < t_next t1 \<and> a \<notin> addrs t1)"
          proof (cases r)
            case (RItem a)
            then have "a < t_next t" "a \<notin> addrs t" using i(2) rp by (auto simp: waiting_def)
            from missingClient_resolves [OF i(3) this, of t1] show ?thesis
              using mt None RItem id \<open>a < t_next t\<close> by (auto simp: refMissing_def refID_def refLength_def evolves_def)
          qed (use mt None evolves_refl [OF i(3)] in \<open>auto simp: refMissing_def refID_def refLength_def\<close>)
          have h1: "heap_ok t1" using res by (simp add: evolves_def)
          show ?thesis
          proof (cases "offset < refLength t0 r")
            case True
            have g: "getState t1 (cl t1 r) = start t1 r + offset" using res by (simp add: offset_def)
            note ir = integrateRef_ok [OF h1 _ ns o(1) _ g, of n]
            have hyp: "offset < refLength t1 r" "\<And>a. r = RItem a \<Longrightarrow> a < t_next t1 \<and> a \<notin> addrs t1" using True res by auto
            show ?thesis
            proof (cases "integrateRef n r offset t1")
              case None
              then have "\<exists>a. r = RItem a" using ir(3) hyp by blast
              then show ?thesis using None \<open>q = None\<close> mt o(1) True res by (simp add: tn)
            next
              case (Some s)
              then obtain t2 where t2: "integrateRef n r offset t1 = Some (Inr t2)" using ir(1) hyp by (cases s) auto
              have e: "evolves {a. r = RItem a} t1 t2" "getState t2 = (getState t)(?c := fin t0 r)"
                using ir(2) [OF hyp(2,1) t2] res by auto
              have "evolves {a. r = RItem a} t t2" using res e(1) evolves_trans by blast
              from one [OF this e(2)] e(2) True
              obtain q' w' where "advance w t2 = Some (Inr (q', w', t2))" "w_rest w' = w_rest w" "progress t0 refs q' w' t2"
                by (auto simp: offset_def settled_def)
              then show ?thesis using t2 True None mt o(1) res by (simp add: tn)
            qed
          next
            case False
            have "getState t1 = (getState t)(?c := getState t ?c)" using res by simp
            from one [OF _ this] res False
            obtain q' w' where "advance w t1 = Some (Inr (q', w', t1))" "w_rest w' = w_rest w" "progress t0 refs q' w' t1"
              by (auto simp: settled_def offset_def)
            then show ?thesis using False None mt o(1) pos res by (simp add: tn)
          qed
        qed
      qed
    qed
  qed
qed
section \<open>The loop\<close>

lemma integrateLoop_ok:
  assumes "refs_ok t0 refs" "timed lam t0 refs" "run_ok t0 refs w (w_stack w @ [r]) t" "bounded t0 t (w_stack w)"
  shows "case integrateLoop n r w t of None \<Rightarrow> \<exists>c rs a. map_of refs c = Some rs \<and> RItem a \<in> set rs
    | Some (Inl e) \<Rightarrow> False
    | Some (Inr (w', t')) \<Rightarrow> run_ok t0 refs w' [] t' \<and> exhausted w' \<and> (complete t0 refs \<and> w_rest w = [] \<longrightarrow> w_rest w' = [])"
  using assms(3,4)
proof (induction n r w t rule: integrateLoop.induct)
  case (1 n r w t)
  note tk = turn_ok [OF assms(1,2) 1(2,3), of n]
  show ?case
  proof (cases "turn n r w t")
    case None
    then obtain a where a: "r = RItem a" using tk by auto
    have i: "reading t0 refs w (w_stack w @ [r]) t" "waiting t0 w (w_stack w @ [r]) t" using 1(2) by (simp_all add: run_ok_def)
    obtain rs k where rs: "map_of (w_refs w) (cl t0 r) = Some (rs, Suc k)" "k < length rs" "rs ! k = r"
      using waiting_reader [OF i(2), of r] by auto
    then have "map_of refs (cl t0 r) = Some rs" "RItem a \<in> set rs" using i(1) a nth_mem [of k rs] by (auto simp: reading_def)
    then show ?thesis using None by (auto simp: integrateLoop.simps [of n r w t])
  next
    case (Some s)
    then obtain q w' t' where s: "turn n r w t = Some (Inr (q, w', t'))" using tk by (cases s) auto
    have p: "progress t0 refs q w' t'" "complete t0 refs \<and> w_rest w = [] \<longrightarrow> w_rest w' = []" using tk s by auto
    show ?thesis
    proof (cases q)
      case None
      then show ?thesis using s p by (simp add: integrateLoop.simps [of n r w t] progress_def)
    next
      case (Some x)
      have e: "integrateLoop n r w t = integrateLoop n x w' t'" using s Some by (simp add: integrateLoop.simps [of n r w t])
      have "run_ok t0 refs w' (w_stack w' @ [x]) t'" "bounded t0 t' (w_stack w')" using p(1) Some by (simp_all add: progress_def)
      from 1(1) [OF s refl refl Some refl this] p(2) show ?thesis unfolding e by (auto split: option.splits sum.splits)
    qed
  qed
qed

lemma startWork_ok:
  assumes "heap_ok t" "refs_ok t refs"
  shows "run_ok t refs (startWork refs) [] t"
proof -
  have m: "map_of (w_refs (startWork refs)) c = map_option (\<lambda>rs. (rs, 0)) (map_of refs c)" for c
    by (simp add: startWork_def map_of_map [where f = "\<lambda>rs. (rs, 0)", unfolded comp_def])
  have ids: "set (w_ids (startWork refs)) = fst ` set refs" by (simp add: startWork_def)
  have "reading t refs (startWork refs) [] t"
    unfolding reading_def m ids by (auto simp: dom_map_of_conv_image_fst [symmetric] map_of_eq_None_iff)
  moreover have "aside t refs (startWork refs) t" unfolding aside_def m by (simp add: startWork_def)
  moreover have "waiting t (startWork refs) [] t"
    using refs_okD(3) [OF assms(2)] by (auto simp: waiting_def pend_def m)
  ultimately show ?thesis using assms(1) by (simp add: run_ok_def)
qed

definition rest_of :: "pendingStructsResult option \<Rightarrow> Number \<Rightarrow> ref list" where
  "rest_of p c = (case p of None \<Rightarrow> [] | Some q \<Rightarrow> (case map_of (p_update q) c of None \<Rightarrow> [] | Some rs \<Rightarrow> rs))"

lemma finished_keeps:
  assumes "run_ok t refs w [] t'" "exhausted w" "map_of refs c = Some rs" "refs_ok t refs"
  defines "p \<equiv> if w_rest w = [] then None else Some \<lparr>p_missing = w_missing w, p_update = w_rest w\<rparr>"
  shows "\<exists>i \<le> length rs. rest_of p c = drop i rs \<and> (\<forall>r \<in> set (take i rs). isSkipRef r \<or> fin t r \<le> getState t' c)"
proof -
  have i: "reading t refs w [] t'" "aside t refs w t'" using assms(1) by (simp_all add: run_ok_def)
  have p: "rest_of p c = (case map_of (w_rest w) c of None \<Rightarrow> [] | Some rs \<Rightarrow> rs)" by (simp add: p_def rest_of_def)
  have s: "isSkipRef (rs ! j) \<or> fin t (rs ! j) \<le> getState t' c" if "settled t t' (rs ! j)" "j < length rs" for j
    using that refs_okD(2) [OF assms(4,3), of "rs ! j"] by (auto simp: settled_def)
  show ?thesis
  proof (cases "map_of (w_refs w) c")
    case None
    then obtain k where k: "k < length rs" "map_of (w_rest w) c = Some (drop k rs)" "\<forall>j < k. settled t t' (rs ! j)"
      using i(2) assms(3) unfolding aside_def by blast
    have "isSkipRef r \<or> fin t r \<le> getState t' c" if r: "r \<in> set (take k rs)" for r
    proof -
      obtain j where "j < k" "r = rs ! j" using r k(1) by (auto simp: in_set_conv_nth)
      then show ?thesis using s [of j] k by simp
    qed
    then show ?thesis using k p by (intro exI [of _ k]) simp
  next
    case (Some q)
    then have q: "map_of (w_refs w) c = Some (rs, length rs)" using i(1) assms(2,3) by (cases q) (fastforce simp: reading_def exhausted_def)
    have "\<forall>r \<in> set rs. isSkipRef r \<or> fin t r \<le> getState t' c" using i(1) q s by (fastforce simp: reading_def in_set_conv_nth)
    moreover have "map_of (w_rest w) c = None" using i(2) q unfolding aside_def by (metis option.distinct(1) not_None_eq)
    ultimately show ?thesis using p by (intro exI [of _ "length rs"]) simp
  qed
qed

text \<open>Client 2 has typed behind the first character of client 1; the update brings both, and client 2 is looked at first.\<close>

definition example_update :: trans where
  "example_update =
     \<lparr>t_heap = (\<lambda>a. if a = 0 then newItem (GenID 1 0) None None None None (ParentType 0) [] (CAny [AUndefined, ANull])
        else newItem (GenID 2 0) None (Some (GenID 1 0)) None None NoParent [] (CAny [ANull])),
      t_next = 2, t_types = (\<lambda>y. \<lparr>y_start = None, y_map = [], y_length = 0, y_item = None, y_count = 0, y_size = 0\<rparr>),
      t_store = [], t_deleteSet = newDeleteSet, t_mergeStructs = [], t_beforeState = []\<rparr>"

definition example_refs :: "(Number \<times> ref list) list" where
  "example_refs = [(1, [RItem 0]), (2, [RItem 1])]"

lemma example_update_ok:
  "heap_ok example_update" "refs_ok example_update example_refs" "causal example_update example_refs" "complete example_update example_refs"
proof -
  note ex = example_update_def example_refs_def newItem_def newItemWithLength_def GenID_def refID_def refLength_def
  have a: "addrs example_update = {}" by (simp add: ex addrs_def clientStructs_def)
  show "heap_ok example_update" by (simp add: heap_ok_def a) (simp add: ex store_ok_def)
  show "refs_ok example_update example_refs" by (simp add: refs_ok_def example_refs_def a) (simp add: ex)
  have "timed (\<lambda>c k. nat (c + k)) example_update example_refs" by (auto simp: timed_def deps_def ex)
  then show "causal example_update example_refs" by (auto simp: causal_def)
  show "complete example_update example_refs" by (auto simp: complete_def deps_def ex isSkipRef_def getState_def clientStructs_def)
qed
declare leftmost.simps [code] itemsFrom.simps [code] conflictScan.simps [code]


text \<open>
  The order of dependencies matters: the code relies on there being no circles, and a forged update can have one. Here client 3 waits for client 2, whose struct waits for
  the second struct of client 3; the first struct of client 3 is neither applied nor put aside, and the second is put aside twice.
\<close>

definition example_circle :: trans where
  "example_circle = example_update\<lparr>t_heap := (\<lambda>a.
     if a = 0 then newItem (GenID 3 0) None (Some (GenID 2 0)) None None (ParentType 0) [] (CAny [ANull])
     else if a = 1 then newItem (GenID 3 1) None (Some (GenID 3 0)) None None (ParentType 0) [] (CAny [ANull])
     else newItem (GenID 2 0) None (Some (GenID 3 1)) None None NoParent [] (CAny [ANull])), t_next := 3\<rparr>"

theorem circle_loses_struct:
  "\<exists>p t'. integrateStructs 1 [(3, [RItem 0, RItem 1]), (2, [RItem 2])] example_circle = Some (Inr (Some p, t')) \<and>
     p_update p = [(3, [RItem 1, RItem 1]), (2, [RItem 2])] \<and> t_store t' = []"
proof -
  have "case integrateStructs 1 [(3, [RItem 0, RItem 1]), (2, [RItem 2])] example_circle of
      Some (Inr (Some p, t')) \<Rightarrow> p_update p = [(3, [RItem 1, RItem 1]), (2, [RItem 2])] \<and> t_store t' = [] | _ \<Rightarrow> False"
    by code_simp
  then show ?thesis by (auto split: option.splits sum.splits prod.splits)
qed

end
