(* ===== verification/JsonText.thy ===== *)
theory JsonText
  imports AnyCodec
begin

text \<open>
  JSON text as the update format needs it (\<^verbatim>\<open>crdt/json_ordered.go\<close>): string literals with the escapes of
  \<^verbatim>\<open>JSON.stringify\<close>, the length computed in advance, and the encoder that keeps the order of object keys. What
  the code leaves to \<^verbatim>\<open>encoding/json\<close>, the text of numbers and of the other scalars, is the parameter \<open>jm\<close>.
\<close>

section \<open>Definitions\<close>

definition jsHexDigit :: "byte \<Rightarrow> byte" where
  "jsHexDigit n = (if n < 10 then 48 + n else 87 + n)"

definition raw_byte :: "byte \<Rightarrow> bool" where
  "raw_byte c \<longleftrightarrow> c \<ge> 0x20 \<and> c \<noteq> 34 \<and> c \<noteq> 92"

definition jsEscape :: "byte \<Rightarrow> byte list" where
  "jsEscape c =
     (if c = 34 then [92, 34] else if c = 92 then [92, 92] else if c = 8 then [92, 98] else if c = 9 then [92, 116]
      else if c = 10 then [92, 110] else if c = 12 then [92, 102] else if c = 13 then [92, 114]
      else [92, 117, 48, 48, jsHexDigit (drop_bit 4 c), jsHexDigit (c AND 0xF)])"

text \<open>The loop writes the raw bytes between two escapes in one piece.\<close>

function writeJSONString_loop :: "gostring \<Rightarrow> nat \<Rightarrow> nat \<Rightarrow> byte list \<Rightarrow> byte list" where
  "writeJSONString_loop s start i buf =
     (if i < length s
      then if raw_byte (s ! i) then writeJSONString_loop s start (Suc i) buf
           else writeJSONString_loop s (Suc i) (Suc i) (buf @ drop start (take i s) @ jsEscape (s ! i))
      else buf @ drop start s)"
  by pat_completeness auto
termination
  by (relation "measure (\<lambda>(s, start, i, buf). length s - i)") auto

definition writeJSONStringJS :: "byte list \<Rightarrow> gostring \<Rightarrow> byte list" where
  "writeJSONStringJS buf s = writeJSONString_loop s 0 0 (buf @ [34]) @ [34]"

definition escapeGrowth :: "byte \<Rightarrow> nat" where
  "escapeGrowth c =
     (if raw_byte c then 0 else if c = 34 \<or> c = 92 \<or> c = 8 \<or> c = 9 \<or> c = 10 \<or> c = 12 \<or> c = 13 then 1 else 5)"

definition jsonStringJSEncodedLen :: "gostring \<Rightarrow> uint64" where
  "jsonStringJSEncodedLen s = foldl (\<lambda>n c. n + of_nat (escapeGrowth c)) (of_nat (length s + 2)) s"

text \<open>The keys of an object are written in the order of insertion.\<close>

fun marshalJSONValue :: "(any \<Rightarrow> go_error + gostring) \<Rightarrow> any \<Rightarrow> byte list \<Rightarrow> go_error + byte list"
  and marshalElems :: "(any \<Rightarrow> go_error + gostring) \<Rightarrow> any list \<Rightarrow> bool \<Rightarrow> byte list \<Rightarrow> go_error + byte list"
  and marshalEntries :: "(any \<Rightarrow> go_error + gostring) \<Rightarrow> (gostring \<times> any) list \<Rightarrow> bool \<Rightarrow> byte list \<Rightarrow> go_error + byte list" where
  "marshalJSONValue jm (AObject kvs) buf =
     (case marshalEntries jm kvs True (buf @ [123]) of Inl e \<Rightarrow> Inl e | Inr b \<Rightarrow> Inr (b @ [125]))"
| "marshalJSONValue jm ANull buf = Inr (buf @ [110, 117, 108, 108])"
| "marshalJSONValue jm AUndefined buf = Inr (buf @ [110, 117, 108, 108])"
| "marshalJSONValue jm (AString s) buf = Inr (writeJSONStringJS buf s)"
| "marshalJSONValue jm (AArray vs) buf =
     (case marshalElems jm vs True (buf @ [91]) of Inl e \<Rightarrow> Inl e | Inr b \<Rightarrow> Inr (b @ [93]))"
| "marshalJSONValue jm v buf = (case jm v of Inl e \<Rightarrow> Inl e | Inr data \<Rightarrow> Inr (buf @ data))"
| "marshalElems jm [] first buf = Inr buf"
| "marshalElems jm (v # vs) first buf =
     (case marshalJSONValue jm v (if first then buf else buf @ [44]) of Inl e \<Rightarrow> Inl e | Inr b \<Rightarrow> marshalElems jm vs False b)"
| "marshalEntries jm [] first buf = Inr buf"
| "marshalEntries jm ((k, v) # kvs) first buf =
     (case marshalJSONValue jm v (writeJSONStringJS (if first then buf else buf @ [44]) k @ [58]) of
        Inl e \<Rightarrow> Inl e | Inr b \<Rightarrow> marshalEntries jm kvs False b)"

definition marshalJSONOrdered :: "(any \<Rightarrow> go_error + gostring) \<Rightarrow> any \<Rightarrow> go_error + gostring" where
  "marshalJSONOrdered jm v = marshalJSONValue jm v []"

section \<open>String literals\<close>

definition escaped :: "gostring \<Rightarrow> byte list" where
  "escaped s = concat (map (\<lambda>c. if raw_byte c then [c] else jsEscape c) s)"

declare writeJSONString_loop.simps [simp del]

lemma writeJSONString_loop_eq:
  "start \<le> i \<Longrightarrow> i \<le> length s \<Longrightarrow> list_all raw_byte (drop start (take i s)) \<Longrightarrow>
     writeJSONString_loop s start i buf = buf @ drop start (take i s) @ escaped (drop i s)"
proof (induction s start i buf rule: writeJSONString_loop.induct)
  case (1 s start i buf)
  show ?case
  proof (cases "i < length s")
    case True
    then have d: "drop i s = s ! i # drop (Suc i) s" and t: "take (Suc i) s = take i s @ [s ! i]"
      by (simp_all add: Cons_nth_drop_Suc take_Suc_conv_app_nth)
    show ?thesis
    proof (cases "raw_byte (s ! i)")
      case raw: True
      then have "list_all raw_byte (drop start (take (Suc i) s))" using 1(3,5) True by (simp add: t)
      then show ?thesis using 1(1) [OF True raw] 1(3,4) True raw
        by (subst writeJSONString_loop.simps) (simp add: escaped_def d t)
    next
      case False
      then show ?thesis using 1(2) [OF True False] 1(3) True
        by (subst writeJSONString_loop.simps) (simp add: escaped_def d)
    qed
  qed (use 1(4) in \<open>simp add: writeJSONString_loop.simps escaped_def\<close>)
qed

lemma writeJSONStringJS_eq: "writeJSONStringJS buf s = buf @ 34 # escaped s @ [34]"
  by (simp add: writeJSONStringJS_def writeJSONString_loop_eq)

lemma length_escape: "length (if raw_byte c then [c] else jsEscape c) = Suc (escapeGrowth c)"
  by (simp add: jsEscape_def escapeGrowth_def raw_byte_def)

lemma length_escaped: "length (escaped s) = length s + sum_list (map escapeGrowth s)"
  by (induction s) (simp_all add: escaped_def length_escape)

text \<open>The length announced in front of a literal is the length of the literal.\<close>

lemma jsonStringJSEncodedLen_eq: "jsonStringJSEncodedLen s = of_nat (length (writeJSONStringJS [] s))"
proof -
  have "foldl (\<lambda>n c. n + of_nat (escapeGrowth c)) k s = k + of_nat (sum_list (map escapeGrowth s))" for k :: uint64
    by (induction s arbitrary: k) (simp_all add: add.assoc)
  then show ?thesis by (simp add: jsonStringJSEncodedLen_def writeJSONStringJS_eq length_escaped)
qed

end
