(* ===== verification/DeleteSetCodec.thy ===== *)
theory DeleteSetCodec
  imports DeleteSet
begin

text \<open>
  The wire format of delete sets: the delete-set encoders and decoders of both versions
  (\<^verbatim>\<open>dsEncoderV1\<close>, \<^verbatim>\<open>dsEncoderV2\<close>, \<^verbatim>\<open>fastUpdateEncoderV1\<close> in \<^verbatim>\<open>crdt/update_encoder.go\<close>, \<^verbatim>\<open>dsDecoderV2\<close> and the
  V1 decoder in \<^verbatim>\<open>crdt/update_decoder.go\<close>) and \<^verbatim>\<open>writeDeleteSet\<close>, \<^verbatim>\<open>readDeleteSet\<close>, \<^verbatim>\<open>readDeleteSetOrdered\<close>
  of \<^verbatim>\<open>crdt/delete_set.go\<close>.

  The Go interfaces \<^verbatim>\<open>dsEncoder\<close> and \<^verbatim>\<open>dsDecoder\<close> are records of functions over a state type; the
  functions written against the interfaces take such a record. The locale \<open>ds_codec\<close> states what an
  encoder and a decoder promise each other, and both versions are interpretations of it.
\<close>

section \<open>Definitions\<close>

record 'e dsEncoder =
  de_resetDS :: "'e \<Rightarrow> 'e"
  de_writeDSClock :: "Number \<Rightarrow> 'e \<Rightarrow> 'e"
  de_writeDSLength :: "Number \<Rightarrow> 'e \<Rightarrow> go_error option \<times> 'e"
  de_writeRest :: "uint64 \<Rightarrow> 'e \<Rightarrow> 'e"
  de_rest :: "'e \<Rightarrow> byte list"

record 'd dsDecoder =
  dd_resetDS :: "'d \<Rightarrow> 'd"
  dd_readDSClock :: "('d, Number) fallible"
  dd_readDSLength :: "('d, Number) fallible"
  dd_rest :: "'d \<Rightarrow> byte list"
  dd_setRest :: "byte list \<Rightarrow> 'd \<Rightarrow> 'd"

subsection \<open>Version 1\<close>

record dsEncoderV1 =
  e1_rest :: "byte list"

definition v1_writeDSClock :: "Number \<Rightarrow> dsEncoderV1 \<Rightarrow> dsEncoderV1" where
  "v1_writeDSClock clock e = e\<lparr>e1_rest := WriteVarUint (e1_rest e) (word_of_int clock)\<rparr>"

definition v1_writeDSLength :: "Number \<Rightarrow> dsEncoderV1 \<Rightarrow> go_error option \<times> dsEncoderV1" where
  "v1_writeDSLength len e = (None, e\<lparr>e1_rest := WriteVarUint (e1_rest e) (word_of_int len)\<rparr>)"

definition v1_writeRest :: "uint64 \<Rightarrow> dsEncoderV1 \<Rightarrow> dsEncoderV1" where
  "v1_writeRest v e = e\<lparr>e1_rest := WriteVarUint (e1_rest e) v\<rparr>"

definition V1_encoder :: "dsEncoderV1 dsEncoder" where
  "V1_encoder = \<lparr>de_resetDS = (\<lambda>e. e), de_writeDSClock = v1_writeDSClock,
     de_writeDSLength = v1_writeDSLength, de_writeRest = v1_writeRest, de_rest = e1_rest\<rparr>"

text \<open>The V1 decoder is its rest buffer.\<close>

definition v1_readDSClock :: "Number reader" where
  "v1_readDSClock = rbind ReadVarUint (\<lambda>number. lift_result (toNumber number))"

definition v1_readDSLength :: "Number reader" where
  "v1_readDSLength = rbind ReadVarUint (\<lambda>number. lift_result (toNumber number))"

definition V1_decoder :: "byte list dsDecoder" where
  "V1_decoder = \<lparr>dd_resetDS = (\<lambda>d. d), dd_readDSClock = v1_readDSClock,
     dd_readDSLength = v1_readDSLength, dd_rest = (\<lambda>d. d), dd_setRest = (\<lambda>b d. b)\<rparr>"

text \<open>
  The fast full-update encoder of version 1: it appends to \<open>buf\<close>, or to \<open>rest\<close> once that exists.
\<close>

record fastUpdateEncoderV1 =
  fe_buf :: "byte list"
  fe_rest :: "byte list option"
  fe_hasDeleted :: bool
  fe_scanDeletes :: bool

definition fast_writeRestVarUint :: "uint64 \<Rightarrow> fastUpdateEncoderV1 \<Rightarrow> fastUpdateEncoderV1" where
  "fast_writeRestVarUint v e =
     (case fe_rest e of
        Some rest \<Rightarrow> e\<lparr>fe_rest := Some (WriteVarUint rest v)\<rparr>
      | None \<Rightarrow> e\<lparr>fe_buf := appendVarUint (fe_buf e) v\<rparr>)"

definition fast_writeDSClock :: "Number \<Rightarrow> fastUpdateEncoderV1 \<Rightarrow> fastUpdateEncoderV1" where
  "fast_writeDSClock clock e = fast_writeRestVarUint (word_of_int clock) e"

definition fast_writeDSLength :: "Number \<Rightarrow> fastUpdateEncoderV1 \<Rightarrow> go_error option \<times> fastUpdateEncoderV1" where
  "fast_writeDSLength len e = (None, fast_writeRestVarUint (word_of_int len) e)"

definition fast_toBytes :: "fastUpdateEncoderV1 \<Rightarrow> byte list" where
  "fast_toBytes e = (case fe_rest e of Some rest \<Rightarrow> rest | None \<Rightarrow> fe_buf e)"

definition fast_encoder :: "fastUpdateEncoderV1 dsEncoder" where
  "fast_encoder = \<lparr>de_resetDS = (\<lambda>e. e), de_writeDSClock = fast_writeDSClock,
     de_writeDSLength = fast_writeDSLength, de_writeRest = fast_writeRestVarUint, de_rest = fast_toBytes\<rparr>"

subsection \<open>Version 2\<close>

record dsEncoderV2 =
  e2_rest :: "byte list"
  e2_dsCurrVal :: Number

definition v2_resetDS :: "dsEncoderV2 \<Rightarrow> dsEncoderV2" where
  "v2_resetDS e = e\<lparr>e2_dsCurrVal := 0\<rparr>"

definition v2_writeDSClock :: "Number \<Rightarrow> dsEncoderV2 \<Rightarrow> dsEncoderV2" where
  "v2_writeDSClock clock e =
     (let diff = wrap64 (clock - e2_dsCurrVal e)
      in e\<lparr>e2_dsCurrVal := clock, e2_rest := WriteVarUint (e2_rest e) (word_of_int diff)\<rparr>)"

definition v2_writeDSLength :: "Number \<Rightarrow> dsEncoderV2 \<Rightarrow> go_error option \<times> dsEncoderV2" where
  "v2_writeDSLength len e =
     (if len \<le> 0 then (Some InvalidDeleteLength, e)
      else (None, e\<lparr>e2_rest := WriteVarUint (e2_rest e) (word_of_int (len - 1)),
                    e2_dsCurrVal := wrap64 (e2_dsCurrVal e + len)\<rparr>))"

definition v2_writeRest :: "uint64 \<Rightarrow> dsEncoderV2 \<Rightarrow> dsEncoderV2" where
  "v2_writeRest v e = e\<lparr>e2_rest := WriteVarUint (e2_rest e) v\<rparr>"

definition V2_encoder :: "dsEncoderV2 dsEncoder" where
  "V2_encoder = \<lparr>de_resetDS = v2_resetDS, de_writeDSClock = v2_writeDSClock,
     de_writeDSLength = v2_writeDSLength, de_writeRest = v2_writeRest, de_rest = e2_rest\<rparr>"

record dsDecoderV2 =
  d2_rest :: "byte list"
  d2_dsCurrVal :: Number

definition newDSDecoderV2 :: "byte list \<Rightarrow> dsDecoderV2" where
  "newDSDecoderV2 buf = \<lparr>d2_rest = buf, d2_dsCurrVal = 0\<rparr>"

definition v2d_resetDS :: "dsDecoderV2 \<Rightarrow> dsDecoderV2" where
  "v2d_resetDS d = d\<lparr>d2_dsCurrVal := 0\<rparr>"

definition addDsCurVal :: "Number \<Rightarrow> (dsDecoderV2, Number) fallible" where
  "addDsCurVal delta d =
     (case addBounded (d2_dsCurrVal d) delta of
        Inl e \<Rightarrow> (Inl e, d)
      | Inr v \<Rightarrow> (Inr v, d\<lparr>d2_dsCurrVal := v\<rparr>))"

definition v2d_readRestVarUint :: "(dsDecoderV2, uint64) fallible" where
  "v2d_readRestVarUint d = (case ReadVarUint (d2_rest d) of (r, b) \<Rightarrow> (r, d\<lparr>d2_rest := b\<rparr>))"

definition v2_readDSClock :: "(dsDecoderV2, Number) fallible" where
  "v2_readDSClock = rbind v2d_readRestVarUint (\<lambda>n. rbind (lift_result (toNumber n)) addDsCurVal)"

definition v2_readDSLength :: "(dsDecoderV2, Number) fallible" where
  "v2_readDSLength = rbind v2d_readRestVarUint (\<lambda>n. rbind (lift_result (toNumber n)) (\<lambda>nn.
     if nn = MaxInt then rfail NumberOverflow
     else let diff = nn + 1 in rbind (addDsCurVal diff) (\<lambda>_. rret diff)))"

definition V2_decoder :: "dsDecoderV2 dsDecoder" where
  "V2_decoder = \<lparr>dd_resetDS = v2d_resetDS, dd_readDSClock = v2_readDSClock,
     dd_readDSLength = v2_readDSLength, dd_rest = d2_rest, dd_setRest = (\<lambda>b d. d\<lparr>d2_rest := b\<rparr>)\<rparr>"

subsection \<open>Delete sets\<close>

fun writeRanges :: "'e dsEncoder \<Rightarrow> deleteItem list \<Rightarrow> 'e \<Rightarrow> go_error option \<times> 'e" where
  "writeRanges E [] e = (None, e)"
| "writeRanges E (item # items) e =
     (case de_writeDSLength E (di_length item) (de_writeDSClock E (di_clock item) e) of
        (Some err, e') \<Rightarrow> (Some err, e')
      | (None, e') \<Rightarrow> writeRanges E items e')"

fun writeClients :: "'e dsEncoder \<Rightarrow> deleteSet \<Rightarrow> Number list \<Rightarrow> 'e \<Rightarrow> go_error option \<times> 'e" where
  "writeClients E ds [] e = (None, e)"
| "writeClients E ds (client # clients) e =
     (let dsItems = clientItems ds client;
          e1 = de_writeRest E (word_of_int client) (de_resetDS E e);
          e2 = de_writeRest E (of_nat (length dsItems)) e1
      in case writeRanges E dsItems e2 of
           (Some err, e3) \<Rightarrow> (Some err, e3)
         | (None, e3) \<Rightarrow> writeClients E ds clients e3)"

definition writeDeleteSet :: "'e dsEncoder \<Rightarrow> deleteSet option \<Rightarrow> 'e \<Rightarrow> go_error option \<times> 'e" where
  "writeDeleteSet E dsp e =
     (case dsp of
        None \<Rightarrow> (None, de_writeRest E 0 e)
      | Some ds \<Rightarrow>
          let clients = rev (sort (map fst (ds_clients ds)))
          in writeClients E ds clients (de_writeRest E (of_nat (length (ds_clients ds))) e))"

text \<open>A read from the rest buffer of a decoder.\<close>

definition onRest :: "'d dsDecoder \<Rightarrow> 'a reader \<Rightarrow> ('d, 'a) fallible" where
  "onRest D m d = (case m (dd_rest D d) of (r, b) \<Rightarrow> (r, dd_setRest D b d))"

fun readRangesInto :: "'d dsDecoder \<Rightarrow> Number \<Rightarrow> nat \<Rightarrow> deleteSet \<Rightarrow> ('d, deleteSet) fallible" where
  "readRangesInto D client 0 ds = rret ds"
| "readRangesInto D client (Suc n) ds =
     rbind (dd_readDSClock D) (\<lambda>dsClock. rbind (dd_readDSLength D) (\<lambda>dsLength.
       readRangesInto D client n (addToDeleteSet ds client dsClock dsLength)))"

fun readClientsInto :: "'d dsDecoder \<Rightarrow> nat \<Rightarrow> deleteSet \<Rightarrow> ('d, deleteSet) fallible" where
  "readClientsInto D 0 ds d = (Inr ds, d)"
| "readClientsInto D (Suc n) ds d =
     rbind (onRest D readVarUintAsNumber) (\<lambda>client. rbind (onRest D ReadVarUint) (\<lambda>numberOfDeletes.
       rbind (readRangesInto D client (unat numberOfDeletes) ds) (\<lambda>ds'. readClientsInto D n ds')))
     (dd_resetDS D d)"

definition readDeleteSet :: "'d dsDecoder \<Rightarrow> ('d, deleteSet) fallible" where
  "readDeleteSet D = rbind (onRest D ReadVarUint) (\<lambda>numClients. readClientsInto D (unat numClients) newDeleteSet)"

record dsClientBlock =
  blk_client :: Number
  blk_ranges :: "deleteItem list"

fun readRanges :: "'d dsDecoder \<Rightarrow> nat \<Rightarrow> deleteItem list \<Rightarrow> ('d, deleteItem list) fallible" where
  "readRanges D 0 ranges = rret ranges"
| "readRanges D (Suc n) ranges =
     rbind (dd_readDSClock D) (\<lambda>clock. rbind (dd_readDSLength D) (\<lambda>len.
       readRanges D n (ranges @ [newDeleteItem clock len])))"

definition guardCount :: "'d dsDecoder \<Rightarrow> uint64 \<Rightarrow> ('d, unit) fallible" where
  "guardCount D n d =
     (if boundExceeded n (int (length (dd_rest D d))) 2 then (Inl LengthExceedsRemaining, d) else (Inr (), d))"

fun readBlocks :: "'d dsDecoder \<Rightarrow> nat \<Rightarrow> dsClientBlock list \<Rightarrow> ('d, dsClientBlock list) fallible" where
  "readBlocks D 0 blocks d = (Inr blocks, d)"
| "readBlocks D (Suc n) blocks d =
     rbind (onRest D readVarUintAsNumber) (\<lambda>client. rbind (onRest D ReadVarUint) (\<lambda>numberOfDeletes.
       rbind (guardCount D numberOfDeletes) (\<lambda>_. rbind (readRanges D (unat numberOfDeletes) []) (\<lambda>ranges.
         readBlocks D n (blocks @ [\<lparr>blk_client = client, blk_ranges = ranges\<rparr>])))))
     (dd_resetDS D d)"

definition readDeleteSetOrdered :: "'d dsDecoder \<Rightarrow> ('d, dsClientBlock list) fallible" where
  "readDeleteSetOrdered D = rbind (onRest D ReadVarUint) (\<lambda>numClients.
     rbind (guardCount D numClients) (\<lambda>_. readBlocks D (unat numClients) []))"

lemma not_boundExceeded: "2 * n \<le> k \<Longrightarrow> int k \<le> MaxInt \<Longrightarrow> \<not> boundExceeded (of_nat n) (int k) 2"
  using boundExceeded_fits [of 2 n k] by simp

definition addRange :: "Number \<Rightarrow> deleteSet \<Rightarrow> deleteItem \<Rightarrow> deleteSet" where
  "addRange client ds d = addToDeleteSet ds client (di_clock d) (di_length d)"

lemma newDeleteItem_id [simp]: "newDeleteItem (di_clock d) (di_length d) = d"
  by (simp add: newDeleteItem_def)

section \<open>The interface\<close>

text \<open>
  \<open>enc_at c e\<close> and \<open>dec_at c d\<close>: the side has accumulated \<open>c\<close> in the current client block.
  \<open>can c clock len\<close>: the range can be written next. A written range is at least two bytes long, the
  assumption behind the count guards.
\<close>

locale ds_codec =
  fixes E :: "'e dsEncoder" and D :: "'d dsDecoder"
    and enc_at :: "Number \<Rightarrow> 'e \<Rightarrow> bool" and dec_at :: "Number \<Rightarrow> 'd \<Rightarrow> bool"
    and can :: "Number \<Rightarrow> Number \<Rightarrow> Number \<Rightarrow> bool"
  assumes reset_at: "enc_at 0 (de_resetDS E e)" "dec_at 0 (dd_resetDS D d)"
    and reset_rest: "de_rest E (de_resetDS E e) = de_rest E e" "dd_rest D (dd_resetDS D d) = dd_rest D d"
    and put_rest: "de_rest E (de_writeRest E v e) = de_rest E e @ WriteVarUint [] v"
    and set_rest: "dd_rest D (dd_setRest D b d) = b"
    and rest_at: "enc_at c e \<Longrightarrow> enc_at c (de_writeRest E v e)" "dec_at c d \<Longrightarrow> dec_at c (dd_setRest D b d)"
    and range_law: "enc_at c e \<Longrightarrow> can c clock len \<Longrightarrow>
      \<exists>e2 out. de_writeDSLength E len (de_writeDSClock E clock e) = (None, e2) \<and>
        de_rest E e2 = de_rest E e @ out \<and> 2 \<le> length out \<and> enc_at (clock + len) e2 \<and>
        (\<forall>d t. dec_at c d \<longrightarrow> dd_rest D d = out @ t \<longrightarrow>
          (\<exists>d1 d2. dd_readDSClock D d = (Inr clock, d1) \<and> dd_readDSLength D d1 = (Inr len, d2) \<and>
            dd_rest D d2 = t \<and> dec_at (clock + len) d2))"
begin

fun admissible :: "Number \<Rightarrow> deleteItem list \<Rightarrow> bool" where
  "admissible c [] \<longleftrightarrow> True"
| "admissible c (d # ds) \<longleftrightarrow> can c (di_clock d) (di_length d) \<and> admissible (di_clock d + di_length d) ds"

lemma ranges_roundtrip:
  "enc_at c e \<Longrightarrow> admissible c items \<Longrightarrow>
    \<exists>e2 out. writeRanges E items e = (None, e2) \<and> de_rest E e2 = de_rest E e @ out \<and> 2 * length items \<le> length out \<and>
      (\<forall>d t client ranges ds. dec_at c d \<longrightarrow> dd_rest D d = out @ t \<longrightarrow>
        (\<exists>d2. readRanges D (length items) ranges d = (Inr (ranges @ items), d2) \<and>
          readRangesInto D client (length items) ds d = (Inr (foldl (addRange client) ds items), d2) \<and>
          dd_rest D d2 = t))"
proof (induction items arbitrary: c e)
  case Nil
  then show ?case by simp
next
  case (Cons x xs)
  let ?c = "di_clock x + di_length x"
  obtain e1 out1 where w1: "de_writeDSLength E (di_length x) (de_writeDSClock E (di_clock x) e) = (None, e1)"
      "de_rest E e1 = de_rest E e @ out1" "2 \<le> length out1" "enc_at ?c e1" and
    r1: "\<And>d t. dec_at c d \<Longrightarrow> dd_rest D d = out1 @ t \<Longrightarrow>
          (\<exists>d1 d2. dd_readDSClock D d = (Inr (di_clock x), d1) \<and> dd_readDSLength D d1 = (Inr (di_length x), d2) \<and>
            dd_rest D d2 = t \<and> dec_at ?c d2)"
    using range_law [OF Cons.prems(1), of "di_clock x" "di_length x"] Cons.prems(2) by auto
  obtain e2 out2 where w2: "writeRanges E xs e1 = (None, e2)" "de_rest E e2 = de_rest E e1 @ out2"
      "2 * length xs \<le> length out2" and
    r2: "\<And>d t client ranges ds. dec_at ?c d \<Longrightarrow> dd_rest D d = out2 @ t \<Longrightarrow>
        (\<exists>d2. readRanges D (length xs) ranges d = (Inr (ranges @ xs), d2) \<and>
          readRangesInto D client (length xs) ds d = (Inr (foldl (addRange client) ds xs), d2) \<and>
          dd_rest D d2 = t)"
    using Cons.IH [OF w1(4)] Cons.prems(2) by auto
  show ?case
  proof (intro exI [of _ e2] exI [of _ "out1 @ out2"] conjI allI impI)
    fix d t client ranges ds
    assume "dec_at c d" "dd_rest D d = (out1 @ out2) @ t"
    then obtain d1 d2 where d: "dd_readDSClock D d = (Inr (di_clock x), d1)"
      "dd_readDSLength D d1 = (Inr (di_length x), d2)" "dd_rest D d2 = out2 @ t" "dec_at ?c d2"
      using r1 [of d "out2 @ t"] by auto
    then show "\<exists>d2. readRanges D (length (x # xs)) ranges d = (Inr (ranges @ x # xs), d2) \<and>
          readRangesInto D client (length (x # xs)) ds d = (Inr (foldl (addRange client) ds (x # xs)), d2) \<and>
          dd_rest D d2 = t"
      using r2 [OF d(4,3), of "ranges @ [x]" client "addRange client ds x"] by (simp add: addRange_def)
  qed (use w1 w2 in simp_all)
qed

definition client_ok :: "deleteSet \<Rightarrow> Number \<Rightarrow> bool" where
  "client_ok ds c \<longleftrightarrow> 0 \<le> c \<and> c \<le> maxSafeInteger \<and> admissible 0 (clientItems ds c) \<and>
     int (length (clientItems ds c)) \<le> MaxInt"

definition block :: "deleteSet \<Rightarrow> Number \<Rightarrow> dsClientBlock" where
  "block ds c = \<lparr>blk_client = c, blk_ranges = clientItems ds c\<rparr>"

definition addClient :: "deleteSet \<Rightarrow> deleteSet \<Rightarrow> Number \<Rightarrow> deleteSet" where
  "addClient ds acc c = foldl (addRange c) acc (clientItems ds c)"

lemma onRest_ok: "m (dd_rest D d) = (Inr v, b) \<Longrightarrow> onRest D m d = (Inr v, dd_setRest D b d)"
  by (simp add: onRest_def)

lemma clients_roundtrip:
  "list_all (client_ok ds) cs \<Longrightarrow>
    \<exists>e2 out. writeClients E ds cs e = (None, e2) \<and> de_rest E e2 = de_rest E e @ out \<and> 2 * length cs \<le> length out \<and>
      (\<forall>d t blocks acc. dd_rest D d = out @ t \<longrightarrow> int (length (dd_rest D d)) \<le> MaxInt \<longrightarrow>
        (\<exists>d2. readBlocks D (length cs) blocks d = (Inr (blocks @ map (block ds) cs), d2) \<and>
          readClientsInto D (length cs) acc d = (Inr (foldl (addClient ds) acc cs), d2) \<and>
          dd_rest D d2 = t))"
proof (induction cs arbitrary: e)
  case Nil
  then show ?case by simp
next
  case (Cons c cs)
  let ?items = "clientItems ds c"
  let ?n = "of_nat (length ?items) :: uint64"
  have c: "0 \<le> c" "c \<le> maxSafeInteger" "admissible 0 ?items" "int (length ?items) \<le> MaxInt"
    using Cons.prems by (simp_all add: client_ok_def)
  then have n: "unat ?n = length ?items" by (simp add: unsigned_of_nat take_bit_eq_mod MaxInt_def)
  define e2 where "e2 = de_writeRest E ?n (de_writeRest E (word_of_int c) (de_resetDS E e))"
  define head where "head = WriteVarUint [] (word_of_int c) @ WriteVarUint [] ?n"
  have e2: "de_rest E e2 = de_rest E e @ head" "enc_at 0 e2"
    by (simp_all add: e2_def head_def put_rest reset_rest rest_at reset_at)
  have head: "2 \<le> length head"
    unfolding head_def using varuint_nonempty [of "[]" "word_of_int c"] varuint_nonempty [of "[]" ?n] by simp
  obtain e3 out3 where w3: "writeRanges E ?items e2 = (None, e3)" "de_rest E e3 = de_rest E e2 @ out3"
      "2 * length ?items \<le> length out3" and
    r3: "\<And>d t client ranges acc. dec_at 0 d \<Longrightarrow> dd_rest D d = out3 @ t \<Longrightarrow>
        (\<exists>d2. readRanges D (length ?items) ranges d = (Inr (ranges @ ?items), d2) \<and>
          readRangesInto D client (length ?items) acc d = (Inr (foldl (addRange client) acc ?items), d2) \<and>
          dd_rest D d2 = t)"
    using ranges_roundtrip [OF e2(2) c(3)] by blast
  obtain e4 out4 where w4: "writeClients E ds cs e3 = (None, e4)" "de_rest E e4 = de_rest E e3 @ out4"
      "2 * length cs \<le> length out4" and
    r4: "\<And>d t blocks acc. dd_rest D d = out4 @ t \<Longrightarrow> int (length (dd_rest D d)) \<le> MaxInt \<Longrightarrow>
        (\<exists>d2. readBlocks D (length cs) blocks d = (Inr (blocks @ map (block ds) cs), d2) \<and>
          readClientsInto D (length cs) acc d = (Inr (foldl (addClient ds) acc cs), d2) \<and>
          dd_rest D d2 = t)"
    using Cons.IH [of e3] Cons.prems by auto
  show ?case
  proof (intro exI [of _ e4] exI [of _ "head @ out3 @ out4"] conjI allI impI)
    show "writeClients E ds (c # cs) e = (None, e4)"
      using w3(1) w4(1) by (simp add: e2_def Let_def)
    show "de_rest E e4 = de_rest E e @ head @ out3 @ out4" using e2 w3 w4 by simp
    show "2 * length (c # cs) \<le> length (head @ out3 @ out4)" using head w4(3) by simp
    fix d t blocks acc
    assume d: "dd_rest D d = (head @ out3 @ out4) @ t" and len: "int (length (dd_rest D d)) \<le> MaxInt"
    define d1 where "d1 = dd_setRest D (WriteVarUint [] ?n @ out3 @ out4 @ t) (dd_resetDS D d)"
    define d2 where "d2 = dd_setRest D (out3 @ out4 @ t) d1"
    have "onRest D readVarUintAsNumber (dd_resetDS D d) = (Inr c, d1)"
      unfolding d1_def using c d by (intro onRest_ok) (simp add: reset_rest head_def roundtrip_simps)
    moreover have "onRest D ReadVarUint d1 = (Inr ?n, d2)"
      unfolding d2_def by (intro onRest_ok) (simp add: d1_def set_rest roundtrip_simps)
    moreover have r2: "dd_rest D d2 = out3 @ out4 @ t" "dec_at 0 d2"
      by (simp_all add: d2_def d1_def set_rest rest_at reset_at)
    moreover have "guardCount D ?n d2 = (Inr (), d2)"
      using not_boundExceeded [of "length ?items" "length (out3 @ out4 @ t)"] w3(3) r2 d len
      by (simp add: guardCount_def)
    moreover obtain d3 where d3: "readRanges D (length ?items) [] d2 = (Inr ?items, d3)"
        "readRangesInto D c (length ?items) acc d2 = (Inr (addClient ds acc c), d3)" "dd_rest D d3 = out4 @ t"
      using r3 [OF r2(2,1), of "[]" c acc] by (auto simp: addClient_def)
    moreover from d len d3(3) have "int (length (dd_rest D d3)) \<le> MaxInt" by simp
    with r4 [OF d3(3), of "blocks @ [block ds c]" "addClient ds acc c"] obtain d4 where
      "readBlocks D (length cs) (blocks @ [block ds c]) d3 = (Inr (blocks @ map (block ds) (c # cs)), d4)"
      "readClientsInto D (length cs) (addClient ds acc c) d3 = (Inr (foldl (addClient ds) acc (c # cs)), d4)"
      "dd_rest D d4 = t" by auto
    ultimately show "\<exists>d2. readBlocks D (length (c # cs)) blocks d = (Inr (blocks @ map (block ds) (c # cs)), d2) \<and>
          readClientsInto D (length (c # cs)) acc d = (Inr (foldl (addClient ds) acc (c # cs)), d2) \<and>
          dd_rest D d2 = t"
      using n by (simp add: block_def)
  qed
qed

end

text \<open>What the decoded set holds: every client its ranges.\<close>

lemma clientItems_addRanges:
  "clientItems (foldl (addRange client) ds items) c = (if c = client then clientItems ds c @ items else clientItems ds c)"
  by (induction items arbitrary: ds) (auto simp: addRange_def clientItems_addToDeleteSet)

lemma clientItems_addClients:
  "distinct cs \<Longrightarrow> clientItems (foldl (\<lambda>acc c. foldl (addRange c) acc (clientItems ds c)) acc cs) c =
     clientItems acc c @ (if c \<in> set cs then clientItems ds c else [])"
  by (induction cs arbitrary: acc) (auto simp: clientItems_addRanges)

definition descending :: "deleteSet \<Rightarrow> Number list" where
  "descending ds = rev (sort (map fst (ds_clients ds)))"

context ds_codec
begin

lemma deleteSet_roundtrip:
  assumes keys: "distinct (map fst (ds_clients ds))" "int (length (ds_clients ds)) \<le> MaxInt"
    and ok: "list_all (client_ok ds) (map fst (ds_clients ds))"
  shows "\<exists>e2 out. writeDeleteSet E (Some ds) e = (None, e2) \<and> de_rest E e2 = de_rest E e @ out \<and>
    (\<forall>d t. dd_rest D d = out @ t \<longrightarrow> int (length (out @ t)) \<le> MaxInt \<longrightarrow>
      (\<exists>d2 ds'. readDeleteSetOrdered D d = (Inr (map (block ds) (descending ds)), d2) \<and>
        readDeleteSet D d = (Inr ds', d2) \<and> dd_rest D d2 = t \<and> clientItems ds' = clientItems ds))"
proof -
  let ?cs = "descending ds"
  let ?n = "of_nat (length (ds_clients ds)) :: uint64"
  have n: "unat ?n = length ?cs" "length ?cs = length (ds_clients ds)"
    using keys(2) by (simp_all add: descending_def unsigned_of_nat take_bit_eq_mod MaxInt_def)
  have "list_all (client_ok ds) ?cs" using ok by (simp add: descending_def list_all_iff)
  then obtain e2 out where w: "writeClients E ds ?cs (de_writeRest E ?n e) = (None, e2)"
      "de_rest E e2 = de_rest E (de_writeRest E ?n e) @ out" "2 * length ?cs \<le> length out" and
    r: "\<And>d t blocks acc. dd_rest D d = out @ t \<Longrightarrow> int (length (dd_rest D d)) \<le> MaxInt \<Longrightarrow>
        (\<exists>d2. readBlocks D (length ?cs) blocks d = (Inr (blocks @ map (block ds) ?cs), d2) \<and>
          readClientsInto D (length ?cs) acc d = (Inr (foldl (addClient ds) acc ?cs), d2) \<and>
          dd_rest D d2 = t)"
    using clients_roundtrip [of ds ?cs "de_writeRest E ?n e"] by blast
  show ?thesis
  proof (intro exI [of _ e2] exI [of _ "WriteVarUint [] ?n @ out"] conjI allI impI)
    show "writeDeleteSet E (Some ds) e = (None, e2)"
      using w(1) by (simp add: writeDeleteSet_def descending_def)
    show "de_rest E e2 = de_rest E e @ WriteVarUint [] ?n @ out" using w(2) by (simp add: put_rest)
    fix d t
    assume d: "dd_rest D d = (WriteVarUint [] ?n @ out) @ t" "int (length ((WriteVarUint [] ?n @ out) @ t)) \<le> MaxInt"
    define d1 where "d1 = dd_setRest D (out @ t) d"
    have n1: "onRest D ReadVarUint d = (Inr ?n, d1)"
      unfolding d1_def using d by (intro onRest_ok) (simp add: roundtrip_simps)
    have r1: "dd_rest D d1 = out @ t" by (simp add: d1_def set_rest)
    have g: "guardCount D ?n d1 = (Inr (), d1)"
      using not_boundExceeded [of "length (ds_clients ds)" "length (out @ t)"] w(3) n(2) d(2) r1
      by (simp add: guardCount_def)
    from r1 d(2) have "int (length (dd_rest D d1)) \<le> MaxInt" by simp
    from r [OF r1 this, of "[]" newDeleteSet] obtain d2 where
      "readBlocks D (length ?cs) [] d1 = (Inr (map (block ds) ?cs), d2)"
      "readClientsInto D (length ?cs) newDeleteSet d1 = (Inr (foldl (addClient ds) newDeleteSet ?cs), d2)"
      "dd_rest D d2 = t" by auto
    moreover have "clientItems (foldl (addClient ds) newDeleteSet ?cs) = clientItems ds"
    proof
      fix c
      have "distinct ?cs" "set ?cs = fst ` set (ds_clients ds)"
        using keys(1) by (simp_all add: descending_def)
      then show "clientItems (foldl (addClient ds) newDeleteSet ?cs) c = clientItems ds c"
        using clientItems_addClients [of ?cs ds newDeleteSet c] clientItems_absent [of c ds]
        by (simp add: addClient_def [abs_def]) (simp add: newDeleteSet_def clientItems_def)
    qed
    ultimately show "\<exists>d2 ds'. readDeleteSetOrdered D d = (Inr (map (block ds) ?cs), d2) \<and>
        readDeleteSet D d = (Inr ds', d2) \<and> dd_rest D d2 = t \<and> clientItems ds' = clientItems ds"
      using n1 g n by (simp add: readDeleteSetOrdered_def readDeleteSet_def)
  qed
qed

end

section \<open>The two versions implement it\<close>

definition v1_can :: "Number \<Rightarrow> Number \<Rightarrow> Number \<Rightarrow> bool" where
  "v1_can c clock len \<longleftrightarrow> 0 \<le> clock \<and> clock \<le> maxSafeInteger \<and> 0 \<le> len \<and> len \<le> maxSafeInteger"

definition v2_can :: "Number \<Rightarrow> Number \<Rightarrow> Number \<Rightarrow> bool" where
  "v2_can c clock len \<longleftrightarrow> 0 \<le> c \<and> c \<le> clock \<and> clock - c \<le> maxSafeInteger \<and>
     1 \<le> len \<and> len - 1 \<le> maxSafeInteger \<and> clock + len \<le> MaxInt"

lemma varuint_pair_length: "2 \<le> length (WriteVarUint [] v @ WriteVarUint [] w)"
  using varuint_nonempty [of "[]" v] varuint_nonempty [of "[]" w] by simp

interpretation v1: ds_codec V1_encoder V1_decoder "\<lambda>_ _. True" "\<lambda>_ _. True" v1_can
proof unfold_locales
  fix c e clock len
  assume "v1_can c clock len"
  then show "\<exists>e2 out. de_writeDSLength V1_encoder len (de_writeDSClock V1_encoder clock e) = (None, e2) \<and>
      de_rest V1_encoder e2 = de_rest V1_encoder e @ out \<and> 2 \<le> length out \<and> True \<and>
      (\<forall>d t. True \<longrightarrow> dd_rest V1_decoder d = out @ t \<longrightarrow>
        (\<exists>d1 d2. dd_readDSClock V1_decoder d = (Inr clock, d1) \<and>
          dd_readDSLength V1_decoder d1 = (Inr len, d2) \<and> dd_rest V1_decoder d2 = t \<and> True))"
    by (intro exI [of _ "\<lparr>e1_rest = e1_rest e @ WriteVarUint [] (word_of_int clock) @ WriteVarUint [] (word_of_int len)\<rparr>"]
        exI [of _ "WriteVarUint [] (word_of_int clock) @ WriteVarUint [] (word_of_int len)"])
      (use varuint_pair_length in \<open>auto simp: V1_encoder_def V1_decoder_def v1_writeDSClock_def
        v1_writeDSLength_def v1_readDSClock_def v1_readDSLength_def v1_can_def roundtrip_simps
        WriteVarUint_append [of "e1_rest e @ _"] WriteVarUint_append [of "e1_rest e"]\<close>)
qed (simp_all add: V1_encoder_def V1_decoder_def v1_writeRest_def WriteVarUint_append [of "e1_rest _"])

lemma fast_toBytes_put: "fast_toBytes (fast_writeRestVarUint v e) = fast_toBytes e @ WriteVarUint [] v"
  by (auto simp: fast_toBytes_def fast_writeRestVarUint_def appendVarUint_eq split: option.splits
    intro: WriteVarUint_append)

interpretation fast: ds_codec fast_encoder V1_decoder "\<lambda>_ _. True" "\<lambda>_ _. True" v1_can
proof unfold_locales
  fix c e clock len
  assume "v1_can c clock len"
  then show "\<exists>e2 out. de_writeDSLength fast_encoder len (de_writeDSClock fast_encoder clock e) = (None, e2) \<and>
      de_rest fast_encoder e2 = de_rest fast_encoder e @ out \<and> 2 \<le> length out \<and> True \<and>
      (\<forall>d t. True \<longrightarrow> dd_rest V1_decoder d = out @ t \<longrightarrow>
        (\<exists>d1 d2. dd_readDSClock V1_decoder d = (Inr clock, d1) \<and>
          dd_readDSLength V1_decoder d1 = (Inr len, d2) \<and> dd_rest V1_decoder d2 = t \<and> True))"
    by (intro exI [of _ "fast_writeRestVarUint (word_of_int len) (fast_writeRestVarUint (word_of_int clock) e)"]
        exI [of _ "WriteVarUint [] (word_of_int clock) @ WriteVarUint [] (word_of_int len)"])
      (use varuint_pair_length in \<open>auto simp: fast_encoder_def V1_decoder_def fast_writeDSClock_def
        fast_writeDSLength_def v1_readDSClock_def v1_readDSLength_def v1_can_def roundtrip_simps fast_toBytes_put\<close>)
qed (simp_all add: fast_encoder_def V1_decoder_def fast_toBytes_put)

interpretation v2: ds_codec V2_encoder V2_decoder "\<lambda>c e. e2_dsCurrVal e = c" "\<lambda>c d. d2_dsCurrVal d = c" v2_can
proof unfold_locales
  fix c clock len and e :: dsEncoderV2
  assume c: "e2_dsCurrVal e = c" and can: "v2_can c clock len"
  define w1 where "w1 = (word_of_int (clock - c) :: uint64)"
  define w2 where "w2 = (word_of_int (len - 1) :: uint64)"
  let ?b1 = "WriteVarUint [] w1" and ?b2 = "WriteVarUint [] w2"
  have num: "toNumber w1 = Inr (clock - c)" "toNumber w2 = Inr (len - 1)"
    unfolding w1_def w2_def using can by (intro toNumber_word_of_int; simp add: v2_can_def)+
  have wr: "wrap64 (clock - c) = clock - c" "wrap64 (clock + len) = clock + len"
    using can by (auto intro!: wrap64_in_range simp: v2_can_def int64_ok_def MinInt_def MaxInt_def maxSafeInteger_def)
  have add: "addBounded c (clock - c) = Inr clock" "addBounded clock len = Inr (clock + len)"
    using can by (subst addBounded_iff; simp add: v2_can_def MaxInt_def maxSafeInteger_def)+
  have nmax: "len - 1 \<noteq> MaxInt" using can by (auto simp: v2_can_def maxSafeInteger_def MaxInt_def)
  show "\<exists>e2 out. de_writeDSLength V2_encoder len (de_writeDSClock V2_encoder clock e) = (None, e2) \<and>
      de_rest V2_encoder e2 = de_rest V2_encoder e @ out \<and> 2 \<le> length out \<and> e2_dsCurrVal e2 = clock + len \<and>
      (\<forall>d t. d2_dsCurrVal d = c \<longrightarrow> dd_rest V2_decoder d = out @ t \<longrightarrow>
        (\<exists>d1 d2. dd_readDSClock V2_decoder d = (Inr clock, d1) \<and>
          dd_readDSLength V2_decoder d1 = (Inr len, d2) \<and> dd_rest V2_decoder d2 = t \<and>
          d2_dsCurrVal d2 = clock + len))"
  proof (intro exI [of _ "\<lparr>e2_rest = e2_rest e @ ?b1 @ ?b2, e2_dsCurrVal = clock + len\<rparr>"]
      exI [of _ "?b1 @ ?b2"] conjI allI impI)
    show "de_writeDSLength V2_encoder len (de_writeDSClock V2_encoder clock e) =
        (None, \<lparr>e2_rest = e2_rest e @ ?b1 @ ?b2, e2_dsCurrVal = clock + len\<rparr>)"
      unfolding w1_def w2_def
      using can c wr by (simp add: V2_encoder_def v2_writeDSLength_def v2_writeDSClock_def v2_can_def Let_def
        WriteVarUint_append [of "e2_rest e"] WriteVarUint_append [of "e2_rest e @ _"])
    show "2 \<le> length (?b1 @ ?b2)" by (rule varuint_pair_length)
    fix d t
    assume d: "d2_dsCurrVal d = c" "dd_rest V2_decoder d = (?b1 @ ?b2) @ t"
    have "v2_readDSClock d = (Inr clock, \<lparr>d2_rest = ?b2 @ t, d2_dsCurrVal = clock\<rparr>)"
      using d num add by (simp add: v2_readDSClock_def v2d_readRestVarUint_def V2_decoder_def roundtrip_simps
        addDsCurVal_def)
    moreover have "v2_readDSLength \<lparr>d2_rest = ?b2 @ t, d2_dsCurrVal = clock\<rparr> =
        (Inr len, \<lparr>d2_rest = t, d2_dsCurrVal = clock + len\<rparr>)"
      using num add nmax by (simp add: v2_readDSLength_def v2d_readRestVarUint_def roundtrip_simps
        addDsCurVal_def Let_def)
    ultimately show "\<exists>d1 d2. dd_readDSClock V2_decoder d = (Inr clock, d1) \<and>
          dd_readDSLength V2_decoder d1 = (Inr len, d2) \<and> dd_rest V2_decoder d2 = t \<and> d2_dsCurrVal d2 = clock + len"
      by (simp add: V2_decoder_def)
  qed (simp_all add: V2_encoder_def)
qed (simp_all add: V2_encoder_def V2_decoder_def v2_resetDS_def v2d_resetDS_def v2_writeRest_def
    WriteVarUint_append [of "e2_rest _"])

section \<open>Delete sets of live documents\<close>

text \<open>What a delete set built from a document satisfies: normal form, positive lengths, numbers below 2 ^ 53.\<close>

definition safe_range :: "deleteItem \<Rightarrow> bool" where
  "safe_range d \<longleftrightarrow> 0 \<le> di_clock d \<and> 0 < di_length d \<and> di_clock d + di_length d \<le> maxSafeInteger"

definition wire_ok :: "deleteSet \<Rightarrow> bool" where
  "wire_ok ds \<longleftrightarrow> distinct (map fst (ds_clients ds)) \<and> int (length (ds_clients ds)) \<le> MaxInt \<and>
     list_all (\<lambda>(c, items). 0 \<le> c \<and> c \<le> maxSafeInteger \<and> separated items \<and> list_all safe_range items \<and>
       int (length items) \<le> MaxInt) (ds_clients ds)"

lemma v1_admissible: "list_all safe_range items \<Longrightarrow> v1.admissible c items"
  by (induction items arbitrary: c) (auto simp: safe_range_def v1_can_def)

lemma v2_admissible:
  "separated items \<Longrightarrow> list_all safe_range items \<Longrightarrow> 0 \<le> c \<Longrightarrow> (items = [] \<or> c \<le> di_clock (hd items)) \<Longrightarrow>
     v2.admissible c items"
proof (induction items arbitrary: c)
  case (Cons x xs)
  have "v2.admissible (di_clock x + di_length x) xs"
    using Cons.prems by (intro Cons.IH; cases xs) (auto simp: safe_range_def)
  moreover have "v2_can c (di_clock x) (di_length x)"
    using Cons.prems by (simp add: v2_can_def safe_range_def maxSafeInteger_def MaxInt_def)
  ultimately show ?case by simp
qed simp

lemma wire_ok_items:
  assumes "wire_ok ds" "c \<in> fst ` set (ds_clients ds)"
  shows "0 \<le> c" "c \<le> maxSafeInteger" "separated (clientItems ds c)" "list_all safe_range (clientItems ds c)"
    "int (length (clientItems ds c)) \<le> MaxInt"
proof -
  from assms(2) obtain items where "map_of (ds_clients ds) c = Some items"
    by (metis map_of_eq_None_iff not_None_eq)
  with map_of_SomeD [OF this] assms(1)
  show "0 \<le> c" "c \<le> maxSafeInteger" "separated (clientItems ds c)" "list_all safe_range (clientItems ds c)"
    "int (length (clientItems ds c)) \<le> MaxInt"
    by (auto simp: wire_ok_def list_all_iff clientItems_def)
qed

lemma safe_range_hd: "list_all safe_range items \<Longrightarrow> items = [] \<or> 0 \<le> di_clock (hd items)"
  by (cases items) (auto simp: safe_range_def)

lemma v2_client_ok: "wire_ok ds \<Longrightarrow> list_all (v2.client_ok ds) (map fst (ds_clients ds))"
  unfolding list_all_iff set_map
  by (intro ballI) (simp add: v2.client_ok_def wire_ok_items v2_admissible safe_range_hd)

lemma v1_client_ok: "wire_ok ds \<Longrightarrow> list_all (v1.client_ok ds) (map fst (ds_clients ds))"
  unfolding list_all_iff set_map by (intro ballI) (simp add: v1.client_ok_def wire_ok_items v1_admissible)

section \<open>Decoding arbitrary bytes\<close>

text \<open>
  What a decoder promises of the ranges it returns, on any input: \<open>ok\<close> holds of each of them.
\<close>

locale ds_reader =
  fixes D :: "'d dsDecoder" and inv :: "'d \<Rightarrow> bool" and ok :: "deleteItem \<Rightarrow> bool"
  assumes inv_reset: "inv d \<Longrightarrow> inv (dd_resetDS D d)"
    and inv_setRest: "inv d \<Longrightarrow> inv (dd_setRest D b d)"
    and inv_range: "inv d \<Longrightarrow> dd_readDSClock D d = (Inr clock, d1) \<Longrightarrow> dd_readDSLength D d1 = (Inr len, d2) \<Longrightarrow>
      inv d2 \<and> ok (newDeleteItem clock len)"
begin

lemma onRest_inv: "inv d \<Longrightarrow> onRest D m d = (r, d') \<Longrightarrow> inv d'"
  by (auto simp: onRest_def inv_setRest split: prod.splits)

lemma readRangesInto_ok:
  "inv d \<Longrightarrow> readRangesInto D client n ds d = (Inr ds', d') \<Longrightarrow> (\<forall>c. \<forall>x \<in> set (clientItems ds c). ok x) \<Longrightarrow>
     inv d' \<and> (\<forall>c. \<forall>x \<in> set (clientItems ds' c). ok x)"
proof (induction n arbitrary: ds d)
  case (Suc n)
  then obtain clock d1 len d2 where r: "dd_readDSClock D d = (Inr clock, d1)" "dd_readDSLength D d1 = (Inr len, d2)"
    and rest: "readRangesInto D client n (addToDeleteSet ds client clock len) d2 = (Inr ds', d')"
    by (auto elim!: rbind_InrE)
  from inv_range [OF Suc.prems(1) r] have i: "inv d2" "ok (newDeleteItem clock len)" by auto
  have "\<forall>c. \<forall>x \<in> set (clientItems (addToDeleteSet ds client clock len) c). ok x"
    using i(2) Suc.prems(3) by (simp add: clientItems_addToDeleteSet)
  with Suc.IH [OF i(1) rest] show ?case by blast
qed simp

lemma readClientsInto_ok:
  "inv d \<Longrightarrow> readClientsInto D n ds d = (Inr ds', d') \<Longrightarrow> (\<forall>c. \<forall>x \<in> set (clientItems ds c). ok x) \<Longrightarrow>
     (\<forall>c. \<forall>x \<in> set (clientItems ds' c). ok x)"
proof (induction n arbitrary: ds d)
  case (Suc n)
  then obtain client d1 k d2 ds1 d3 where r: "onRest D readVarUintAsNumber (dd_resetDS D d) = (Inr client, d1)"
      "onRest D ReadVarUint d1 = (Inr k, d2)" "readRangesInto D client (unat k) ds d2 = (Inr ds1, d3)"
    and rest: "readClientsInto D n ds1 d3 = (Inr ds', d')"
    by (auto elim!: rbind_InrE)
  have "inv d2" by (rule onRest_inv [OF onRest_inv [OF inv_reset [OF Suc.prems(1)] r(1)] r(2)])
  from readRangesInto_ok [OF this r(3) Suc.prems(3)] Suc.IH [OF _ rest] show ?case by blast
qed simp

lemma readDeleteSet_ok:
  assumes "inv d" "readDeleteSet D d = (Inr ds, d')"
  shows "\<forall>c. \<forall>x \<in> set (clientItems ds c). ok x"
proof -
  obtain n d1 where r: "onRest D ReadVarUint d = (Inr n, d1)" "readClientsInto D (unat n) newDeleteSet d1 = (Inr ds, d')"
    using assms(2) by (auto simp: readDeleteSet_def elim!: rbind_InrE)
  show ?thesis
    by (rule readClientsInto_ok [OF onRest_inv [OF assms(1) r(1)] r(2)])
      (simp add: newDeleteSet_def clientItems_def)
qed

lemma readRanges_ok:
  "inv d \<Longrightarrow> readRanges D n acc d = (Inr rs, d') \<Longrightarrow> list_all ok acc \<Longrightarrow> inv d' \<and> list_all ok rs"
proof (induction n arbitrary: acc d)
  case (Suc n)
  then obtain clock d1 len d2 where r: "dd_readDSClock D d = (Inr clock, d1)" "dd_readDSLength D d1 = (Inr len, d2)"
    and rest: "readRanges D n (acc @ [newDeleteItem clock len]) d2 = (Inr rs, d')"
    by (auto elim!: rbind_InrE)
  from inv_range [OF Suc.prems(1) r] Suc.IH [OF _ rest] Suc.prems(3) show ?case by simp
qed simp

lemma readBlocks_ok:
  "inv d \<Longrightarrow> readBlocks D n acc d = (Inr bs, d') \<Longrightarrow> list_all (\<lambda>b. list_all ok (blk_ranges b)) acc \<Longrightarrow>
     list_all (\<lambda>b. list_all ok (blk_ranges b)) bs"
proof (induction n arbitrary: acc d)
  case (Suc n)
  then obtain client d1 k d2 d3 rs d4 where r: "onRest D readVarUintAsNumber (dd_resetDS D d) = (Inr client, d1)"
      "onRest D ReadVarUint d1 = (Inr k, d2)" "guardCount D k d2 = (Inr (), d3)" "readRanges D (unat k) [] d3 = (Inr rs, d4)"
    and rest: "readBlocks D n (acc @ [\<lparr>blk_client = client, blk_ranges = rs\<rparr>]) d4 = (Inr bs, d')"
    by (auto elim!: rbind_InrE)
  have "inv d2" by (rule onRest_inv [OF onRest_inv [OF inv_reset [OF Suc.prems(1)] r(1)] r(2)])
  then have "inv d3" using r(3) by (auto simp: guardCount_def split: if_splits)
  from readRanges_ok [OF this r(4)] Suc.IH [OF _ rest] Suc.prems(3) show ?case by simp
qed simp

lemma readDeleteSetOrdered_ok:
  assumes "inv d" "readDeleteSetOrdered D d = (Inr bs, d')"
  shows "list_all (\<lambda>b. list_all ok (blk_ranges b)) bs"
proof -
  obtain n d1 d2 where r: "onRest D ReadVarUint d = (Inr n, d1)" "guardCount D n d1 = (Inr (), d2)"
      "readBlocks D (unat n) [] d2 = (Inr bs, d')"
    using assms(2) by (auto simp: readDeleteSetOrdered_def elim!: rbind_InrE)
  then have "inv d2" using onRest_inv [OF assms(1)] by (auto simp: guardCount_def split: if_splits)
  from readBlocks_ok [OF this r(3)] show ?thesis by simp
qed

end

lemma toNumber_Inr: "toNumber n = Inr v \<Longrightarrow> 0 \<le> v \<and> v \<le> maxSafeInteger"
  by (rule toNumber_range)

definition v1_range :: "deleteItem \<Rightarrow> bool" where
  "v1_range d \<longleftrightarrow> 0 \<le> di_clock d \<and> di_clock d \<le> maxSafeInteger \<and> 0 \<le> di_length d \<and> di_length d \<le> maxSafeInteger"

definition v2_range :: "deleteItem \<Rightarrow> bool" where
  "v2_range d \<longleftrightarrow> 0 \<le> di_clock d \<and> 1 \<le> di_length d \<and> di_clock d + di_length d \<le> MaxInt"

interpretation v1r: ds_reader V1_decoder "\<lambda>_. True" v1_range
  by unfold_locales (auto simp: V1_decoder_def v1_readDSClock_def v1_readDSLength_def rbind_def v1_range_def
    newDeleteItem_def split: prod.splits sum.splits dest!: toNumber_range)

lemma addDsCurVal_bounds:
  assumes "addDsCurVal delta d = (Inr v, d')" "0 \<le> d2_dsCurrVal d" "d2_dsCurrVal d \<le> MaxInt" "0 \<le> delta" "delta \<le> MaxInt"
  shows "v = d2_dsCurrVal d + delta \<and> v \<le> MaxInt \<and> d2_dsCurrVal d' = v"
proof (cases "addBounded (d2_dsCurrVal d) delta")
  case (Inl e)
  with assms(1) show ?thesis by (simp add: addDsCurVal_def)
next
  case (Inr w)
  with addBounded_iff [OF assms(2-5), of w] have "w = d2_dsCurrVal d + delta" "w \<le> MaxInt" by simp_all
  with Inr assms(1) show ?thesis by (auto simp: addDsCurVal_def)
qed

lemma v2_clock_bounds:
  assumes "v2_readDSClock d = (Inr clock, d')" "0 \<le> d2_dsCurrVal d" "d2_dsCurrVal d \<le> MaxInt"
  shows "0 \<le> clock \<and> clock \<le> MaxInt \<and> d2_dsCurrVal d' = clock"
proof -
  obtain n b delta where n: "ReadVarUint (d2_rest d) = (Inr n, b)" "toNumber n = Inr delta"
    "addDsCurVal delta (d\<lparr>d2_rest := b\<rparr>) = (Inr clock, d')"
    using assms(1) by (auto simp: v2_readDSClock_def rbind_def v2d_readRestVarUint_def split: prod.splits sum.splits)
  from toNumber_range [OF n(2)] have "0 \<le> delta" "delta \<le> MaxInt" by (auto simp: maxSafeInteger_def MaxInt_def)
  with addDsCurVal_bounds [OF n(3)] assms(2,3) show ?thesis by simp
qed

lemma v2_length_bounds:
  assumes "v2_readDSLength d = (Inr len, d')" "0 \<le> d2_dsCurrVal d" "d2_dsCurrVal d \<le> MaxInt"
  shows "1 \<le> len \<and> d2_dsCurrVal d' = d2_dsCurrVal d + len \<and> d2_dsCurrVal d' \<le> MaxInt"
proof -
  obtain n b nn v where n: "ReadVarUint (d2_rest d) = (Inr n, b)" "toNumber n = Inr nn"
    "addDsCurVal (nn + 1) (d\<lparr>d2_rest := b\<rparr>) = (Inr v, d')" "len = nn + 1"
    using assms(1) by (auto simp: v2_readDSLength_def rbind_def v2d_readRestVarUint_def Let_def
      split: prod.splits sum.splits if_splits)
  from toNumber_range [OF n(2)] have "0 \<le> nn + 1" "nn + 1 \<le> MaxInt" "1 \<le> nn + 1"
    by (auto simp: maxSafeInteger_def MaxInt_def)
  with addDsCurVal_bounds [OF n(3)] assms(2,3) n(4) show ?thesis by simp
qed

interpretation v2r: ds_reader V2_decoder "\<lambda>d. 0 \<le> d2_dsCurrVal d \<and> d2_dsCurrVal d \<le> MaxInt" v2_range
proof unfold_locales
  fix d d1 d2 :: dsDecoderV2 and clock len
  assume "0 \<le> d2_dsCurrVal d \<and> d2_dsCurrVal d \<le> MaxInt" "dd_readDSClock V2_decoder d = (Inr clock, d1)"
    "dd_readDSLength V2_decoder d1 = (Inr len, d2)"
  then show "(0 \<le> d2_dsCurrVal d2 \<and> d2_dsCurrVal d2 \<le> MaxInt) \<and> v2_range (newDeleteItem clock len)"
    using v2_clock_bounds [of d clock d1] v2_length_bounds [of d1 len d2]
    by (auto simp: V2_decoder_def v2_range_def newDeleteItem_def)
qed (simp_all add: V2_decoder_def v2d_resetDS_def MaxInt_def)

section \<open>The V2 writer refuses empty ranges\<close>

lemma v2_writeRanges_result:
  "fst (writeRanges V2_encoder items e) = (if list_all (\<lambda>d. 0 < di_length d) items then None else Some InvalidDeleteLength)"
proof (induction items arbitrary: e)
  case (Cons x xs)
  then show ?case
    by (cases "0 < di_length x") (simp_all add: V2_encoder_def v2_writeDSLength_def)
qed simp

lemma v2_writeClients_result:
  "fst (writeClients V2_encoder ds cs e) =
     (if list_all (\<lambda>c. list_all (\<lambda>d. 0 < di_length d) (clientItems ds c)) cs then None else Some InvalidDeleteLength)"
proof (induction cs arbitrary: e)
  case (Cons c cs)
  let ?e = "de_writeRest V2_encoder (of_nat (length (clientItems ds c)))
    (de_writeRest V2_encoder (word_of_int c) (de_resetDS V2_encoder e))"
  obtain r e' where w: "writeRanges V2_encoder (clientItems ds c) ?e = (r, e')" by fastforce
  with v2_writeRanges_result [of "clientItems ds c" ?e]
  have "r = (if list_all (\<lambda>d. 0 < di_length d) (clientItems ds c) then None else Some InvalidDeleteLength)" by simp
  with w Cons show ?case by (simp add: Let_def)
qed simp

section \<open>The fast V1 encoder writes the same bytes\<close>

definition same_bytes :: "byte list \<Rightarrow> fastUpdateEncoderV1 \<Rightarrow> dsEncoderV1 \<Rightarrow> bool" where
  "same_bytes p f e \<longleftrightarrow> fast_toBytes f = p @ e1_rest e"

lemma same_bytes_put: "same_bytes p f e \<Longrightarrow> same_bytes p (fast_writeRestVarUint v f) (v1_writeRest v e)"
  by (simp add: same_bytes_def fast_toBytes_put v1_writeRest_def WriteVarUint_append [of "e1_rest e"])

lemma writeRanges_fast:
  "same_bytes p f e \<Longrightarrow> \<exists>f' e'. writeRanges fast_encoder items f = (None, f') \<and>
     writeRanges V1_encoder items e = (None, e') \<and> same_bytes p f' e'"
proof (induction items arbitrary: f e)
  case (Cons x xs)
  have "same_bytes p (fast_writeRestVarUint (word_of_int (di_length x)) (fast_writeRestVarUint (word_of_int (di_clock x)) f))
      (v1_writeRest (word_of_int (di_length x)) (v1_writeRest (word_of_int (di_clock x)) e))"
    by (intro same_bytes_put Cons.prems)
  from Cons.IH [OF this] show ?case
    by (simp add: fast_encoder_def V1_encoder_def fast_writeDSLength_def fast_writeDSClock_def
      v1_writeDSLength_def v1_writeDSClock_def v1_writeRest_def)
qed simp

lemma writeClients_fast:
  "same_bytes p f e \<Longrightarrow> \<exists>f' e'. writeClients fast_encoder ds cs f = (None, f') \<and>
     writeClients V1_encoder ds cs e = (None, e') \<and> same_bytes p f' e'"
proof (induction cs arbitrary: f e)
  case (Cons c cs)
  let ?n = "of_nat (length (clientItems ds c))"
  have "same_bytes p (fast_writeRestVarUint ?n (fast_writeRestVarUint (word_of_int c) f))
      (v1_writeRest ?n (v1_writeRest (word_of_int c) e))"
    by (intro same_bytes_put Cons.prems)
  from writeRanges_fast [OF this, of "clientItems ds c"] obtain f1 e1 where
    1: "writeRanges fast_encoder (clientItems ds c) (fast_writeRestVarUint ?n (fast_writeRestVarUint (word_of_int c) f)) = (None, f1)"
      "writeRanges V1_encoder (clientItems ds c) (v1_writeRest ?n (v1_writeRest (word_of_int c) e)) = (None, e1)"
      "same_bytes p f1 e1" by blast
  have "de_writeRest fast_encoder = fast_writeRestVarUint" "de_resetDS fast_encoder = (\<lambda>e. e)"
    "de_writeRest V1_encoder = v1_writeRest" "de_resetDS V1_encoder = (\<lambda>e. e)"
    by (simp_all add: fast_encoder_def V1_encoder_def)
  with 1 Cons.IH [OF 1(3)] show ?case by (simp add: Let_def)
qed simp

lemma writeDeleteSet_fast:
  assumes "fast_toBytes f = []"
  shows "\<exists>f' e'. writeDeleteSet fast_encoder (Some ds) f = (None, f') \<and>
     writeDeleteSet V1_encoder (Some ds) \<lparr>e1_rest = []\<rparr> = (None, e') \<and> fast_toBytes f' = e1_rest e'"
proof -
  let ?n = "of_nat (length (ds_clients ds))"
  have "same_bytes [] (fast_writeRestVarUint ?n f) (v1_writeRest ?n \<lparr>e1_rest = []\<rparr>)"
    by (rule same_bytes_put) (simp add: same_bytes_def assms)
  moreover have "de_writeRest fast_encoder = fast_writeRestVarUint" "de_writeRest V1_encoder = v1_writeRest"
    by (simp_all add: fast_encoder_def V1_encoder_def)
  ultimately show ?thesis
    using writeClients_fast by (fastforce simp: writeDeleteSet_def same_bytes_def Let_def)
qed

section \<open>Properties\<close>

text \<open>
  Claim C13. The delete set of a document, written with the V2 encoder after anything else, is read back by both readers:
  the ordered one returns the clients in descending order with their ranges, the other a delete set
  with the same ranges for every client; both stop exactly at the following bytes.
\<close>

theorem deleteSet_v2_roundtrip:
  assumes "wire_ok ds"
    and "int (length (e2_rest (snd (writeDeleteSet V2_encoder (Some ds) \<lparr>e2_rest = [], e2_dsCurrVal = 0\<rparr>)) @ t)) \<le> MaxInt"
  shows "case writeDeleteSet V2_encoder (Some ds) \<lparr>e2_rest = [], e2_dsCurrVal = 0\<rparr> of (err, e) \<Rightarrow>
    err = None \<and>
    (case readDeleteSet V2_decoder (newDSDecoderV2 (e2_rest e @ t)) of
       (Inl _, _) \<Rightarrow> False | (Inr ds', d) \<Rightarrow> clientItems ds' = clientItems ds \<and> d2_rest d = t) \<and>
    (case readDeleteSetOrdered V2_decoder (newDSDecoderV2 (e2_rest e @ t)) of
       (Inl _, _) \<Rightarrow> False
     | (Inr blocks, d) \<Rightarrow> d2_rest d = t \<and>
         blocks = map (\<lambda>c. \<lparr>blk_client = c, blk_ranges = clientItems ds c\<rparr>) (rev (sort (map fst (ds_clients ds)))))"
proof -
  let ?e0 = "\<lparr>e2_rest = [], e2_dsCurrVal = 0\<rparr>"
  have "distinct (map fst (ds_clients ds))" "int (length (ds_clients ds)) \<le> MaxInt"
    using assms(1) by (simp_all add: wire_ok_def)
  from v2.deleteSet_roundtrip [OF this v2_client_ok [OF assms(1)], of ?e0] obtain e2 out where
    w: "writeDeleteSet V2_encoder (Some ds) ?e0 = (None, e2)" "de_rest V2_encoder e2 = de_rest V2_encoder ?e0 @ out" and
    r: "\<And>d t. dd_rest V2_decoder d = out @ t \<Longrightarrow> int (length (out @ t)) \<le> MaxInt \<Longrightarrow>
      (\<exists>d2 ds'. readDeleteSetOrdered V2_decoder d = (Inr (map (v2.block ds) (descending ds)), d2) \<and>
        readDeleteSet V2_decoder d = (Inr ds', d2) \<and> dd_rest V2_decoder d2 = t \<and> clientItems ds' = clientItems ds)"
    by blast
  from w(2) have out: "e2_rest e2 = out" by (simp add: V2_encoder_def)
  with assms(2) w(1) have len: "int (length (out @ t)) \<le> MaxInt" by simp
  have "dd_rest V2_decoder (newDSDecoderV2 (out @ t)) = out @ t" by (simp add: V2_decoder_def newDSDecoderV2_def)
  from r [OF this len] w(1) out show ?thesis
    by (auto simp: V2_decoder_def v2.block_def [abs_def] descending_def)
qed

theorem deleteSet_v2_roundtrip_witness:
  "case writeDeleteSet V2_encoder (Some (addToDeleteSet newDeleteSet 5 10 3)) \<lparr>e2_rest = [], e2_dsCurrVal = 0\<rparr> of (err, e) \<Rightarrow>
    err = None \<and>
    (case readDeleteSet V2_decoder (newDSDecoderV2 (e2_rest e @ [9])) of
       (Inl _, _) \<Rightarrow> False
     | (Inr ds', d) \<Rightarrow> clientItems ds' = clientItems (addToDeleteSet newDeleteSet 5 10 3) \<and> d2_rest d = [9]) \<and>
    (case readDeleteSetOrdered V2_decoder (newDSDecoderV2 (e2_rest e @ [9])) of
       (Inl _, _) \<Rightarrow> False
     | (Inr blocks, d) \<Rightarrow> d2_rest d = [9] \<and>
         blocks = map (\<lambda>c. \<lparr>blk_client = c, blk_ranges = clientItems (addToDeleteSet newDeleteSet 5 10 3) c\<rparr>)
           (rev (sort (map fst (ds_clients (addToDeleteSet newDeleteSet 5 10 3))))))"
proof (rule deleteSet_v2_roundtrip)
  show "wire_ok (addToDeleteSet newDeleteSet 5 10 3)" by code_simp
  show "int (length (e2_rest (snd (writeDeleteSet V2_encoder (Some (addToDeleteSet newDeleteSet 5 10 3))
      \<lparr>e2_rest = [], e2_dsCurrVal = 0\<rparr>)) @ [9])) \<le> MaxInt" by code_simp
qed

text \<open>
  Claim C14. Version 1: the buffered and the fast encoder write the same bytes for a delete set, and these are read back,
  clients in descending order.
\<close>

theorem deleteSet_v1_roundtrip:
  assumes "wire_ok ds"
    and "r = None \<or> r = Some []"
    and "int (length (e1_rest (snd (writeDeleteSet V1_encoder (Some ds) \<lparr>e1_rest = []\<rparr>)) @ t)) \<le> MaxInt"
  shows "case writeDeleteSet V1_encoder (Some ds) \<lparr>e1_rest = []\<rparr> of (err, e) \<Rightarrow>
    err = None \<and>
    (case writeDeleteSet fast_encoder (Some ds)
        \<lparr>fe_buf = [], fe_rest = r, fe_hasDeleted = h, fe_scanDeletes = s\<rparr> of
       (err', f) \<Rightarrow> err' = None \<and> fast_toBytes f = e1_rest e) \<and>
    (case readDeleteSet V1_decoder (e1_rest e @ t) of
       (Inl _, _) \<Rightarrow> False | (Inr ds', d) \<Rightarrow> clientItems ds' = clientItems ds \<and> d = t) \<and>
    readDeleteSetOrdered V1_decoder (e1_rest e @ t) =
      (Inr (map (\<lambda>c. \<lparr>blk_client = c, blk_ranges = clientItems ds c\<rparr>) (rev (sort (map fst (ds_clients ds))))), t)"
proof -
  have "distinct (map fst (ds_clients ds))" "int (length (ds_clients ds)) \<le> MaxInt"
    using assms(1) by (simp_all add: wire_ok_def)
  from v1.deleteSet_roundtrip [OF this v1_client_ok [OF assms(1)], of "\<lparr>e1_rest = []\<rparr>"] obtain e2 out where
    w: "writeDeleteSet V1_encoder (Some ds) \<lparr>e1_rest = []\<rparr> = (None, e2)"
      "de_rest V1_encoder e2 = de_rest V1_encoder \<lparr>e1_rest = []\<rparr> @ out" and
    rr: "\<And>d t. dd_rest V1_decoder d = out @ t \<Longrightarrow> int (length (out @ t)) \<le> MaxInt \<Longrightarrow>
      (\<exists>d2 ds'. readDeleteSetOrdered V1_decoder d = (Inr (map (v1.block ds) (descending ds)), d2) \<and>
        readDeleteSet V1_decoder d = (Inr ds', d2) \<and> dd_rest V1_decoder d2 = t \<and> clientItems ds' = clientItems ds)"
    by blast
  from w(2) have out: "e1_rest e2 = out" by (simp add: V1_encoder_def)
  with assms(3) w(1) have len: "int (length (out @ t)) \<le> MaxInt" by simp
  have "dd_rest V1_decoder (out @ t) = out @ t" by (simp add: V1_decoder_def)
  moreover have "fast_toBytes \<lparr>fe_buf = [], fe_rest = r, fe_hasDeleted = h, fe_scanDeletes = s\<rparr> = []"
    using assms(2) by (auto simp: fast_toBytes_def)
  note writeDeleteSet_fast [OF this, of ds]
  ultimately show ?thesis using rr [OF _ len] w(1) out
    by (auto simp: V1_decoder_def v1.block_def [abs_def] descending_def)
qed

theorem deleteSet_v1_roundtrip_witness:
  "case writeDeleteSet V1_encoder (Some (addToDeleteSet newDeleteSet 5 10 3)) \<lparr>e1_rest = []\<rparr> of (err, e) \<Rightarrow>
    err = None \<and>
    (case writeDeleteSet fast_encoder (Some (addToDeleteSet newDeleteSet 5 10 3))
        \<lparr>fe_buf = [], fe_rest = None, fe_hasDeleted = False, fe_scanDeletes = True\<rparr> of
       (err', f) \<Rightarrow> err' = None \<and> fast_toBytes f = e1_rest e) \<and>
    (case readDeleteSet V1_decoder (e1_rest e @ [9]) of
       (Inl _, _) \<Rightarrow> False
     | (Inr ds', d) \<Rightarrow> clientItems ds' = clientItems (addToDeleteSet newDeleteSet 5 10 3) \<and> d = [9]) \<and>
    readDeleteSetOrdered V1_decoder (e1_rest e @ [9]) =
      (Inr (map (\<lambda>c. \<lparr>blk_client = c, blk_ranges = clientItems (addToDeleteSet newDeleteSet 5 10 3) c\<rparr>)
        (rev (sort (map fst (ds_clients (addToDeleteSet newDeleteSet 5 10 3)))))), [9])"
proof (rule deleteSet_v1_roundtrip)
  show "wire_ok (addToDeleteSet newDeleteSet 5 10 3)" by code_simp
  show "int (length (e1_rest (snd (writeDeleteSet V1_encoder (Some (addToDeleteSet newDeleteSet 5 10 3))
      \<lparr>e1_rest = []\<rparr>)) @ [9])) \<le> MaxInt" by code_simp
qed simp

text \<open>
  Claim C15. Decoding arbitrary bytes: every range a V2 reader returns has a length of at least one and an end that does
  not exceed the largest integer, every range a V1 reader returns has clock and length between 0
  and 2 ^ 53 - 1; no clock is ever negative.
\<close>

theorem decoded_ranges_bounded:
  assumes "readDeleteSet V2_decoder (newDSDecoderV2 buf) = (Inr ds, d)"
    and "readDeleteSet V1_decoder buf' = (Inr ds', d')"
  shows "list_all v2_range (clientItems ds c) \<and> list_all v1_range (clientItems ds' c)"
  using v2r.readDeleteSet_ok [OF _ assms(1)] v1r.readDeleteSet_ok [OF _ assms(2)]
  by (simp add: list_all_iff newDSDecoderV2_def MaxInt_def)

theorem decoded_ranges_bounded_witness:
  "list_all v2_range (clientItems (addToDeleteSet newDeleteSet 5 10 3) 5) \<and>
   list_all v1_range (clientItems (addToDeleteSet newDeleteSet 5 10 2) 5)"
proof (rule decoded_ranges_bounded)
  show "readDeleteSet V2_decoder (newDSDecoderV2 [1, 5, 1, 10, 2]) =
      (Inr (addToDeleteSet newDeleteSet 5 10 3), \<lparr>d2_rest = [], d2_dsCurrVal = 13\<rparr>)" by code_simp
  show "readDeleteSet V1_decoder [1, 5, 1, 10, 2] = (Inr (addToDeleteSet newDeleteSet 5 10 2), [])" by code_simp
qed

text \<open>
  Writing a delete set in version 2 fails with an error exactly when one of its ranges has a length of zero or
  less; it never writes the wrapped length.
\<close>

theorem v2_refuses_empty_ranges:
  "fst (writeDeleteSet V2_encoder (Some ds) e) =
     (if list_all (\<lambda>c. list_all (\<lambda>d. 0 < di_length d) (clientItems ds c)) (map fst (ds_clients ds))
      then None else Some InvalidDeleteLength)"
proof -
  have "list_all P (rev (sort xs)) = list_all P xs" for P and xs :: "Number list"
    by (simp add: list_all_iff)
  then show ?thesis by (simp add: writeDeleteSet_def v2_writeClients_result Let_def)
qed


end
