(* ===== verification/StructCodec.thy ===== *)
theory StructCodec
  imports JsonText Items DeleteSetCodec
begin

text \<open>
  The struct part of an update in version 1 of the wire format: the field operations of the V1 encoder and decoder
  (\<^verbatim>\<open>crdt/update_encoder.go\<close>, \<^verbatim>\<open>crdt/update_decoder.go\<close>), the writers of the structs and of the nine contents
  (\<^verbatim>\<open>writeStruct\<close>, \<^verbatim>\<open>writeContent\<close>), the grammar that reads them back (\<^verbatim>\<open>structDecoder.decode\<close> in lazy mode), and the
  stream over client blocks with its guards (\<^verbatim>\<open>crdt/struct_decode.go\<close>, \<^verbatim>\<open>crdt/merge.go\<close>).

  A struct that is not in a document is a value. A nested type on the wire is its kind with its name. What
  the code leaves to \<^verbatim>\<open>encoding/json\<close> is a parameter: \<open>jm\<close> marshals a scalar, \<open>uj\<close> parses a document
  (\<^verbatim>\<open>unmarshalJSONOrdered\<close>). A parent that lives in a document is resolved by the parameter \<open>pr\<close> to the key of a root type
  or the id of its item.
\<close>

section \<open>Definitions\<close>

datatype typeDesc = TArray | TMap | TText | TXmlElement gostring | TXmlFragment | TXmlHook gostring | TXmlText

record witem =
  w_id :: ID
  w_origin :: "ID option"
  w_rightOrigin :: "ID option"
  w_parent :: parent
  w_parentSub :: gostring
  w_content :: "typeDesc content"
  w_length :: Number

datatype wire_struct = WItem witem | WGC ID Number | WSkip ID Number

fun ws_id :: "wire_struct \<Rightarrow> ID" where
  "ws_id (WItem i) = w_id i"
| "ws_id (WGC ident len) = ident"
| "ws_id (WSkip ident len) = ident"

fun ws_length :: "wire_struct \<Rightarrow> Number" where
  "ws_length (WItem i) = w_length i"
| "ws_length (WGC ident len) = len"
| "ws_length (WSkip ident len) = len"

subsection \<open>Fields\<close>

definition v1_writeID :: "byte list \<Rightarrow> ID \<Rightarrow> byte list" where
  "v1_writeID buf ident = WriteVarUint (WriteVarUint buf (word_of_int (id_Client ident))) (word_of_int (id_Clock ident))"

definition v1_writeParentInfo :: "byte list \<Rightarrow> bool \<Rightarrow> byte list" where
  "v1_writeParentInfo buf isYKey = WriteVarUint buf (if isYKey then 1 else 0)"

definition v1_writeTypeRef :: "byte list \<Rightarrow> byte \<Rightarrow> byte list" where
  "v1_writeTypeRef buf info = WriteVarUint buf (ucast info)"

definition v1_writeLength :: "byte list \<Rightarrow> Number \<Rightarrow> byte list" where
  "v1_writeLength buf len = WriteVarUint buf (word_of_int len)"

definition null_text :: gostring where "null_text = [110, 117, 108, 108]"
definition true_text :: gostring where "true_text = [116, 114, 117, 101]"
definition false_text :: gostring where "false_text = [102, 97, 108, 115, 101]"
definition keywordUndefined :: gostring where "keywordUndefined = [117, 110, 100, 101, 102, 105, 110, 101, 100]"

definition v1_writeJSONValue :: "(any \<Rightarrow> go_error + gostring) \<Rightarrow> byte list \<Rightarrow> any \<Rightarrow> go_error + byte list" where
  "v1_writeJSONValue jm buf value =
     (case value of
        AUndefined \<Rightarrow> Inr (WriteString buf null_text)
      | ANull \<Rightarrow> Inr (WriteString buf null_text)
      | ABool b \<Rightarrow> Inr (WriteString buf (if b then true_text else false_text))
      | AString s \<Rightarrow> Inr (writeJSONStringJS (WriteVarUint buf (jsonStringJSEncodedLen s)) s)
      | _ \<Rightarrow> (case marshalJSONOrdered jm value of Inl e \<Rightarrow> Inl e | Inr data \<Rightarrow> Inr (WriteString buf data)))"

definition v1_readID :: "ID reader" where
  "v1_readID =
     rbind ReadVarUint (\<lambda>rawClient. rbind (lift_result (toNumber rawClient)) (\<lambda>client.
     rbind ReadVarUint (\<lambda>rawClock. rbind (lift_result (toNumber rawClock)) (\<lambda>clock. rret (GenID client clock)))))"

definition v1_readParentInfo :: "bool reader" where
  "v1_readParentInfo = rbind ReadVarUint (\<lambda>info. rret (info = 1))"

definition v1_readTypeRef :: "byte reader" where
  "v1_readTypeRef = rbind ReadVarUint (\<lambda>ref. rret (ucast ref))"

definition v1_readLength :: "Number reader" where
  "v1_readLength = rbind ReadVarUint (\<lambda>len. lift_result (toNumber len))"

definition v1_readJSONValue :: "(gostring \<Rightarrow> go_error + any) \<Rightarrow> any reader" where
  "v1_readJSONValue uj = rbind ReadString (\<lambda>data. lift_result (uj data))"

subsection \<open>Contents\<close>

fun writeType :: "byte list \<Rightarrow> typeDesc \<Rightarrow> byte list" where
  "writeType buf TArray = v1_writeTypeRef buf 0"
| "writeType buf TMap = v1_writeTypeRef buf 1"
| "writeType buf TText = v1_writeTypeRef buf 2"
| "writeType buf (TXmlElement name) = WriteString (v1_writeTypeRef buf 3) name"
| "writeType buf TXmlFragment = v1_writeTypeRef buf 4"
| "writeType buf (TXmlHook name) = WriteString (v1_writeTypeRef buf 5) name"
| "writeType buf TXmlText = v1_writeTypeRef buf 6"

fun writeJSONElems :: "(any \<Rightarrow> go_error + gostring) \<Rightarrow> any list \<Rightarrow> byte list \<Rightarrow> go_error + byte list" where
  "writeJSONElems jm [] buf = Inr buf"
| "writeJSONElems jm (e # es) buf =
     (if e = AUndefined then writeJSONElems jm es (WriteString buf keywordUndefined)
      else case marshalJSONOrdered jm e of Inl err \<Rightarrow> Inl err | Inr data \<Rightarrow> writeJSONElems jm es (WriteString buf data))"

fun writeContent :: "(any \<Rightarrow> go_error + gostring) \<Rightarrow> byte list \<Rightarrow> typeDesc content \<Rightarrow> Number \<Rightarrow> go_error + byte list" where
  "writeContent jm buf (CDeleted len) offset =
     (if offset > len then Inl OffsetTooLarge else Inr (v1_writeLength buf (len - offset)))"
| "writeContent jm buf (CJSON vs) offset =
     writeJSONElems jm (drop (nat offset) vs) (v1_writeLength buf (int (length vs) - offset))"
| "writeContent jm buf (CBinary b) offset = Inr (WriteVarUint8Array buf b)"
| "writeContent jm buf (CString s) offset = Inr (WriteString buf (if offset = 0 then s else stringTail s offset))"
| "writeContent jm buf (CEmbed v) offset = v1_writeJSONValue jm buf v"
| "writeContent jm buf (CFormat k v) offset = v1_writeJSONValue jm (WriteString buf k) v"
| "writeContent jm buf (CType d) offset = Inr (writeType buf d)"
| "writeContent jm buf (CAny vs) offset =
     (if offset > int (length vs) then Inl OffsetTooLarge
      else Inr (foldl writeAny (v1_writeLength buf (int (length vs) - offset)) (drop (nat offset) vs)))"
| "writeContent jm buf (CDoc guid opts) offset = Inr (writeAny (WriteString buf guid) (AObject opts))"

fun readAnys :: "nat \<Rightarrow> any list \<Rightarrow> any list reader" where
  "readAnys 0 cs = rret cs"
| "readAnys (Suc n) cs = rbind readAny (\<lambda>c. readAnys n (cs @ [c]))"

fun readJSONs :: "(gostring \<Rightarrow> go_error + any) \<Rightarrow> nat \<Rightarrow> any list \<Rightarrow> any list reader" where
  "readJSONs uj 0 cs = rret cs"
| "readJSONs uj (Suc n) cs = rbind ReadString (\<lambda>c.
     if c = keywordUndefined then readJSONs uj n (cs @ [AUndefined])
     else rbind (lift_result (uj c)) (\<lambda>v. readJSONs uj n (cs @ [v])))"

definition readContentType :: "typeDesc reader" where
  "readContentType = rbind v1_readTypeRef (\<lambda>refID.
     if refID \<ge> 7 then rfail TypeRefOutOfRange
     else if refID = 0 then rret TArray
     else if refID = 1 then rret TMap
     else if refID = 2 then rret TText
     else if refID = 3 then rbind ReadString (\<lambda>name. rret (TXmlElement name))
     else if refID = 4 then rret TXmlFragment
     else if refID = 5 then rbind ReadString (\<lambda>name. rret (TXmlHook name))
     else rret TXmlText)"

text \<open>A subdocument is rebuilt from its options and its options are taken from the document again.\<close>

definition optKeyGC :: gostring where "optKeyGC = [103, 99]"
definition optKeyAutoLoad :: gostring where "optKeyAutoLoad = [97, 117, 116, 111, 76, 111, 97, 100]"
definition optKeyMeta :: gostring where "optKeyMeta = [109, 101, 116, 97]"

definition rebuildOpts :: "(gostring \<times> any) list \<Rightarrow> (gostring \<times> any) list" where
  "rebuildOpts opts =
     (let gc = (case map_of opts optKeyGC of Some (ABool b) \<Rightarrow> b | _ \<Rightarrow> True);
          autoLoad = (case map_of opts optKeyAutoLoad of Some (ABool b) \<Rightarrow> b | _ \<Rightarrow> False)
      in (if gc then [] else [(optKeyGC, ABool False)]) @ (if autoLoad then [(optKeyAutoLoad, ABool True)] else []) @
         (case map_of opts optKeyMeta of None \<Rightarrow> [] | Some m \<Rightarrow> [(optKeyMeta, m)]))"

definition readContentDoc :: "typeDesc content reader" where
  "readContentDoc = rbind ReadString (\<lambda>guid. rbind readAny (\<lambda>decoded.
     case decoded of AObject opts \<Rightarrow> rret (CDoc guid (rebuildOpts opts)) | _ \<Rightarrow> rfail OptsNotObject))"

definition readContent :: "(gostring \<Rightarrow> go_error + any) \<Rightarrow> nat \<Rightarrow> typeDesc content reader" where
  "readContent uj refID =
     (if refID = 1 then rbind v1_readLength (\<lambda>len. rret (CDeleted len))
      else if refID = 2 then rbind v1_readLength (\<lambda>len. rbind (readJSONs uj (nat len) []) (\<lambda>cs. rret (CJSON cs)))
      else if refID = 3 then rbind ReadVarUint8Array (\<lambda>b. rret (CBinary b))
      else if refID = 4 then rbind ReadString (\<lambda>s. rret (CString s))
      else if refID = 5 then rbind (v1_readJSONValue uj) (\<lambda>v. rret (CEmbed v))
      else if refID = 6 then rbind ReadString (\<lambda>k. rbind (v1_readJSONValue uj) (\<lambda>v. rret (CFormat k v)))
      else if refID = 7 then rbind readContentType (\<lambda>d. rret (CType d))
      else if refID = 8 then rbind v1_readLength (\<lambda>len. rbind (readAnys (nat len) []) (\<lambda>cs. rret (CAny cs)))
      else if refID = 9 then readContentDoc
      else rfail UnexpectedContent)"

subsection \<open>Structs\<close>

definition bits5 :: byte where "bits5 = 31"
definition bit6 :: byte where "bit6 = 32"
definition bit7 :: byte where "bit7 = 64"
definition bit8 :: byte where "bit8 = 128"

definition structInfo :: "byte \<Rightarrow> ID option \<Rightarrow> ID option \<Rightarrow> gostring \<Rightarrow> byte" where
  "structInfo ref org rightOrg parentSub =
     (let i0 = ref AND bits5;
          i1 = (if org \<noteq> None then i0 OR bit8 else i0);
          i2 = (if rightOrg \<noteq> None then i1 OR bit7 else i1)
      in if parentSub \<noteq> [] then i2 OR bit6 else i2)"

definition writeParent :: "(tid \<Rightarrow> gostring + ID) \<Rightarrow> byte list \<Rightarrow> parent \<Rightarrow> go_error + byte list" where
  "writeParent pr buf par =
     (case par of
        ParentType y \<Rightarrow>
          (case pr y of
             Inl ykey \<Rightarrow> Inr (WriteString (v1_writeParentInfo buf True) ykey)
           | Inr ident \<Rightarrow> Inr (v1_writeID (v1_writeParentInfo buf False) ident))
      | ParentKey str \<Rightarrow> Inr (WriteString (v1_writeParentInfo buf True) str)
      | ParentID ident \<Rightarrow> Inr (v1_writeID (v1_writeParentInfo buf False) ident)
      | NoParent \<Rightarrow> Inl InvalidParent)"

definition writeItem :: "(any \<Rightarrow> go_error + gostring) \<Rightarrow> (tid \<Rightarrow> gostring + ID) \<Rightarrow> byte list \<Rightarrow> witem \<Rightarrow> Number \<Rightarrow> go_error + byte list" where
  "writeItem jm pr buf i offset =
     (let org = (if offset > 0 then Some (GenID (id_Client (w_id i)) (id_Clock (w_id i) + offset - 1)) else w_origin i);
          b0 = buf @ [structInfo (contentRef (w_content i)) org (w_rightOrigin i) (w_parentSub i)];
          b1 = (case org of None \<Rightarrow> b0 | Some ident \<Rightarrow> v1_writeID b0 ident);
          b2 = (case w_rightOrigin i of None \<Rightarrow> b1 | Some ident \<Rightarrow> v1_writeID b1 ident)
      in case (if org = None \<and> w_rightOrigin i = None
               then (case writeParent pr b2 (w_parent i) of
                       Inl e \<Rightarrow> Inl e
                     | Inr b3 \<Rightarrow> Inr (if w_parentSub i \<noteq> [] then WriteString b3 (w_parentSub i) else b3))
               else Inr b2) of
           Inl e \<Rightarrow> Inl e
         | Inr b4 \<Rightarrow> writeContent jm b4 (w_content i) offset)"

fun writeStruct :: "(any \<Rightarrow> go_error + gostring) \<Rightarrow> (tid \<Rightarrow> gostring + ID) \<Rightarrow> byte list \<Rightarrow> wire_struct \<Rightarrow> Number \<Rightarrow> go_error + byte list" where
  "writeStruct jm pr buf (WItem i) offset = writeItem jm pr buf i offset"
| "writeStruct jm pr buf (WGC ident len) offset = Inr (v1_writeLength (buf @ [0]) (len - offset))"
| "writeStruct jm pr buf (WSkip ident len) offset = Inr (WriteVarUint (buf @ [10]) (word_of_int (len - offset)))"

text \<open>The part of a struct from an offset on, as merging and diffing cut it.\<close>

fun sliceStruct :: "wire_struct \<Rightarrow> Number \<Rightarrow> wire_struct option" where
  "sliceStruct (WGC ident len) diff = Some (WGC (GenID (id_Client ident) (id_Clock ident + diff)) (len - diff))"
| "sliceStruct (WSkip ident len) diff = Some (WSkip (GenID (id_Client ident) (id_Clock ident + diff)) (len - diff))"
| "sliceStruct (WItem i) diff =
     (case spliceContentWithLength (w_content i) diff (w_length i) of
        (_, None) \<Rightarrow> None
      | (_, Some rightContent) \<Rightarrow>
          Some (WItem (i\<lparr>w_id := GenID (id_Client (w_id i)) (id_Clock (w_id i) + diff),
            w_origin := Some (GenID (id_Client (w_id i)) (id_Clock (w_id i) + diff - 1)),
            w_content := rightContent, w_length := w_length i - diff\<rparr>)))"

text \<open>The grammar after the info byte: the struct, if it is one, and the clock behind it.\<close>

definition decodeParent :: "parent reader" where
  "decodeParent = rbind v1_readParentInfo (\<lambda>hasParentKey.
     if hasParentKey then rbind ReadString (\<lambda>name. rret (ParentKey name))
     else rbind v1_readID (\<lambda>ident. rret (ParentID ident)))"

definition optional :: "bool \<Rightarrow> 'a reader \<Rightarrow> 'a option reader" where
  "optional b m = (if b then rbind m (\<lambda>v. rret (Some v)) else rret None)"

definition decodeItem :: "(gostring \<Rightarrow> go_error + any) \<Rightarrow> byte \<Rightarrow> Number \<Rightarrow> Number \<Rightarrow> (wire_struct option \<times> Number) reader" where
  "decodeItem uj info client clock =
     (let cantCopyParentInfo = (info AND (bit7 OR bit8) = 0) in
      rbind (optional (info AND bit8 \<noteq> 0) v1_readID) (\<lambda>org.
      rbind (optional (info AND bit7 \<noteq> 0) v1_readID) (\<lambda>rightOrg.
      rbind (if cantCopyParentInfo then decodeParent else rret NoParent) (\<lambda>par.
      rbind (if cantCopyParentInfo \<and> info AND bit6 \<noteq> 0 then ReadString else rret []) (\<lambda>parentSub.
      if unat (info AND bits5) \<ge> 11 then rfail ContentRefOutOfRange
      else rbind (readContent uj (unat (info AND bits5))) (\<lambda>c.
        let len = contentLength c in
        rbind (lift_result (addClock clock len)) (\<lambda>nextClock.
        rret (Some (WItem \<lparr>w_id = GenID client clock, w_origin = org, w_rightOrigin = rightOrg, w_parent = par,
          w_parentSub = parentSub, w_content = normalizeContent c, w_length = len\<rparr>), nextClock))))))))"

definition decode :: "(gostring \<Rightarrow> go_error + any) \<Rightarrow> byte \<Rightarrow> Number \<Rightarrow> Number \<Rightarrow> (wire_struct option \<times> Number) reader" where
  "decode uj info client clock =
     (let refID = info AND bits5 in
      if refID = 0
      then rbind v1_readLength (\<lambda>len.
        if len = 0 then rret (None, clock)
        else rbind (lift_result (addClock clock len)) (\<lambda>nextClock. rret (Some (WGC (GenID client clock) len), nextClock)))
      else if refID = 10
      then rbind readVarUintAsNumber (\<lambda>len.
        rbind (lift_result (addClock clock len)) (\<lambda>nextClock. rret (Some (WSkip (GenID client clock) len), nextClock)))
      else decodeItem uj info client clock)"

subsection \<open>The stream over client blocks\<close>

definition maxYjsClientStructCount :: int where "maxYjsClientStructCount = 2 ^ 32 - 1"
definition maxStallIterations :: nat where "maxStallIterations = 64"
definition maxStructsPerInputByte :: int where "maxStructsPerInputByte = 128"
definition structCountAbsoluteCeiling :: int where "structCountAbsoluteCeiling = 2 ^ 23"
definition structCountCapConst :: int where "structCountCapConst = maxStructsPerInputByte"

definition structCountCap :: "int \<Rightarrow> int" where
  "structCountCap totalInput =
     (if totalInput < 0 then structCountAbsoluteCeiling
      else let proportional = totalInput * maxStructsPerInputByte + structCountCapConst
           in if proportional < structCountAbsoluteCeiling then proportional else structCountAbsoluteCeiling)"

record stream =
  st_buf :: "byte list"
  st_headerRead :: bool
  st_blocksRemaining :: Number
  st_client :: Number
  st_declaredCount :: Number
  st_blockRead :: Number
  st_blockActive :: bool
  st_clock :: Number
  st_stalled :: nat
  st_structsDecoded :: int
  st_structCap :: int
  st_done :: bool
  st_err :: "go_error option"

definition newStructDecodeStream :: "byte list \<Rightarrow> stream" where
  "newStructDecodeStream buf =
     \<lparr>st_buf = buf, st_headerRead = False, st_blocksRemaining = 0, st_client = 0, st_declaredCount = 0, st_blockRead = 0,
      st_blockActive = False, st_clock = 0, st_stalled = 0, st_structsDecoded = 0,
      st_structCap = structCountCap (int (length buf)), st_done = False, st_err = None\<rparr>"

definition stream_fail :: "go_error \<Rightarrow> stream \<Rightarrow> (go_error + 'a) \<times> stream" where
  "stream_fail e s =
     (let e' = (case st_err s of None \<Rightarrow> e | Some old \<Rightarrow> old) in (Inl e', s\<lparr>st_done := True, st_err := Some e'\<rparr>))"

text \<open>A read from the buffer of the stream; its failure ends the stream.\<close>

definition reading :: "'a reader \<Rightarrow> ('a \<Rightarrow> (stream, 'b) fallible) \<Rightarrow> (stream, 'b) fallible" where
  "reading m f s = (case m (st_buf s) of
     (Inl e, b) \<Rightarrow> stream_fail e (s\<lparr>st_buf := b\<rparr>)
   | (Inr v, b) \<Rightarrow> f v (s\<lparr>st_buf := b\<rparr>))"

definition readBlockHeader :: "(stream, bool) fallible" where
  "readBlockHeader =
     reading readVarUintAsNumber (\<lambda>declaredCount.
     if declaredCount > maxYjsClientStructCount then stream_fail ArrayLengthExceeded
     else reading v1_readLength (\<lambda>client.
     reading readVarUintAsNumber (\<lambda>clock s.
     (Inr True, s\<lparr>st_blocksRemaining := st_blocksRemaining s - 1, st_client := client, st_declaredCount := declaredCount,
        st_blockRead := 0, st_blockActive := (declaredCount \<noteq> 0), st_clock := clock, st_stalled := 0\<rparr>))))"

text \<open>\<^verbatim>\<open>NextBlock\<close> under the lenient policy: an update that ends before its header is empty.\<close>

definition NextBlock :: "(stream, bool) fallible" where
  "NextBlock s =
     (case st_err s of
        Some e \<Rightarrow> (Inl e, s)
      | None \<Rightarrow>
          if st_done s then (Inr False, s)
          else if st_blockActive s then stream_fail UnreadBlock s
          else
            let body = (\<lambda>s. if st_blocksRemaining s = 0 then (Inr False, s\<lparr>st_done := True\<rparr>) else readBlockHeader s)
            in if st_headerRead s then body s
               else (case ReadVarUint (st_buf s) of
                       (Inl e, b) \<Rightarrow> (Inr False, s\<lparr>st_buf := b, st_done := True\<rparr>)
                     | (Inr v, b) \<Rightarrow>
                         (case toNumber v of
                            Inl e \<Rightarrow> stream_fail e (s\<lparr>st_buf := b\<rparr>)
                          | Inr n \<Rightarrow> body (s\<lparr>st_buf := b, st_blocksRemaining := n, st_headerRead := True\<rparr>))))"

text \<open>One declared struct of the active block.\<close>

definition NextStruct :: "(gostring \<Rightarrow> go_error + any) \<Rightarrow> (stream, wire_struct option) fallible" where
  "NextStruct uj s =
     (case st_err s of
        Some e \<Rightarrow> (Inl e, s)
      | None \<Rightarrow>
          if \<not> st_blockActive s then (Inr None, s)
          else
            let s1 = s\<lparr>st_structsDecoded := st_structsDecoded s + 1\<rparr>;
                before = length (st_buf s)
            in if st_structsDecoded s1 > st_structCap s1 then stream_fail StructCountExceeded s1
               else reading ReadByte (\<lambda>info.
                 reading (decode uj info (st_client s) (st_clock s)) (\<lambda>(value, nextClock) s2.
                   let s3 = s2\<lparr>st_clock := nextClock, st_blockRead := st_blockRead s2 + 1,
                              st_blockActive := (st_blockRead s2 + 1 \<noteq> st_declaredCount s2)\<rparr>
                   in case value of
                        Some v \<Rightarrow> (Inr (Some v), s3\<lparr>st_stalled := 0\<rparr>)
                      | None \<Rightarrow>
                          if nextClock = st_clock s \<and> length (st_buf s3) \<ge> before
                          then (let s4 = s3\<lparr>st_stalled := st_stalled s3 + 1\<rparr>
                                in if st_stalled s4 \<le> maxStallIterations then (Inr None, s4) else stream_fail DecodeStalled s4)
                          else (Inr None, s3\<lparr>st_stalled := 0\<rparr>))) s1)"

text \<open>\<^verbatim>\<open>lazyStructCursor.Next\<close>, with fuel for the turns of its loop: the next struct or the end.\<close>

primrec cursorNext :: "(gostring \<Rightarrow> go_error + any) \<Rightarrow> nat \<Rightarrow> stream \<Rightarrow> ((go_error + wire_struct option) \<times> stream) option" where
  "cursorNext uj 0 s = None"
| "cursorNext uj (Suc n) s =
     (if st_blockActive s
      then (case NextStruct uj s of
              (Inl e, s') \<Rightarrow> Some (Inl e, s')
            | (Inr (Some v), s') \<Rightarrow> Some (Inr (Some v), s')
            | (Inr None, s') \<Rightarrow> cursorNext uj n s')
      else (case NextBlock s of
              (Inl e, s') \<Rightarrow> Some (Inl e, s')
            | (Inr False, s') \<Rightarrow> Some (Inr None, s')
            | (Inr True, s') \<Rightarrow> cursorNext uj n s'))"

text \<open>
  What the cursor delivers until it ends: the structs in wire order, and the error it stopped at, if any.
\<close>

primrec readStructs :: "(gostring \<Rightarrow> go_error + any) \<Rightarrow> nat \<Rightarrow> nat \<Rightarrow> wire_struct list \<Rightarrow> stream \<Rightarrow>
    (wire_struct list \<times> go_error option \<times> stream) option" where
  "readStructs uj fuel 0 acc s = None"
| "readStructs uj fuel (Suc n) acc s =
     (case cursorNext uj fuel s of
        None \<Rightarrow> None
      | Some (Inl e, s') \<Rightarrow> Some (acc, Some e, s')
      | Some (Inr None, s') \<Rightarrow> Some (acc, None, s')
      | Some (Inr (Some v), s') \<Rightarrow> readStructs uj fuel n (acc @ [v]) s')"

definition turns :: "byte list \<Rightarrow> nat" where
  "turns buf = length buf + 2"

text \<open>
  A reader of the structs of an update (\<^verbatim>\<open>lazyStructReader\<close>): the structs it has still to deliver, \<^verbatim>\<open>curr\<close> first, the error that
  ends it and the bytes it leaves behind. Reading depends on nothing but the update, so what is delivered can be listed at once.
\<close>

record lazyStructReader =
  lr_structs :: "wire_struct list"
  lr_err :: "go_error option"
  lr_buf :: "byte list"

fun isSkip :: "wire_struct \<Rightarrow> bool" where
  "isSkip (WSkip ident len) = True"
| "isSkip _ = False"

definition newLazyStructReader :: "(gostring \<Rightarrow> go_error + any) \<Rightarrow> byte list \<Rightarrow> bool \<Rightarrow> lazyStructReader option" where
  "newLazyStructReader uj update filterSkips =
     (case readStructs uj (turns update) (turns update) [] (newStructDecodeStream update) of
        None \<Rightarrow> None
      | Some (vs, err, s) \<Rightarrow>
          Some \<lparr>lr_structs = (if filterSkips then filter (\<lambda>v. \<not> isSkip v) vs else vs), lr_err = err, lr_buf = st_buf s\<rparr>)"

record decodedUpdate =
  du_structs :: "wire_struct list"
  du_ds :: deleteSet

definition decodeUpdate :: "(gostring \<Rightarrow> go_error + any) \<Rightarrow> byte list \<Rightarrow> (go_error + decodedUpdate) option" where
  "decodeUpdate uj update =
     map_option (\<lambda>lazyDecoder.
       case lr_err lazyDecoder of
         Some e \<Rightarrow> Inl e
       | None \<Rightarrow>
           (case readDeleteSet V1_decoder (lr_buf lazyDecoder) of
              (Inl e, _) \<Rightarrow> Inl e
            | (Inr ds, _) \<Rightarrow> Inr \<lparr>du_structs = lr_structs lazyDecoder, du_ds = ds\<rparr>))
       (newLazyStructReader uj update False)"

end
