(* ===== verification/StructRoundtrip.thy ===== *)
theory StructRoundtrip
  imports StructCodec
begin

text \<open>
  The struct grammar reads back what the struct writers write: every field, every content, every struct. What a
  struct becomes on the wire is \<open>canonStruct\<close>: numbers take their wire type, text is well-formed, a parent that a neighbour
  gives is left out and one that lives in a document is its key or id.
\<close>

section \<open>Fields\<close>

lemma read_fields [roundtrip_simps]:
  "0 \<le> n \<Longrightarrow> n \<le> maxSafeInteger \<Longrightarrow> v1_readLength (WriteVarUint [] (word_of_int n) @ rest) = (Inr n, rest)"
  "v1_readParentInfo (WriteVarUint [] (if b then 1 else 0) @ rest) = (Inr b, rest)"
  "v1_readTypeRef (WriteVarUint [] (ucast (r :: byte)) @ rest) = (Inr r, rest)"
  by (simp_all add: v1_readLength_def v1_readParentInfo_def v1_readTypeRef_def roundtrip_simps ucast_up_ucast_id is_up)

definition id_safe :: "ID \<Rightarrow> bool" where
  "id_safe ident \<longleftrightarrow> 0 \<le> id_Client ident \<and> id_Client ident \<le> maxSafeInteger \<and> 0 \<le> id_Clock ident \<and> id_Clock ident \<le> maxSafeInteger"

lemma v1_writeID_append: "v1_writeID buf ident = buf @ v1_writeID [] ident"
  unfolding v1_writeID_def by (metis WriteVarUint_append append.assoc)

lemma v1_readID_writeID [roundtrip_simps]: "id_safe ident \<Longrightarrow> v1_readID (v1_writeID [] ident @ rest) = (Inr ident, rest)"
  using WriteVarUint_append [of "WriteVarUint [] (word_of_int (id_Client ident))" "word_of_int (id_Clock ident)"]
  by (simp add: v1_readID_def v1_writeID_def id_safe_def roundtrip_simps GenID_def)

lemma v1_writes_append:
  "v1_writeLength buf n = buf @ v1_writeLength [] n" "v1_writeParentInfo buf b = buf @ v1_writeParentInfo [] b"
  "v1_writeTypeRef buf r = buf @ v1_writeTypeRef [] r"
  by (simp_all add: v1_writeLength_def v1_writeParentInfo_def v1_writeTypeRef_def) (metis WriteVarUint_append)+

section \<open>Values as JSON text\<close>

text \<open>The text the V1 encoder writes for a value.\<close>

definition jsonText :: "(any \<Rightarrow> go_error + gostring) \<Rightarrow> any \<Rightarrow> go_error + gostring" where
  "jsonText jm v = (case v of ABool b \<Rightarrow> Inr (if b then true_text else false_text) | _ \<Rightarrow> marshalJSONOrdered jm v)"

lemma v1_writeJSONValue_eq:
  "v1_writeJSONValue jm buf v = (case jsonText jm v of Inl e \<Rightarrow> Inl e | Inr data \<Rightarrow> Inr (WriteString buf data))"
  by (cases v) (simp_all add: v1_writeJSONValue_def jsonText_def marshalJSONOrdered_def null_text_def
    WriteString_eq jsonStringJSEncodedLen_eq writeJSONStringJS_eq len64_def split: sum.splits)

text \<open>A value whose text is parsed to the value again.\<close>

definition reads_back :: "(gostring \<Rightarrow> go_error + any) \<Rightarrow> go_error + gostring \<Rightarrow> any \<Rightarrow> bool" where
  "reads_back uj r v \<longleftrightarrow> (case r of Inl e \<Rightarrow> False | Inr data \<Rightarrow> length data < 2 ^ 64 \<and> data \<noteq> keywordUndefined \<and> uj data = Inr v)"

lemma json_value_roundtrip:
  assumes "reads_back uj (jsonText jm v) v"
  obtains out where "\<And>buf. v1_writeJSONValue jm buf v = Inr (buf @ out)" "\<And>rest. v1_readJSONValue uj (out @ rest) = (Inr v, rest)"
proof -
  from assms obtain data where d: "jsonText jm v = Inr data" "length data < 2 ^ 64" "uj data = Inr v"
    by (auto simp: reads_back_def split: sum.splits)
  show thesis
  proof (rule that [of "WriteString [] data"])
    show "v1_writeJSONValue jm buf v = Inr (buf @ WriteString [] data)" for buf
      unfolding v1_writeJSONValue_eq d(1) using WriteString_append [of buf data] by simp
    show "v1_readJSONValue uj (WriteString [] data @ rest) = (Inr v, rest)" for rest
      using d(2,3) by (simp add: v1_readJSONValue_def roundtrip_simps)
  qed
qed

section \<open>Contents\<close>

fun canonContent :: "typeDesc content \<Rightarrow> typeDesc content" where
  "canonContent (CString s) = CString (normalizeTextUTF8 s)"
| "canonContent (CAny vs) = CAny (map canon vs)"
| "canonContent (CDoc guid opts) = CDoc guid (rebuildOpts (map (\<lambda>kv. (fst kv, canon (snd kv))) opts))"
| "canonContent c = c"

definition any_wire :: "any \<Rightarrow> bool" where
  "any_wire v \<longleftrightarrow> any_ok v \<and> any_depth v \<le> maxAnyDepth"

fun type_wire :: "typeDesc \<Rightarrow> bool" where
  "type_wire (TXmlElement name) \<longleftrightarrow> length name < 2 ^ 64"
| "type_wire (TXmlHook name) \<longleftrightarrow> length name < 2 ^ 64"
| "type_wire _ \<longleftrightarrow> True"

fun encodable :: "(any \<Rightarrow> go_error + gostring) \<Rightarrow> (gostring \<Rightarrow> go_error + any) \<Rightarrow> typeDesc content \<Rightarrow> bool" where
  "encodable jm uj (CDeleted n) \<longleftrightarrow> 0 \<le> n \<and> n \<le> maxSafeInteger"
| "encodable jm uj (CJSON vs) \<longleftrightarrow> int (length vs) \<le> maxSafeInteger \<and>
     list_all (\<lambda>v. v = AUndefined \<or> reads_back uj (marshalJSONOrdered jm v) v) vs"
| "encodable jm uj (CBinary b) \<longleftrightarrow> length b < 2 ^ 64"
| "encodable jm uj (CString s) \<longleftrightarrow> length s < 2 ^ 64"
| "encodable jm uj (CEmbed v) \<longleftrightarrow> reads_back uj (jsonText jm v) v"
| "encodable jm uj (CFormat k v) \<longleftrightarrow> length k < 2 ^ 64 \<and> reads_back uj (jsonText jm v) v"
| "encodable jm uj (CType d) \<longleftrightarrow> type_wire d"
| "encodable jm uj (CAny vs) \<longleftrightarrow> int (length vs) \<le> maxSafeInteger \<and> list_all any_wire vs"
| "encodable jm uj (CDoc guid opts) \<longleftrightarrow> length guid < 2 ^ 64 \<and> any_wire (AObject opts)"

lemma readAnys_roundtrip:
  "list_all any_wire vs \<Longrightarrow> int (length (concat (map (writeAny []) vs) @ rest)) \<le> MaxInt \<Longrightarrow>
    readAnys (length vs) acc (concat (map (writeAny []) vs) @ rest) = (Inr (acc @ map canon vs), rest)"
proof (induction vs arbitrary: acc)
  case (Cons v vs)
  have "readAny (writeAny [] v @ concat (map (writeAny []) vs) @ rest) = (Inr (canon v), concat (map (writeAny []) vs) @ rest)"
    using readAnyDepth_writeAny [of v maxAnyDepth "concat (map (writeAny []) vs) @ rest"] Cons.prems
    by (simp add: readAny_def any_wire_def del: readAnyDepth.simps)
  moreover have "readAnys (length vs) (acc @ [canon v]) (concat (map (writeAny []) vs) @ rest) =
      (Inr ((acc @ [canon v]) @ map canon vs), rest)"
    using Cons.prems by (intro Cons.IH) auto
  ultimately show ?case by simp
qed simp

lemma writeJSONElems_ok:
  assumes "list_all (\<lambda>v. v = AUndefined \<or> reads_back uj (marshalJSONOrdered jm v) v) vs"
  shows "\<exists>out. (\<forall>buf. writeJSONElems jm vs buf = Inr (buf @ out)) \<and>
    (\<forall>acc rest. readJSONs uj (length vs) acc (out @ rest) = (Inr (acc @ vs), rest))"
  using assms
proof (induction vs)
  case (Cons v vs)
  then obtain out where out: "\<And>buf. writeJSONElems jm vs buf = Inr (buf @ out)"
    "\<And>acc rest. readJSONs uj (length vs) acc (out @ rest) = (Inr (acc @ vs), rest)" by auto
  obtain data where d: "length data < 2 ^ 64" "v = AUndefined \<Longrightarrow> data = keywordUndefined"
    "v \<noteq> AUndefined \<Longrightarrow> marshalJSONOrdered jm v = Inr data \<and> data \<noteq> keywordUndefined \<and> uj data = Inr v"
  proof (cases "v = AUndefined")
    case True
    then show ?thesis by (intro that [of keywordUndefined]) (simp_all add: keywordUndefined_def)
  next
    case False
    then obtain data where "marshalJSONOrdered jm v = Inr data" "length data < 2 ^ 64" "data \<noteq> keywordUndefined" "uj data = Inr v"
      using Cons.prems by (auto simp: reads_back_def split: sum.splits)
    then show ?thesis using False by (intro that [of data]) simp_all
  qed
  show ?case
  proof (intro exI [of _ "WriteString [] data @ out"] conjI allI)
    show "writeJSONElems jm (v # vs) buf = Inr (buf @ WriteString [] data @ out)" for buf
      using d out(1) [of "WriteString buf data"] WriteString_append [of buf data] by auto
    show "readJSONs uj (length (v # vs)) acc ((WriteString [] data @ out) @ rest) = (Inr (acc @ v # vs), rest)" for acc rest
      using d(2,3) ReadString_WriteString [OF d(1), of "out @ rest"] by (cases "v = AUndefined") (simp_all add: out(2))
  qed
qed simp

lemma readContentType_writeType:
  assumes "type_wire d"
  shows "writeType buf d = buf @ writeType [] d" "readContentType (writeType [] d @ rest) = (Inr d, rest)"
proof -
  have w: "WriteString (v1_writeTypeRef b r) n = b @ v1_writeTypeRef [] r @ WriteString [] n" for b r n
    by (metis WriteString_append append.assoc v1_writes_append(3))
  show "writeType buf d = buf @ writeType [] d"
    by (cases d) (simp_all add: w [of buf] w [of "[]", simplified], (rule v1_writes_append)+)
  have r: "v1_readTypeRef (v1_writeTypeRef [] t @ b) = (Inr t, b)" for t b
    using read_fields(3) [of t b] by (simp add: v1_writeTypeRef_def)
  show "readContentType (writeType [] d @ rest) = (Inr d, rest)"
    using assms by (cases d) (simp_all add: readContentType_def w [of "[]", simplified] r roundtrip_simps word_le_nat_alt)
qed

text \<open>\<open>carries w c\<close>: the bytes \<open>w\<close> written for the content \<open>c\<close> are read as a content that normalises to the wire form of \<open>c\<close>.\<close>

definition carries :: "(gostring \<Rightarrow> go_error + any) \<Rightarrow> typeDesc content \<Rightarrow> byte list \<Rightarrow> bool" where
  "carries uj c w \<longleftrightarrow> (\<forall>rest. int (length (w @ rest)) \<le> MaxInt \<longrightarrow>
     (\<exists>c'. readContent uj (unat (contentRef c)) (w @ rest) = (Inr c', rest) \<and>
       normalizeContent c' = canonContent c \<and> contentLength c' = contentLength c))"

lemma carriesI:
  "(\<And>rest. int (length (w @ rest)) \<le> MaxInt \<Longrightarrow> readContent uj (unat (contentRef c)) (w @ rest) = (Inr c', rest)) \<Longrightarrow>
   normalizeContent c' = canonContent c \<Longrightarrow> contentLength c' = contentLength c \<Longrightarrow> carries uj c w"
  by (auto simp: carries_def)

lemma WriteString_assoc: "WriteString (buf @ a) s = buf @ WriteString a s"
  by (metis WriteString_append append.assoc)

lemma writeAnys_eq: "foldl writeAny buf vs = buf @ concat (map (writeAny []) vs)"
  by (rule foldl_append) (rule writeAny_append)

lemma content_roundtrip:
  assumes "encodable jm uj c"
  shows "\<exists>out. (\<forall>buf. writeContent jm buf c 0 = Inr (buf @ out)) \<and> carries uj c out"
proof (cases c)
  case (CDeleted n)
  then show ?thesis using assms
    by (intro exI [of _ "v1_writeLength [] n"] conjI allI carriesI [where c' = c])
      (simp_all add: v1_writeLength_def readContent_def roundtrip_simps WriteVarUint_append [symmetric])
next
  case (CJSON vs)
  with assms obtain out where out: "\<And>buf. writeJSONElems jm vs buf = Inr (buf @ out)"
    "\<And>acc rest. readJSONs uj (length vs) acc (out @ rest) = (Inr (acc @ vs), rest)"
    using writeJSONElems_ok [of uj jm vs] by auto
  show ?thesis
  proof (intro exI [of _ "v1_writeLength [] (int (length vs)) @ out"] conjI allI carriesI [where c' = c])
    show "writeContent jm buf c 0 = Inr (buf @ v1_writeLength [] (int (length vs)) @ out)" for buf
      using CJSON out(1) v1_writes_append(1) [of buf "int (length vs)"] by simp
    show "readContent uj (unat (contentRef c)) ((v1_writeLength [] (int (length vs)) @ out) @ rest) = (Inr c, rest)" for rest
      using CJSON assms read_fields(1) [of "int (length vs)" "out @ rest"] out(2) [of "[]" rest]
      by (simp add: v1_writeLength_def readContent_def)
  qed (use CJSON in simp_all)
next
  case (CBinary b)
  then show ?thesis using assms
    by (intro exI [of _ "WriteVarUint8Array [] b"] conjI allI carriesI [where c' = c])
      (simp_all add: readContent_def roundtrip_simps WriteVarUint8Array_append [symmetric])
next
  case (CString s)
  then show ?thesis using assms
    by (intro exI [of _ "WriteString [] s"] conjI allI carriesI [where c' = c])
      (simp_all add: readContent_def roundtrip_simps WriteString_append [symmetric])
next
  case (CEmbed v)
  with assms obtain out where "\<And>buf. v1_writeJSONValue jm buf v = Inr (buf @ out)" "\<And>rest. v1_readJSONValue uj (out @ rest) = (Inr v, rest)"
    using json_value_roundtrip [of uj jm v] by auto
  then show ?thesis using CEmbed
    by (intro exI [of _ out] conjI allI carriesI [where c' = c]) (simp_all add: readContent_def)
next
  case (CFormat k v)
  with assms obtain out where out: "\<And>buf. v1_writeJSONValue jm buf v = Inr (buf @ out)" "\<And>rest. v1_readJSONValue uj (out @ rest) = (Inr v, rest)"
    using json_value_roundtrip [of uj jm v] by auto
  have "writeContent jm buf c 0 = Inr (buf @ WriteString [] k @ out)" for buf
    using CFormat out(1) WriteString_append [of buf k] by simp
  then show ?thesis using CFormat assms out(2)
    by (intro exI [of _ "WriteString [] k @ out"] conjI allI carriesI [where c' = c]) (simp_all add: readContent_def roundtrip_simps)
next
  case (CType d)
  show ?thesis
  proof (intro exI [of _ "writeType [] d"] conjI allI carriesI [where c' = c])
    show "writeContent jm buf c 0 = Inr (buf @ writeType [] d)" for buf
      using CType assms readContentType_writeType(1) [of d buf] by simp
  qed (use CType assms in \<open>simp_all add: readContent_def readContentType_writeType(2)\<close>)
next
  case (CAny vs)
  show ?thesis
  proof (intro exI [of _ "v1_writeLength [] (int (length vs)) @ concat (map (writeAny []) vs)"] conjI allI
      carriesI [where c' = "CAny (map canon vs)"])
    show "writeContent jm buf c 0 = Inr (buf @ v1_writeLength [] (int (length vs)) @ concat (map (writeAny []) vs))" for buf
      using CAny v1_writes_append(1) [of buf "int (length vs)"] by (simp add: writeAnys_eq)
    show "readContent uj (unat (contentRef c)) ((v1_writeLength [] (int (length vs)) @ concat (map (writeAny []) vs)) @ rest) =
        (Inr (CAny (map canon vs)), rest)"
      if "int (length ((v1_writeLength [] (int (length vs)) @ concat (map (writeAny []) vs)) @ rest)) \<le> MaxInt" for rest
      using CAny assms that read_fields(1) [of "int (length vs)" "concat (map (writeAny []) vs) @ rest"] readAnys_roundtrip [of vs rest "[]"]
      by (simp add: v1_writeLength_def readContent_def)
  qed (use CAny in simp_all)
next
  case (CDoc guid opts)
  let ?o = "AObject opts"
  show ?thesis
  proof (intro exI [of _ "WriteString [] guid @ writeAny [] ?o"] conjI allI carriesI [where c' = "canonContent c"])
    show "writeContent jm buf c 0 = Inr (buf @ WriteString [] guid @ writeAny [] ?o)" for buf
      using CDoc writeAny_append [of "WriteString buf guid" ?o] WriteString_append [of buf guid] by simp
    show "readContent uj (unat (contentRef c)) ((WriteString [] guid @ writeAny [] ?o) @ rest) = (Inr (canonContent c), rest)"
      if "int (length ((WriteString [] guid @ writeAny [] ?o) @ rest)) \<le> MaxInt" for rest
      using CDoc assms that readAnyDepth_writeAny [of ?o maxAnyDepth rest]
      by (simp add: readContent_def readContentDoc_def readAny_def any_wire_def roundtrip_simps del: readAnyDepth.simps writeAny.simps any_ok.simps any_depth.simps)
  qed (use CDoc in simp_all)
qed

section \<open>Structs\<close>

definition no_origin :: "witem \<Rightarrow> bool" where
  "no_origin i \<longleftrightarrow> w_origin i = None \<and> w_rightOrigin i = None"

fun canonParent :: "(tid \<Rightarrow> gostring + ID) \<Rightarrow> parent \<Rightarrow> parent" where
  "canonParent pr (ParentType y) = (case pr y of Inl ykey \<Rightarrow> ParentKey ykey | Inr ident \<Rightarrow> ParentID ident)"
| "canonParent pr par = par"

fun parent_wire :: "(tid \<Rightarrow> gostring + ID) \<Rightarrow> parent \<Rightarrow> bool" where
  "parent_wire pr (ParentType y) \<longleftrightarrow> (case pr y of Inl ykey \<Rightarrow> length ykey < 2 ^ 64 | Inr ident \<Rightarrow> id_safe ident)"
| "parent_wire pr (ParentKey s) \<longleftrightarrow> length s < 2 ^ 64"
| "parent_wire pr (ParentID ident) \<longleftrightarrow> id_safe ident"
| "parent_wire pr NoParent \<longleftrightarrow> False"

fun canonStruct :: "(tid \<Rightarrow> gostring + ID) \<Rightarrow> wire_struct \<Rightarrow> wire_struct" where
  "canonStruct pr (WItem i) =
     WItem (i\<lparr>w_parent := (if no_origin i then canonParent pr (w_parent i) else NoParent),
       w_parentSub := (if no_origin i then w_parentSub i else []), w_content := canonContent (w_content i)\<rparr>)"
| "canonStruct pr v = v"

fun struct_encodable :: "(any \<Rightarrow> go_error + gostring) \<Rightarrow> (gostring \<Rightarrow> go_error + any) \<Rightarrow> (tid \<Rightarrow> gostring + ID) \<Rightarrow> wire_struct \<Rightarrow> bool" where
  "struct_encodable jm uj pr (WItem i) \<longleftrightarrow>
     pred_option id_safe (w_origin i) \<and> pred_option id_safe (w_rightOrigin i) \<and> (no_origin i \<longrightarrow> parent_wire pr (w_parent i)) \<and>
     length (w_parentSub i) < 2 ^ 64 \<and> encodable jm uj (w_content i) \<and> w_length i = contentLength (w_content i)"
| "struct_encodable jm uj pr (WGC ident len) \<longleftrightarrow> 0 < len \<and> len \<le> maxSafeInteger"
| "struct_encodable jm uj pr (WSkip ident len) \<longleftrightarrow> 0 \<le> len \<and> len \<le> maxSafeInteger"

lemma structInfo_bits:
  assumes "ref = structInfo (contentRef c) org rightOrg sub"
  shows "ref AND bits5 = contentRef c" "(ref AND bit8 \<noteq> 0) = (org \<noteq> None)" "(ref AND bit7 \<noteq> 0) = (rightOrg \<noteq> None)"
    "(ref AND bit6 \<noteq> 0) = (sub \<noteq> [])" "(ref AND (bit7 OR bit8) = 0) = (org = None \<and> rightOrg = None)"
  unfolding assms structInfo_def bits5_def bit6_def bit7_def bit8_def Let_def
  by (cases c; cases org; cases rightOrg; cases sub; simp)+

lemma contentRef_range: "contentRef c \<noteq> 0" "contentRef c \<noteq> 10" "unat (contentRef c) < 11"
  by (cases c; simp)+

text \<open>The parent of an item without origins.\<close>

lemma parent_roundtrip:
  assumes "parent_wire pr par"
  shows "\<exists>out. (\<forall>buf. writeParent pr buf par = Inr (buf @ out)) \<and> (\<forall>rest. decodeParent (out @ rest) = (Inr (canonParent pr par), rest))"
proof -
  have k: "WriteString (v1_writeParentInfo buf True) s = buf @ v1_writeParentInfo [] True @ WriteString [] s" for buf s
    by (metis WriteString_append append.assoc v1_writes_append(2))
  have i: "v1_writeID (v1_writeParentInfo buf False) ident = buf @ v1_writeParentInfo [] False @ v1_writeID [] ident" for buf ident
    by (metis v1_writeID_append append.assoc v1_writes_append(2))
  have rk: "decodeParent ((v1_writeParentInfo [] True @ WriteString [] s) @ rest) = (Inr (ParentKey s), rest)" if "length s < 2 ^ 64" for s rest
    using that read_fields(2) [of True] by (simp add: decodeParent_def v1_writeParentInfo_def roundtrip_simps)
  have ri: "decodeParent ((v1_writeParentInfo [] False @ v1_writeID [] ident) @ rest) = (Inr (ParentID ident), rest)" if "id_safe ident" for ident rest
    using that read_fields(2) [of False] v1_readID_writeID [of ident rest] by (simp add: decodeParent_def rbind_def v1_writeParentInfo_def)
  show ?thesis
  proof (cases "\<exists>s. canonParent pr par = ParentKey s")
    case True
    then obtain s where s: "canonParent pr par = ParentKey s" by blast
    with assms have "length s < 2 ^ 64" "\<And>buf. writeParent pr buf par = Inr (WriteString (v1_writeParentInfo buf True) s)"
      by (cases par; auto simp: writeParent_def split: sum.splits)+
    then show ?thesis using rk s k by metis
  next
    case False
    then obtain ident where s: "canonParent pr par = ParentID ident" using assms by (cases par; auto split: sum.splits)
    with assms have "id_safe ident" "\<And>buf. writeParent pr buf par = Inr (v1_writeID (v1_writeParentInfo buf False) ident)"
      by (cases par; auto simp: writeParent_def split: sum.splits)+
    then show ?thesis using ri s i by metis
  qed
qed

definition opt_id :: "ID option \<Rightarrow> byte list" where
  "opt_id org = (case org of None \<Rightarrow> [] | Some ident \<Rightarrow> v1_writeID [] ident)"

lemma opt_id_write: "(case org of None \<Rightarrow> buf | Some ident \<Rightarrow> v1_writeID buf ident) = buf @ opt_id org"
  using v1_writeID_append [of buf] by (simp add: opt_id_def split: option.splits)

lemma opt_id_read: "pred_option id_safe org \<Longrightarrow> optional (org \<noteq> None) v1_readID (opt_id org @ rest) = (Inr org, rest)"
  using v1_readID_writeID [of "the org" rest] by (cases org) (simp_all add: optional_def opt_id_def)

lemma parentSub_roundtrip:
  assumes "no_origin i \<longrightarrow> parent_wire pr (w_parent i)" "length (w_parentSub i) < 2 ^ 64"
  obtains out where
    "\<And>buf. (if w_origin i = None \<and> w_rightOrigin i = None
        then (case writeParent pr buf (w_parent i) of
                Inl e \<Rightarrow> Inl e
              | Inr b3 \<Rightarrow> Inr (if w_parentSub i \<noteq> [] then WriteString b3 (w_parentSub i) else b3))
        else Inr buf) = Inr (buf @ out)"
    "\<And>f rest. rbind (if no_origin i then decodeParent else rret NoParent) (\<lambda>par.
       rbind (if no_origin i \<and> w_parentSub i \<noteq> [] then ReadString else rret []) (f par)) (out @ rest) =
       f (if no_origin i then canonParent pr (w_parent i) else NoParent) (if no_origin i then w_parentSub i else []) rest"
proof (cases "no_origin i")
  case True
  with assms(1) obtain p where p: "\<And>buf. writeParent pr buf (w_parent i) = Inr (buf @ p)"
    "\<And>rest. decodeParent (p @ rest) = (Inr (canonParent pr (w_parent i)), rest)" using parent_roundtrip by blast
  show ?thesis
  proof (cases "w_parentSub i = []")
    case sub: True
    then show ?thesis using True p by (intro that [of p]) (simp_all add: no_origin_def)
  next
    case False
    have "WriteString (buf @ p) (w_parentSub i) = buf @ p @ WriteString [] (w_parentSub i)" for buf
      by (metis WriteString_append append.assoc)
    then show ?thesis using True False p assms(2)
      by (intro that [of "p @ WriteString [] (w_parentSub i)"]) (simp_all add: no_origin_def roundtrip_simps)
  qed
next
  case False
  then show ?thesis by (intro that [of "[]"]) (auto simp: no_origin_def)
qed

lemma addClock_ok: "0 \<le> clock \<Longrightarrow> 0 \<le> len \<Longrightarrow> clock + len \<le> MaxInt \<Longrightarrow> addClock clock len = Inr (clock + len)"
  by (auto simp: addClock_def addBounded_def wrap_simps MaxInt_def MinInt_def int64_ok_def)

text \<open>\<open>decodes uj pr v info w\<close>: after the info byte \<open>info\<close> the bytes \<open>w\<close> are decoded to the wire form of \<open>v\<close>.\<close>

definition decodes :: "(gostring \<Rightarrow> go_error + any) \<Rightarrow> (tid \<Rightarrow> gostring + ID) \<Rightarrow> wire_struct \<Rightarrow> byte \<Rightarrow> byte list \<Rightarrow> bool" where
  "decodes uj pr v info w \<longleftrightarrow>
     (\<forall>rest. int (length (w @ rest)) \<le> MaxInt \<longrightarrow> 0 \<le> id_Clock (ws_id v) \<longrightarrow> 0 \<le> ws_length v \<longrightarrow> id_Clock (ws_id v) + ws_length v \<le> MaxInt \<longrightarrow>
        decode uj info (id_Client (ws_id v)) (id_Clock (ws_id v)) (w @ rest) =
          (Inr (Some (canonStruct pr v), id_Clock (ws_id v) + ws_length v), rest))"

lemma item_roundtrip:
  assumes "struct_encodable jm uj pr (WItem i)"
  shows "\<exists>info w. (\<forall>buf. writeItem jm pr buf i 0 = Inr (buf @ info # w)) \<and> decodes uj pr (WItem i) info w"
proof -
  let ?info = "structInfo (contentRef (w_content i)) (w_origin i) (w_rightOrigin i) (w_parentSub i)"
  note bits = structInfo_bits [OF refl, of "w_content i" "w_origin i" "w_rightOrigin i" "w_parentSub i"]
  from assms have a: "pred_option id_safe (w_origin i)" "pred_option id_safe (w_rightOrigin i)"
    "no_origin i \<longrightarrow> parent_wire pr (w_parent i)" "length (w_parentSub i) < 2 ^ 64" "encodable jm uj (w_content i)"
    "w_length i = contentLength (w_content i)" by simp_all
  obtain p where p:
    "\<And>buf. (if w_origin i = None \<and> w_rightOrigin i = None
        then (case writeParent pr buf (w_parent i) of
                Inl e \<Rightarrow> Inl e
              | Inr b3 \<Rightarrow> Inr (if w_parentSub i \<noteq> [] then WriteString b3 (w_parentSub i) else b3))
        else Inr buf) = Inr (buf @ p)"
    "\<And>(f :: parent \<Rightarrow> gostring \<Rightarrow> (wire_struct option \<times> int) reader) rest. rbind (if no_origin i then decodeParent else rret NoParent) (\<lambda>par.
       rbind (if no_origin i \<and> w_parentSub i \<noteq> [] then ReadString else rret []) (f par)) (p @ rest) =
       f (if no_origin i then canonParent pr (w_parent i) else NoParent) (if no_origin i then w_parentSub i else []) rest"
    using parentSub_roundtrip [OF a(3,4)] by blast
  obtain c where c: "\<And>buf. writeContent jm buf (w_content i) 0 = Inr (buf @ c)" "carries uj (w_content i) c"
    using content_roundtrip [OF a(5)] by blast
  let ?w = "opt_id (w_origin i) @ opt_id (w_rightOrigin i) @ p @ c"
  show ?thesis
  proof (intro exI conjI allI)
    show "writeItem jm pr buf i 0 = Inr (buf @ ?info # ?w)" for buf
      unfolding writeItem_def Let_def using p(1) c(1) by (simp add: opt_id_write)
    show "decodes uj pr (WItem i) ?info ?w"
      unfolding decodes_def
    proof (intro allI impI)
      fix rest
      assume "int (length (?w @ rest)) \<le> MaxInt"
        and r: "0 \<le> id_Clock (ws_id (WItem i))" "0 \<le> ws_length (WItem i)" "id_Clock (ws_id (WItem i)) + ws_length (WItem i) \<le> MaxInt"
      then have "int (length (c @ rest)) \<le> MaxInt" by simp
      with c(2) obtain c' where c': "readContent uj (unat (contentRef (w_content i))) (c @ rest) = (Inr c', rest)"
        "normalizeContent c' = canonContent (w_content i)" "contentLength c' = w_length i" using a(6) unfolding carries_def by metis
      have no: "(w_origin i = None \<and> w_rightOrigin i = None) = no_origin i" by (simp add: no_origin_def)
      have o1: "rbind (optional (w_origin i \<noteq> None) v1_readID) f (opt_id (w_origin i) @ b) = f (w_origin i) b"
        and o2: "rbind (optional (w_rightOrigin i \<noteq> None) v1_readID) f (opt_id (w_rightOrigin i) @ b) = f (w_rightOrigin i) b"
        for f :: "ID option \<Rightarrow> (wire_struct option \<times> int) reader" and b
        using opt_id_read [OF a(1), of b] opt_id_read [OF a(2), of b] by (simp_all only: rbind_Inr)
      show "decode uj ?info (id_Client (ws_id (WItem i))) (id_Clock (ws_id (WItem i))) (?w @ rest) =
          (Inr (Some (canonStruct pr (WItem i)), id_Clock (ws_id (WItem i)) + ws_length (WItem i)), rest)"
        unfolding decode_def decodeItem_def Let_def bits no append_assoc o1 o2 p(2) if_not_P [OF contentRef_range(1)] if_not_P [OF contentRef_range(2)]
        using c' addClock_ok [OF r] contentRef_range(3) [of "w_content i"] by (cases i) (simp add: GenID_def no_origin_def)
    qed
  qed
qed

lemma WriteVarUint_assoc: "WriteVarUint (buf @ [b]) v = buf @ b # WriteVarUint [] v"
  using WriteVarUint_append [of "buf @ [b]" v] by simp

lemma struct_roundtrip:
  assumes "struct_encodable jm uj pr v"
  shows "\<exists>info w. (\<forall>buf. writeStruct jm pr buf v 0 = Inr (buf @ info # w)) \<and> decodes uj pr v info w"
proof (cases v)
  case (WItem i)
  then show ?thesis using assms item_roundtrip by simp
next
  case (WGC ident len)
  have "decodes uj pr v 0 (v1_writeLength [] len)"
    unfolding decodes_def using WGC assms read_fields(1) [of len]
    by (auto simp: decode_def v1_writeLength_def addClock_ok bits5_def GenID_def)
  moreover have "writeStruct jm pr buf v 0 = Inr (buf @ 0 # v1_writeLength [] len)" for buf
    using WGC by (simp add: v1_writeLength_def WriteVarUint_assoc)
  ultimately show ?thesis by blast
next
  case (WSkip ident len)
  have "decodes uj pr v 10 (WriteVarUint [] (word_of_int len))"
    unfolding decodes_def using WSkip assms readVarUintAsNumber_WriteVarUint [of len]
    by (auto simp: decode_def addClock_ok bits5_def GenID_def)
  moreover have "writeStruct jm pr buf v 0 = Inr (buf @ 10 # WriteVarUint [] (word_of_int len))" for buf
    using WSkip by (simp add: WriteVarUint_assoc)
  ultimately show ?thesis by blast
qed

section \<open>Writing from an offset\<close>

lemma writeContent_offset:
  assumes "content_ok c" "0 < offset" "offset < contentLength c"
  shows "\<exists>r. snd (spliceContentWithLength c offset (contentLength c)) = Some r \<and> contentRef r = contentRef c \<and>
    writeContent jm buf c offset = writeContent jm buf r 0"
proof (cases c)
  case (CString s)
  with assms have s: "utf8_valid s" "contentLength c = stringLength s" by (simp_all add: contentLength_string del: contentLength.simps(4))
  then have "spliceWithLength s offset (contentLength c) = splitStringUTF16 s offset" using assms(2) by (intro spliceWithLength_eq) auto
  then show ?thesis using CString assms(2) s(2) by (simp add: stringTail_def case_prod_beta)
next
  case (CJSON vs)
  then show ?thesis using assms(2,3) by (simp add: spliceArrayAny_def of_nat_diff)
next
  case (CAny vs)
  then show ?thesis using assms(2,3) by (simp add: spliceArrayAny_def of_nat_diff)
qed (use assms in \<open>simp_all add: Let_def\<close>)

lemma writeStruct_slice:
  assumes "0 < offset" "offset < ws_length v"
    and "\<And>i. v = WItem i \<Longrightarrow> content_ok (w_content i) \<and> w_length i = contentLength (w_content i)"
  shows "\<exists>u. sliceStruct v offset = Some u \<and> id_Clock (ws_id u) = id_Clock (ws_id v) + offset \<and>
    ws_length u = ws_length v - offset \<and> writeStruct jm pr buf v offset = writeStruct jm pr buf u 0"
proof (cases v)
  case (WItem i)
  with assms(3) have i: "content_ok (w_content i)" "w_length i = contentLength (w_content i)" by simp_all
  obtain r where r: "snd (spliceContentWithLength (w_content i) offset (w_length i)) = Some r" "contentRef r = contentRef (w_content i)"
    "\<And>buf. writeContent jm buf (w_content i) offset = writeContent jm buf r 0"
  proof -
    have "writeContent jm buf (w_content i) offset = writeContent jm buf r 0"
      if "snd (spliceContentWithLength (w_content i) offset (w_length i)) = Some r" for r buf
      using writeContent_offset [OF i(1) assms(1), of jm buf] assms(2) WItem i(2) that by auto
    moreover obtain r where "snd (spliceContentWithLength (w_content i) offset (w_length i)) = Some r" "contentRef r = contentRef (w_content i)"
      using writeContent_offset [OF i(1) assms(1)] assms(2) WItem i(2) by auto
    ultimately show ?thesis using that by blast
  qed
  then obtain l where "spliceContentWithLength (w_content i) offset (w_length i) = (l, Some r)" by (metis prod.collapse)
  then show ?thesis using WItem r(2,3) assms(1) by (simp add: writeItem_def GenID_def Let_def)
qed (simp_all add: GenID_def)

section \<open>Properties\<close>

text \<open>
  Claim C9. Sending the part of a struct behind an offset is sending the struct cut at the offset: for an offset inside the struct,
  writing with the offset gives the bytes of the slice that merging makes, the same origin, the same content
  tail, the same remaining length.
\<close>

theorem writeStruct_offset:
  assumes "0 < offset" "offset < ws_length v"
    and "\<And>i. v = WItem i \<Longrightarrow> content_ok (w_content i) \<and> w_length i = contentLength (w_content i)"
  shows "\<exists>u. sliceStruct v offset = Some u \<and> id_Clock (ws_id u) = id_Clock (ws_id v) + offset \<and>
    ws_length u = ws_length v - offset \<and> writeStruct jm pr buf v offset = writeStruct jm pr buf u 0"
  using assms by (rule writeStruct_slice)

theorem writeStruct_offset_witness:
  "\<exists>u. sliceStruct (WItem \<lparr>w_id = GenID 1 4, w_origin = None, w_rightOrigin = None, w_parent = ParentKey [116], w_parentSub = [],
      w_content = CAny [AInt 1, AInt 2, ANull], w_length = 3\<rparr>) 1 = Some u \<and>
    writeStruct (\<lambda>_. Inl InvalidJSON) (\<lambda>_. Inl []) [9] (WItem \<lparr>w_id = GenID 1 4, w_origin = None, w_rightOrigin = None,
      w_parent = ParentKey [116], w_parentSub = [], w_content = CAny [AInt 1, AInt 2, ANull], w_length = 3\<rparr>) 1 =
    writeStruct (\<lambda>_. Inl InvalidJSON) (\<lambda>_. Inl []) [9] u 0"
  using writeStruct_offset [of 1 "WItem \<lparr>w_id = GenID 1 4, w_origin = None, w_rightOrigin = None, w_parent = ParentKey [116],
      w_parentSub = [], w_content = CAny [AInt 1, AInt 2, ANull], w_length = 3\<rparr>" "\<lambda>_. Inl InvalidJSON" "\<lambda>_. Inl []" "[9]"]
  by auto

end
