(* ===== verification/UpdateDecode.thy ===== *)
theory UpdateDecode
  imports StructCodec
begin

text \<open>
  Decoding an update ends on every input: each turn of the cursor's loop consumes a byte, so the fuel of \<open>decodeUpdate\<close>, two more
  turns than the update has bytes, is never used up. What it yields is bounded by the input and by the cap on
  structs, and every clock it hands out stays within the safe integers.
\<close>

section \<open>Readers only consume\<close>

declare consumes_rbind [intro!]

lemma readVarInt_loop_consumes: "\<exists>pre. buf = pre @ snd (readVarInt_loop i sg n s buf)"
proof (induction i sg n s buf rule: readVarInt_loop.induct)
  case (2 i sg n s b buf)
  show ?case
  proof (cases "i < 10 \<and> \<not> b < 0x80")
    case True
    then obtain pre where "buf = pre @ snd (readVarInt_loop (Suc i) sg (n OR push_bit s (ucast (b AND 0x7f))) (s + 7) buf)"
      using 2 by blast
    then show ?thesis using True by (intro exI [of _ "b # pre"]) simp
  qed auto
qed simp

lemma consumes_readVarInt [intro, simp]: "consumes readVarInt"
  unfolding readVarInt_def
proof (rule consumes_rbind)
  fix d :: byte
  show "consumes (let number = d AND 63; sign = if d AND 0x40 > 0 then - 1 else 1
     in if d AND 0x80 = 0 then rret (sign * uint number) else readVarInt_loop 0 sign (ucast number) 6)"
    using consumesI [OF readVarInt_loop_consumes] by (simp add: Let_def)
qed simp

lemma consumes_readVarString [intro, simp]: "consumes readVarString"
  unfolding readVarString_def by (rule consumes_rbind) (auto intro!: consumesI)

lemma consumes_floats [intro, simp]: "consumes readFloat32" "consumes readFloat64" "consumes readBigInt64"
  unfolding readFloat32_def readFloat64_def readBigInt64_def by auto

lemma consumes_readEntries: "consumes rd \<Longrightarrow> consumes (readEntries rd n kvs)"
  by (induction n arbitrary: kvs) auto

lemma consumes_readElems: "consumes rd \<Longrightarrow> consumes (readElems rd n vs)"
  by (induction n arbitrary: vs) auto

lemma consumes_if: "consumes a \<Longrightarrow> consumes b \<Longrightarrow> consumes (\<lambda>s. if P s then a s else b s)"
  by (auto simp: consumes_def)

lemma consumes_pair: "(\<And>s. \<exists>pre. s = pre @ snd (f s)) \<Longrightarrow> consumes f"
  by (rule consumesI)

lemma consumes_const [simp]: "consumes (Pair r)"
  by (simp add: consumes_def)

lemma consumes_readArrayDepth: "consumes rd \<Longrightarrow> consumes (readArrayDepth rd)"
  unfolding readArrayDepth_def
  by (intro consumes_rbind consumes_if consumes_ReadVarUint consumes_const consumes_readElems consumes_rret)

lemma consumes_readAnyDepth: "consumes (readAnyDepth n)"
proof (induction n)
  case (Suc n)
  then show ?case
    by (auto simp: Let_def readObjectDepth_def intro!: consumes_readArrayDepth consumes_readEntries)
qed simp

lemma consumes_readAny [intro, simp]: "consumes readAny"
  by (simp add: readAny_def consumes_readAnyDepth del: readAnyDepth.simps)

lemma consumes_fields [intro, simp]:
  "consumes v1_readID" "consumes v1_readParentInfo" "consumes v1_readTypeRef" "consumes v1_readLength" "consumes (v1_readJSONValue uj)"
  unfolding v1_readID_def v1_readParentInfo_def v1_readTypeRef_def v1_readLength_def v1_readJSONValue_def by auto

lemma consumes_readAnys: "consumes (readAnys n vs)"
  by (induction n arbitrary: vs) auto

lemma consumes_readJSONs: "consumes (readJSONs uj n vs)"
  by (induction n arbitrary: vs) auto

lemma consumes_readContentType: "consumes readContentType"
  unfolding readContentType_def by auto

lemma consumes_readContentDoc: "consumes readContentDoc"
  unfolding readContentDoc_def by (intro consumes_rbind) (auto split: any.splits)

lemma consumes_readContent: "consumes (readContent uj ref)"
  unfolding readContent_def
  by (auto intro!: consumes_readAnys consumes_readJSONs consumes_readContentType consumes_readContentDoc)

lemma consumes_optional: "consumes m \<Longrightarrow> consumes (optional b m)"
  by (auto simp: optional_def)

lemma consumes_decode: "consumes (decode uj info client clock)"
  unfolding decode_def decodeItem_def decodeParent_def Let_def
  by (auto intro!: consumes_optional consumes_readContent)

section \<open>A turn of the cursor\<close>

lemma ReadUvarint_loop_shorter:
  "ReadUvarint_loop i x s buf = (Inr v, b) \<Longrightarrow> length b < length buf"
proof (induction i x s buf rule: ReadUvarint_loop.induct)
  case (2 i x s c buf)
  then show ?case by (fastforce split: if_splits)
qed (auto split: if_splits)

lemma ReadVarUint_shorter: "ReadVarUint buf = (Inr v, b) \<Longrightarrow> length b < length buf"
  unfolding ReadVarUint_def by (rule ReadUvarint_loop_shorter)

lemma ReadByte_shorter: "ReadByte buf = (Inr v, b) \<Longrightarrow> length b < length buf"
  by (auto simp: ReadByte_def split: list.splits)

lemma readVarUintAsNumber_shorter: "readVarUintAsNumber buf = (Inr v, b) \<Longrightarrow> length b < length buf \<and> 0 \<le> v \<and> v \<le> maxSafeInteger"
  unfolding readVarUintAsNumber_def
  by (elim rbind_InrE) (auto dest: ReadVarUint_shorter toNumber_range)

lemma v1_readLength_shorter: "v1_readLength buf = (Inr v, b) \<Longrightarrow> length b < length buf \<and> 0 \<le> v \<and> v \<le> maxSafeInteger"
  unfolding v1_readLength_def
  by (elim rbind_InrE) (auto dest: ReadVarUint_shorter toNumber_range)

lemma addClock_range:
  "addClock clock len = Inr n \<Longrightarrow> 0 \<le> clock \<Longrightarrow> clock \<le> MaxInt \<Longrightarrow> 0 \<le> len \<Longrightarrow> n = clock + len \<and> clock + len \<le> MaxInt"
  by (auto simp: addClock_def addBounded_def wrap_simps MaxInt_def MinInt_def int64_ok_def split: if_splits)

text \<open>
  A struct as the decoder hands it out: the ids it covers are within \<^verbatim>\<open>int64\<close>, the text is well-formed, the length is that of
  the content, and an item that cannot copy its parent from a neighbour names it.
\<close>

definition struct_ok :: "wire_struct \<Rightarrow> bool" where
  "struct_ok v \<longleftrightarrow> 0 \<le> id_Client (ws_id v) \<and> 0 \<le> id_Clock (ws_id v) \<and> 0 \<le> ws_length v \<and>
     id_Clock (ws_id v) + ws_length v \<le> MaxInt \<and>
     (case v of
        WItem i \<Rightarrow> content_ok (w_content i) \<and> w_length i = contentLength (w_content i) \<and>
          (w_origin i = None \<and> w_rightOrigin i = None \<longrightarrow> w_parent i \<noteq> NoParent)
      | WGC ident len \<Rightarrow> len \<noteq> 0
      | WSkip ident len \<Rightarrow> True)"

lemma readContent_nonneg: "readContent uj ref buf = (Inr (CDeleted n), b) \<Longrightarrow> 0 \<le> n"
  by (auto simp: readContent_def readContentDoc_def elim!: rbind_InrE dest: v1_readLength_shorter
      split: if_splits any.splits)

lemma contentLength_normalize: "contentLength (normalizeContent c) = contentLength c"
  by (cases c) (simp_all add: normalizeTextUTF8_def normalize_spec replaceMalformedUTF8_valid)

lemma copies_parent_iff: "info AND (bit7 OR bit8) = 0 \<longleftrightarrow> info AND bit8 = 0 \<and> info AND bit7 = 0"
  by (auto simp: bit.conj_disj_distrib or_eq_0_iff)

lemma optional_Inr: "optional c m buf = (Inr r, b) \<Longrightarrow> (r \<noteq> None) = c"
  by (auto simp: optional_def elim!: rbind_InrE split: if_splits)

lemma decodeParent_Inr: "decodeParent buf = (Inr par, b) \<Longrightarrow> par \<noteq> NoParent"
  by (auto simp: decodeParent_def elim!: rbind_InrE split: if_splits)

lemma normalize_CDeleted: "content_ok (normalizeContent c) \<longleftrightarrow> (\<forall>n. c = CDeleted n \<longrightarrow> 0 \<le> n)"
  by (cases c) (simp_all add: normalizeTextUTF8_def normalize_spec replaceMalformedUTF8_valid)

lemma decodeItem_ok:
  assumes d: "decodeItem uj info client clock buf = (Inr (v, clock'), b)"
    and c: "0 \<le> clock" "clock \<le> MaxInt" "0 \<le> client"
  obtains i where "v = Some (WItem i)" "struct_ok (WItem i)" "w_id i = GenID client clock" "clock' = clock + w_length i" "clock' \<le> MaxInt"
proof -
  from d obtain org b1 rightOrg b2 par b3 sub ct bb b4 where
    o1: "optional (info AND bit8 \<noteq> 0) v1_readID buf = (Inr org, b1)" and
    o2: "optional (info AND bit7 \<noteq> 0) v1_readID b1 = (Inr rightOrg, b2)" and
    p: "(if info AND (bit7 OR bit8) = 0 then decodeParent else rret NoParent) b2 = (Inr par, b3)" and
    ct: "readContent uj (unat (info AND bits5)) b4 = (Inr ct, bb)" and
    cl: "addClock clock (contentLength ct) = Inr clock'" and
    v: "v = Some (WItem \<lparr>w_id = GenID client clock, w_origin = org, w_rightOrigin = rightOrg, w_parent = par,
          w_parentSub = sub, w_content = normalizeContent ct, w_length = contentLength ct\<rparr>)"
    unfolding decodeItem_def Let_def by (elim rbind_InrE) (auto split: if_splits elim!: rbind_InrE)
  have n: "content_ok (normalizeContent ct)" unfolding normalize_CDeleted using ct by (auto dest: readContent_nonneg)
  then have l: "0 \<le> contentLength ct" using contentLength_nonneg contentLength_normalize by metis
  have "org = None \<and> rightOrg = None \<longrightarrow> par \<noteq> NoParent"
    using optional_Inr [OF o1] optional_Inr [OF o2] p decodeParent_Inr by (auto simp: copies_parent_iff split: if_splits)
  with addClock_range [OF cl c(1,2) l] n l c v show ?thesis
    by (intro that) (auto simp: struct_ok_def GenID_def contentLength_normalize)
qed

lemma decode_ok:
  assumes d: "decode uj info client clock buf = (Inr (v, clock'), b)"
    and c: "0 \<le> clock" "clock \<le> MaxInt" "0 \<le> client"
  shows "clock' \<le> MaxInt \<and> (case v of None \<Rightarrow> clock' = clock
    | Some w \<Rightarrow> struct_ok w \<and> ws_id w = GenID client clock \<and> clock' = clock + ws_length w)"
proof -
  consider "info AND bits5 = 0" | "info AND bits5 = 10" | "info AND bits5 \<noteq> 0" "info AND bits5 \<noteq> 10" by blast
  then show ?thesis
  proof cases
    case 3
    with d have "decodeItem uj info client clock buf = (Inr (v, clock'), b)" by (simp add: decode_def)
    then show ?thesis using c by (rule decodeItem_ok) auto
  qed (use d c in \<open>auto simp: decode_def struct_ok_def GenID_def elim!: rbind_InrE split: if_splits
      dest!: v1_readLength_shorter readVarUintAsNumber_shorter addClock_range\<close>)
qed

definition stream_ok :: "stream \<Rightarrow> bool" where
  "stream_ok s \<longleftrightarrow> 0 \<le> st_client s \<and> 0 \<le> st_clock s \<and> st_clock s \<le> MaxInt \<and> st_structsDecoded s \<le> st_structCap s"

lemma reading_InrE:
  assumes "reading m f s = (Inr r, s')"
  obtains v b where "m (st_buf s) = (Inr v, b)" "f v (s\<lparr>st_buf := b\<rparr>) = (Inr r, s')"
  using assms by (auto simp: reading_def stream_fail_def Let_def split: prod.splits sum.splits)

lemma stream_fail_Inr [simp]: "stream_fail e s \<noteq> (Inr r, s')"
  by (simp add: stream_fail_def Let_def)

lemma NextStruct_step:
  assumes n: "NextStruct uj s = (Inr r, s')" and a: "st_blockActive s" and ok: "stream_ok s"
  shows "length (st_buf s') < length (st_buf s)" "stream_ok s'" "st_structCap s' = st_structCap s"
    "st_structsDecoded s' = st_structsDecoded s + 1" "r = Some v \<Longrightarrow> struct_ok v"
proof -
  from n a obtain info b1 w clock' b2 where
    cap: "st_structsDecoded s + 1 \<le> st_structCap s" and
    i: "ReadByte (st_buf s) = (Inr info, b1)" and
    d: "decode uj info (st_client s) (st_clock s) b1 = (Inr (w, clock'), b2)" and
    r: "r = w" and
    s': "st_buf s' = b2" "st_clock s' = clock'" "st_client s' = st_client s" "st_structCap s' = st_structCap s"
      "st_structsDecoded s' = st_structsDecoded s + 1"
    unfolding NextStruct_def Let_def
    by (auto split: option.splits if_splits elim!: reading_InrE)
  have "length b2 < length (st_buf s)"
    using ReadByte_shorter [OF i] consumes_length [OF consumes_decode d] by simp
  moreover have "clock' \<le> MaxInt \<and> (case w of None \<Rightarrow> clock' = st_clock s
    | Some x \<Rightarrow> struct_ok x \<and> ws_id x = GenID (st_client s) (st_clock s) \<and> clock' = st_clock s + ws_length x)"
    using decode_ok [OF d] ok by (simp add: stream_ok_def)
  ultimately show "length (st_buf s') < length (st_buf s)" "stream_ok s'" "st_structCap s' = st_structCap s"
    "st_structsDecoded s' = st_structsDecoded s + 1" "r = Some v \<Longrightarrow> struct_ok v"
    using s' cap ok r by (auto simp: stream_ok_def struct_ok_def split: option.splits)
qed

lemma NextBlock_step:
  assumes n: "NextBlock s = (Inr True, s')" and ok: "stream_ok s"
  shows "length (st_buf s') < length (st_buf s)" "stream_ok s'" "st_structCap s' = st_structCap s"
    "st_structsDecoded s' = st_structsDecoded s"
proof -
  have h: "length (st_buf s') < length (st_buf s) \<and> stream_ok s' \<and> st_structCap s' = st_structCap s \<and> st_structsDecoded s' = st_structsDecoded s"
    if "readBlockHeader s = (Inr True, s')" "stream_ok s" for s
    using that unfolding readBlockHeader_def
    by (auto simp: stream_ok_def maxSafeInteger_def MaxInt_def split: if_splits elim!: reading_InrE
      dest!: v1_readLength_shorter readVarUintAsNumber_shorter)
  show "length (st_buf s') < length (st_buf s)" "stream_ok s'" "st_structCap s' = st_structCap s"
    "st_structsDecoded s' = st_structsDecoded s"
    using n ok by (auto simp: NextBlock_def Let_def stream_ok_def split: option.splits if_splits prod.splits sum.splits
      dest!: ReadVarUint_shorter h)
qed

section \<open>The loops\<close>

lemma cursorNext_total:
  assumes "length (st_buf s) < n" "stream_ok s"
  shows "\<exists>r s'. cursorNext uj n s = Some (r, s') \<and>
    (\<forall>v. r = Inr (Some v) \<longrightarrow> struct_ok v \<and> length (st_buf s') < length (st_buf s) \<and> stream_ok s' \<and>
       st_structCap s' = st_structCap s \<and> st_structsDecoded s < st_structsDecoded s')"
  using assms
proof (induction n arbitrary: s)
  case (Suc n)
  show ?case
  proof (cases "st_blockActive s")
    case True
    obtain r s' where ns: "NextStruct uj s = (r, s')" by fastforce
    show ?thesis
    proof (cases r)
      case (Inr q)
      note step = NextStruct_step [OF ns [unfolded Inr] True Suc.prems(2)]
      show ?thesis
      proof (cases q)
        case None
        have "length (st_buf s') < n" using step(1) Suc.prems(1) by simp
        from Suc.IH [OF this step(2)] show ?thesis using True ns Inr None step by fastforce
      qed (use True ns Inr step in auto)
    qed (use True ns in auto)
  next
    case False
    obtain r s' where nb: "NextBlock s = (r, s')" by fastforce
    show ?thesis
    proof (cases "r = Inr True")
      case True
      note step = NextBlock_step [OF nb [unfolded True] Suc.prems(2)]
      have "length (st_buf s') < n" using step(1) Suc.prems(1) by simp
      from Suc.IH [OF this step(2)] show ?thesis using False nb True step by fastforce
    qed (use False nb in \<open>auto split: sum.splits bool.splits\<close>)
  qed
qed simp

lemma readStructs_total:
  assumes "length (st_buf s) < fuel" "length (st_buf s) < n" "stream_ok s" "list_all struct_ok acc"
  shows "\<exists>vs e s'. readStructs uj fuel n acc s = Some (vs, e, s') \<and>
    list_all struct_ok vs \<and> length vs \<le> length acc + length (st_buf s) \<and> int (length vs) + st_structsDecoded s \<le> int (length acc) + st_structCap s"
  using assms
proof (induction n arbitrary: acc s)
  case (Suc n)
  obtain r s' where c: "cursorNext uj fuel s = Some (r, s')" and
    step: "\<And>v. r = Inr (Some v) \<Longrightarrow> struct_ok v \<and> length (st_buf s') < length (st_buf s) \<and> stream_ok s' \<and>
       st_structCap s' = st_structCap s \<and> st_structsDecoded s < st_structsDecoded s'"
    using cursorNext_total [OF Suc.prems(1,3)] by blast
  show ?case
  proof (cases "\<exists>v. r = Inr (Some v)")
    case True
    then obtain v where v: "r = Inr (Some v)" by blast
    have l: "length (st_buf s') < fuel" "length (st_buf s') < n" "stream_ok s'" "list_all struct_ok (acc @ [v])"
      using step [OF v] Suc.prems by auto
    from Suc.IH [OF l] obtain vs e s2 where r2: "readStructs uj fuel n (acc @ [v]) s' = Some (vs, e, s2)"
      "list_all struct_ok vs \<and> length vs \<le> length (acc @ [v]) + length (st_buf s') \<and>
       int (length vs) + st_structsDecoded s' \<le> int (length (acc @ [v])) + st_structCap s'" by blast
    have "readStructs uj fuel (Suc n) acc s = Some (vs, e, s2)" using c v r2(1) by simp
    then show ?thesis using r2(2) step [OF v] by fastforce
  qed (use c Suc.prems in \<open>auto simp: stream_ok_def split: sum.splits option.splits\<close>)
qed simp

lemma newLazyStructReader_total:
  "\<exists>r. newLazyStructReader uj u filterSkips = Some r \<and> list_all struct_ok (lr_structs r) \<and>
    int (length (lr_structs r)) \<le> min (int (length u)) structCountAbsoluteCeiling"
proof -
  let ?s = "newStructDecodeStream u"
  have cap: "0 \<le> structCountCap (int n)" "structCountCap m \<le> structCountAbsoluteCeiling" for n m
    by (simp_all add: structCountCap_def Let_def maxStructsPerInputByte_def structCountCapConst_def structCountAbsoluteCeiling_def)
  have "length (st_buf ?s) < turns u" "stream_ok ?s" "st_structsDecoded ?s = 0" "st_structCap ?s \<le> structCountAbsoluteCeiling" "st_buf ?s = u"
    using cap by (simp_all add: newStructDecodeStream_def turns_def stream_ok_def MaxInt_def)
  with readStructs_total [of ?s "turns u" "turns u" "[]" uj] obtain vs e s' where
    r: "readStructs uj (turns u) (turns u) [] ?s = Some (vs, e, s')" and
    "list_all struct_ok vs" "int (length vs) \<le> min (int (length u)) structCountAbsoluteCeiling" by fastforce
  moreover have "int (length (filter (\<lambda>v. \<not> isSkip v) vs)) \<le> int (length vs)" by simp
  ultimately have "list_all struct_ok (if filterSkips then filter (\<lambda>v. \<not> isSkip v) vs else vs)"
    "int (length (if filterSkips then filter (\<lambda>v. \<not> isSkip v) vs else vs)) \<le> min (int (length u)) structCountAbsoluteCeiling"
    by (auto simp only: list_all_iff set_filter split: if_splits)
  then show ?thesis using r by (simp add: newLazyStructReader_def)
qed

section \<open>Properties\<close>

text \<open>
  Claim C8. Decoding ends with a result on every input, whatever counts and lengths the bytes announce. When it succeeds, there
  are no more structs than input bytes and no more than the absolute ceiling; every struct covers ids within \<^verbatim>\<open>int64\<close>, has the
  length of its content and well-formed text, and names its parent if no neighbour can give it.
\<close>

theorem decodeUpdate_total:
  "\<exists>r. decodeUpdate uj u = Some r \<and>
    (case r of Inl e \<Rightarrow> True
     | Inr d \<Rightarrow> int (length (du_structs d)) \<le> min (int (length u)) structCountAbsoluteCeiling \<and> list_all struct_ok (du_structs d))"
proof -
  obtain r where r: "newLazyStructReader uj u False = Some r" "list_all struct_ok (lr_structs r)"
    "int (length (lr_structs r)) \<le> min (int (length u)) structCountAbsoluteCeiling" using newLazyStructReader_total by blast
  show ?thesis unfolding decodeUpdate_def r(1) option.map using r(2,3)
    by (auto split: sum.splits prod.splits option.splits)
qed

end
