(* ===== verification/LazyUpdates.thy ===== *)
theory LazyUpdates
  imports StructRoundtrip UpdateDecode
begin

text \<open>
  Working on updates without a document (\<^verbatim>\<open>crdt/updates.go\<close>): the lazy struct writer, which cuts the structs into blocks of one client
  and puts the counts in front at the end, state vectors (\<^verbatim>\<open>crdt/merge.go\<close>), the state vector and the clock ranges of an update, and
  the difference of an update to a state vector, each for version 1 of the format.

  The writer's state is its record; a Go map of clocks is an association list with one entry per client.
\<close>

section \<open>Definitions\<close>

subsection \<open>State vectors\<close>

type_synonym stateVector = "(Number \<times> Number) list"

definition sv_clock :: "stateVector \<Rightarrow> Number \<Rightarrow> Number" where
  "sv_clock sv client = (case map_of sv client of None \<Rightarrow> 0 | Some clock \<Rightarrow> clock)"

fun readStateVector_loop :: "nat \<Rightarrow> stateVector \<Rightarrow> stateVector reader" where
  "readStateVector_loop 0 ss = rret ss"
| "readStateVector_loop (Suc n) ss =
     rbind readVarUintAsNumber (\<lambda>client. rbind readVarUintAsNumber (\<lambda>clock. readStateVector_loop n (AList.update client clock ss)))"

definition readStateVector :: "stateVector reader" where
  "readStateVector = rbind readVarUintAsNumber (\<lambda>ssLength. readStateVector_loop (nat ssLength) [])"

definition decodeStateVector :: "byte list \<Rightarrow> go_error + stateVector" where
  "decodeStateVector decodedState = fst (readStateVector decodedState)"

definition writeStateVector :: "byte list \<Rightarrow> stateVector \<Rightarrow> byte list" where
  "writeStateVector buf sv =
     foldl (\<lambda>b client. WriteVarUint (WriteVarUint b (word_of_int client)) (word_of_int (sv_clock sv client)))
       (WriteVarUint buf (of_nat (length sv))) (rev (sort (map fst sv)))"

subsection \<open>The lazy struct writer\<close>

record positionInfo =
  pi_clock :: Number
  pi_startByte :: nat
  pi_structNo :: nat

record clientStruct =
  cs_written :: nat
  cs_restEncoder :: "byte list"
  cs_positionList :: "positionInfo list"
  cs_client :: Number

record lazyStructWriter =
  lw_currClient :: Number
  lw_written :: nat
  lw_rest :: "byte list"
  lw_clientStructs :: "clientStruct list"
  lw_needRecordPosition :: bool
  lw_positionList :: "positionInfo list"

definition recordPositionUnit :: nat where "recordPositionUnit = 1024"

definition newLazyStructWriter :: lazyStructWriter where
  "newLazyStructWriter =
     \<lparr>lw_currClient = 0, lw_written = 0, lw_rest = [], lw_clientStructs = [], lw_needRecordPosition = False, lw_positionList = []\<rparr>"

definition flushLazyStructWriter :: "lazyStructWriter \<Rightarrow> lazyStructWriter" where
  "flushLazyStructWriter lw =
     (if lw_written lw > 0
      then lw\<lparr>lw_rest := [],
             lw_clientStructs := lw_clientStructs lw @
               [\<lparr>cs_written = lw_written lw, cs_restEncoder = lw_rest lw,
                 cs_positionList = (if lw_needRecordPosition lw then lw_positionList lw else []),
                 cs_client = (if lw_needRecordPosition lw then lw_currClient lw else 0)\<rparr>],
             lw_positionList := (if lw_needRecordPosition lw then [] else lw_positionList lw),
             lw_written := 0\<rparr>
      else lw)"

text \<open>The header of a block, written with its first struct.\<close>

definition startBlock :: "lazyStructWriter \<Rightarrow> wire_struct \<Rightarrow> Number \<Rightarrow> lazyStructWriter" where
  "startBlock lw s offset =
     (let client = id_Client (ws_id s); clock = id_Clock (ws_id s) + offset;
          rest = WriteVarUint (WriteVarUint (lw_rest lw) (word_of_int client)) (word_of_int clock)
      in lw\<lparr>lw_currClient := client, lw_rest := rest,
           lw_positionList := (if lw_needRecordPosition lw
             then lw_positionList lw @ [\<lparr>pi_clock = clock, pi_startByte = length rest, pi_structNo = lw_written lw\<rparr>]
             else lw_positionList lw)\<rparr>)"

definition writeStructToLazyStructWriter ::
  "(any \<Rightarrow> go_error + gostring) \<Rightarrow> (tid \<Rightarrow> gostring + ID) \<Rightarrow> lazyStructWriter \<Rightarrow> wire_struct \<Rightarrow> Number \<Rightarrow> go_error + lazyStructWriter" where
  "writeStructToLazyStructWriter jm pr lw0 s offset =
     (let lw1 = (if lw_written lw0 > 0 \<and> lw_currClient lw0 \<noteq> id_Client (ws_id s) then flushLazyStructWriter lw0 else lw0);
          lw2 = (if lw_written lw1 = 0 then startBlock lw1 s offset else lw1);
          startByte = length (lw_rest lw2)
      in case writeStruct jm pr (lw_rest lw2) s offset of
           Inl e \<Rightarrow> Inl e
         | Inr rest \<Rightarrow>
             let record = (lw_needRecordPosition lw2 \<and> lw_written lw2 > 0 \<and>
                   length rest \<ge> pi_startByte (last (lw_positionList lw2)) + recordPositionUnit)
             in Inr (lw2\<lparr>lw_rest := rest, lw_written := lw_written lw2 + 1,
                  lw_positionList := (if record
                    then lw_positionList lw2 @ [\<lparr>pi_clock = id_Clock (ws_id s) + offset, pi_startByte = startByte, pi_structNo = lw_written lw2\<rparr>]
                    else lw_positionList lw2)\<rparr>))"

definition finishLazyStructWriting :: "lazyStructWriter \<Rightarrow> lazyStructWriter" where
  "finishLazyStructWriting lw0 =
     (let lw = flushLazyStructWriter lw0
      in lw\<lparr>lw_rest := foldl (\<lambda>b part. WriteVarUint b (of_nat (cs_written part)) @ cs_restEncoder part)
             (WriteVarUint (lw_rest lw) (of_nat (length (lw_clientStructs lw)))) (lw_clientStructs lw)\<rparr>)"

text \<open>The end of every utility: the delete set behind the structs.\<close>

definition finishUpdate :: "lazyStructWriter \<Rightarrow> lazyStructReader \<Rightarrow> go_error + byte list" where
  "finishUpdate lw rd =
     (case lr_err rd of
        Some e \<Rightarrow> Inl e
      | None \<Rightarrow>
          (case readDeleteSet V1_decoder (lr_buf rd) of
             (Inl e, _) \<Rightarrow> Inl e
           | (Inr ds, _) \<Rightarrow>
               (case writeDeleteSet V1_encoder (Some ds) \<lparr>e1_rest = lw_rest (finishLazyStructWriting lw)\<rparr> of
                  (Some e, _) \<Rightarrow> Inl e
                | (None, enc) \<Rightarrow> Inr (e1_rest enc))))"

subsection \<open>The difference to a state vector\<close>

definition ws_end :: "wire_struct \<Rightarrow> Number" where
  "ws_end v = id_Clock (ws_id v) + ws_length v"

abbreviation ws_client :: "wire_struct \<Rightarrow> Number" where
  "ws_client v \<equiv> id_Client (ws_id v)"

fun writeAllStructs :: "(any \<Rightarrow> go_error + gostring) \<Rightarrow> (tid \<Rightarrow> gostring + ID) \<Rightarrow> wire_struct list \<Rightarrow> lazyStructWriter \<Rightarrow> go_error + lazyStructWriter" where
  "writeAllStructs jm pr [] lw = Inr lw"
| "writeAllStructs jm pr (v # vs) lw =
     (case writeStructToLazyStructWriter jm pr lw v 0 of Inl e \<Rightarrow> Inl e | Inr lw' \<Rightarrow> writeAllStructs jm pr vs lw')"

function diff_loop :: "(any \<Rightarrow> go_error + gostring) \<Rightarrow> (tid \<Rightarrow> gostring + ID) \<Rightarrow> stateVector \<Rightarrow> wire_struct list \<Rightarrow> lazyStructWriter \<Rightarrow>
    go_error + lazyStructWriter" where
  "diff_loop jm pr state [] lw = Inr lw"
| "diff_loop jm pr state (cur # rest) lw =
     (let currClient = ws_client cur; svClock = sv_clock state currClient
      in if isSkip cur then diff_loop jm pr state rest lw
         else if ws_end cur > svClock
         then (case writeStructToLazyStructWriter jm pr lw cur (max (svClock - id_Clock (ws_id cur)) 0) of
                 Inl e \<Rightarrow> Inl e
               | Inr lw1 \<Rightarrow>
                   (case writeAllStructs jm pr (takeWhile (\<lambda>v. ws_client v = currClient) rest) lw1 of
                      Inl e \<Rightarrow> Inl e
                    | Inr lw2 \<Rightarrow> diff_loop jm pr state (dropWhile (\<lambda>v. ws_client v = currClient) rest) lw2))
         else diff_loop jm pr state (dropWhile (\<lambda>v. ws_client v = currClient \<and> ws_end v \<le> svClock) rest) lw)"
  by pat_completeness auto
termination
  by (relation "measure (\<lambda>(jm, pr, state, vs, lw). length vs)") (auto simp: le_imp_less_Suc length_dropWhile_le)

definition diffUpdate :: "(any \<Rightarrow> go_error + gostring) \<Rightarrow> (gostring \<Rightarrow> go_error + any) \<Rightarrow> (tid \<Rightarrow> gostring + ID) \<Rightarrow> byte list \<Rightarrow> byte list \<Rightarrow>
    (go_error + byte list) option" where
  "diffUpdate jm uj pr update sv0 =
     (let sv = (if sv0 = [] then [0] else sv0)
      in case decodeStateVector sv of
           Inl e \<Rightarrow> Some (Inl e)
         | Inr state \<Rightarrow>
             map_option (\<lambda>rd.
               case diff_loop jm pr state (lr_structs rd) newLazyStructWriter of
                 Inl e \<Rightarrow> Inl e
               | Inr lw \<Rightarrow> finishUpdate lw rd)
               (newLazyStructReader uj update False))"

subsection \<open>What an update contains\<close>

text \<open>The loop of \<^verbatim>\<open>parseUpdateMeta\<close>: the clock ranges of the clients.\<close>

fun meta_loop :: "wire_struct list \<Rightarrow> Number \<Rightarrow> Number \<Rightarrow> stateVector \<Rightarrow> stateVector \<Rightarrow> stateVector \<times> stateVector" where
  "meta_loop [] currClient currClock from to = (from, AList.update currClient currClock to)"
| "meta_loop (cur # vs) currClient currClock from to =
     (if currClient \<noteq> ws_client cur
      then meta_loop vs (ws_client cur) (ws_end cur) (AList.update (ws_client cur) (id_Clock (ws_id cur)) from) (AList.update currClient currClock to)
      else meta_loop vs currClient (ws_end cur) from to)"

definition parseUpdateMeta :: "(gostring \<Rightarrow> go_error + any) \<Rightarrow> byte list \<Rightarrow> (go_error + stateVector \<times> stateVector) option" where
  "parseUpdateMeta uj update =
     map_option (\<lambda>rd.
       let r = (case lr_structs rd of
                  [] \<Rightarrow> ([], [])
                | cur # vs \<Rightarrow> meta_loop (cur # vs) (ws_client cur) (id_Clock (ws_id cur)) [(ws_client cur, id_Clock (ws_id cur))] [])
       in case lr_err rd of Some e \<Rightarrow> Inl e | None \<Rightarrow> Inr r)
       (newLazyStructReader uj update False)"

text \<open>The loop of \<^verbatim>\<open>encodeStateVectorFromUpdate\<close>: how far each client is known without a gap.\<close>

fun svu_loop :: "wire_struct list \<Rightarrow> Number \<Rightarrow> Number \<Rightarrow> bool \<Rightarrow> nat \<Rightarrow> byte list \<Rightarrow> nat \<times> byte list" where
  "svu_loop [] currClient currClock stopCounting sz buf =
     (if currClock \<noteq> 0
      then (sz + 1, WriteVarUint (WriteVarUint buf (word_of_int currClient)) (word_of_int currClock))
      else (sz, buf))"
| "svu_loop (cur # vs) currClient currClock stopCounting sz buf =
     (let (currClient', currClock', stop', sz', buf') =
            (if currClient \<noteq> ws_client cur
             then (if currClock \<noteq> 0
                   then (ws_client cur, 0, id_Clock (ws_id cur) \<noteq> 0, sz + 1,
                         WriteVarUint (WriteVarUint buf (word_of_int currClient)) (word_of_int currClock))
                   else (ws_client cur, 0, id_Clock (ws_id cur) \<noteq> 0, sz, buf))
             else (currClient, currClock, stopCounting, sz, buf));
          stop'' = (if isSkip cur then True else stop')
      in svu_loop vs currClient' (if \<not> stop'' then ws_end cur else currClock') stop'' sz' buf')"

definition encodeStateVectorFromUpdate :: "(gostring \<Rightarrow> go_error + any) \<Rightarrow> byte list \<Rightarrow> (go_error + byte list) option" where
  "encodeStateVectorFromUpdate uj update =
     map_option (\<lambda>rd.
       case lr_structs rd of
         [] \<Rightarrow> (case lr_err rd of Some e \<Rightarrow> Inl e | None \<Rightarrow> Inr (WriteVarUint [] 0))
       | cur # vs \<Rightarrow>
           let stopCounting = (id_Clock (ws_id cur) \<noteq> 0);
               (sz, buf) = svu_loop (cur # vs) (ws_client cur) (if stopCounting then 0 else ws_end cur) stopCounting 0 []
           in case lr_err rd of Some e \<Rightarrow> Inl e | None \<Rightarrow> Inr (WriteVarUint [] (of_nat sz) @ buf))
       (newLazyStructReader uj update False)"

end
