(* ===== verification/UpdateRoundtrip.thy ===== *)
theory UpdateRoundtrip
  imports LazyUpdates
begin

text \<open>
  The lazy struct writer and the decoder are inverse to each other: structs that are written one after the other are delivered
  in the same order by a reader of the finished update, whatever way the writer has cut them into client blocks.
\<close>

section \<open>The blocks of a writer\<close>

definition enc :: "(any \<Rightarrow> go_error + gostring) \<Rightarrow> (tid \<Rightarrow> gostring + ID) \<Rightarrow> wire_struct \<Rightarrow> byte list" where
  "enc jm pr v = projr (writeStruct jm pr [] v 0)"

lemma enc_writes:
  assumes "struct_encodable jm uj pr v"
  shows "writeStruct jm pr buf v 0 = Inr (buf @ enc jm pr v)" "\<exists>info w. enc jm pr v = info # w \<and> decodes uj pr v info w"
proof -
  obtain info w where iw: "\<And>buf. writeStruct jm pr buf v 0 = Inr (buf @ info # w)" "decodes uj pr v info w"
    using struct_roundtrip [OF assms] by blast
  then have "enc jm pr v = info # w" by (simp add: enc_def)
  with iw show "writeStruct jm pr buf v 0 = Inr (buf @ enc jm pr v)" "\<exists>info w. enc jm pr v = info # w \<and> decodes uj pr v info w"
    by auto
qed

definition block_bytes :: "(any \<Rightarrow> go_error + gostring) \<Rightarrow> (tid \<Rightarrow> gostring + ID) \<Rightarrow> wire_struct list \<Rightarrow> byte list" where
  "block_bytes jm pr b =
     WriteVarUint [] (word_of_int (ws_client (hd b))) @ WriteVarUint [] (word_of_int (id_Clock (ws_id (hd b)))) @ concat (map (enc jm pr) b)"

text \<open>The structs a writer holds: the finished blocks and the one it is writing.\<close>

definition holds :: "(any \<Rightarrow> go_error + gostring) \<Rightarrow> (tid \<Rightarrow> gostring + ID) \<Rightarrow> lazyStructWriter \<Rightarrow> wire_struct list list \<Rightarrow> wire_struct list \<Rightarrow> bool" where
  "holds jm pr lw fin cur \<longleftrightarrow>
     map (\<lambda>c. (cs_written c, cs_restEncoder c)) (lw_clientStructs lw) = map (\<lambda>b. (length b, block_bytes jm pr b)) fin \<and>
     lw_written lw = length cur \<and> lw_rest lw = (if cur = [] then [] else block_bytes jm pr cur) \<and>
     (cur \<noteq> [] \<longrightarrow> lw_currClient lw = ws_client (hd cur))"

lemma holds_new: "holds jm pr newLazyStructWriter [] []"
  by (simp add: holds_def newLazyStructWriter_def)

lemma holds_flush: "holds jm pr lw fin cur \<Longrightarrow> holds jm pr (flushLazyStructWriter lw) (fin @ (if cur = [] then [] else [cur])) []"
  by (auto simp: holds_def flushLazyStructWriter_def)

lemma block_bytes_single: "block_bytes jm pr [v] =
    WriteVarUint (WriteVarUint [] (word_of_int (ws_client v))) (word_of_int (id_Clock (ws_id v))) @ enc jm pr v"
  using WriteVarUint_append [of "WriteVarUint [] (word_of_int (ws_client v))"] by (simp add: block_bytes_def)

lemma block_bytes_snoc: "b \<noteq> [] \<Longrightarrow> block_bytes jm pr (b @ [v]) = block_bytes jm pr b @ enc jm pr v"
  by (simp add: block_bytes_def)

definition push :: "wire_struct list list \<times> wire_struct list \<Rightarrow> wire_struct \<Rightarrow> wire_struct list list \<times> wire_struct list" where
  "push st v = (case st of (fin, cur) \<Rightarrow> if cur \<noteq> [] \<and> ws_client (hd cur) \<noteq> ws_client v then (fin @ [cur], [v]) else (fin, cur @ [v]))"

lemma holds_write:
  assumes h: "holds jm pr lw fin cur" and v: "struct_encodable jm uj pr v"
  shows "\<exists>lw'. writeStructToLazyStructWriter jm pr lw v 0 = Inr lw' \<and> holds jm pr lw' (fst (push (fin, cur) v)) (snd (push (fin, cur) v))"
proof -
  note w = enc_writes(1) [OF v]
  have fresh: "\<exists>lw'. writeStructToLazyStructWriter jm pr lw v 0 = Inr lw' \<and> holds jm pr lw' fin [v]" if "holds jm pr lw fin []" for lw fin
    using that by (auto simp: writeStructToLazyStructWriter_def startBlock_def holds_def block_bytes_single w Let_def)
  consider "cur = []" | "cur \<noteq> []" "ws_client (hd cur) = ws_client v" | "cur \<noteq> []" "ws_client (hd cur) \<noteq> ws_client v" by blast
  then show ?thesis
  proof cases
    case 1
    then show ?thesis using fresh h by (simp add: push_def)
  next
    case 2
    then show ?thesis using h
      by (auto simp: writeStructToLazyStructWriter_def holds_def block_bytes_snoc w push_def Let_def)
  next
    case 3
    then have f: "holds jm pr (flushLazyStructWriter lw) (fin @ [cur]) []" using holds_flush [OF h] by simp
    have "writeStructToLazyStructWriter jm pr lw v 0 = writeStructToLazyStructWriter jm pr (flushLazyStructWriter lw) v 0"
      using 3 h by (auto simp: writeStructToLazyStructWriter_def holds_def flushLazyStructWriter_def Let_def)
    with fresh [OF f] 3 show ?thesis by (simp add: push_def)
  qed
qed

lemma holds_writeAll:
  assumes "holds jm pr lw fin cur" "list_all (struct_encodable jm uj pr) vs"
  shows "\<exists>lw'. writeAllStructs jm pr vs lw = Inr lw' \<and> holds jm pr lw' (fst (foldl push (fin, cur) vs)) (snd (foldl push (fin, cur) vs))"
  using assms
proof (induction vs arbitrary: lw fin cur)
  case (Cons v vs)
  then obtain lw' where lw': "writeStructToLazyStructWriter jm pr lw v 0 = Inr lw'"
    "holds jm pr lw' (fst (push (fin, cur) v)) (snd (push (fin, cur) v))" using holds_write by fastforce
  with Cons.IH [OF lw'(2)] Cons.prems(2) show ?case by simp
qed auto

lemma finish_bytes:
  assumes "holds jm pr lw fin cur"
  defines "bs \<equiv> fin @ (if cur = [] then [] else [cur])"
  shows "lw_rest (finishLazyStructWriting lw) =
    WriteVarUint [] (of_nat (length bs)) @ concat (map (\<lambda>b. WriteVarUint [] (of_nat (length b)) @ block_bytes jm pr b) bs)"
proof -
  let ?f = "\<lambda>b part. WriteVarUint b (of_nat (cs_written part)) @ cs_restEncoder part"
  have f: "foldl ?f buf cs =
      buf @ concat (map (\<lambda>(n, r). WriteVarUint [] (of_nat n) @ r) (map (\<lambda>c. (cs_written c, cs_restEncoder c)) cs))" for buf cs
  proof (induction cs arbitrary: buf)
    case (Cons c cs)
    then show ?case using WriteVarUint_append [of buf] by simp
  qed simp
  have m: "map (\<lambda>c. (cs_written c, cs_restEncoder c)) (lw_clientStructs (flushLazyStructWriter lw)) = map (\<lambda>b. (length b, block_bytes jm pr b)) bs"
    and r: "lw_rest (flushLazyStructWriter lw) = []"
    using holds_flush [OF assms(1)] by (simp_all add: holds_def bs_def)
  from m have l: "length (lw_clientStructs (flushLazyStructWriter lw)) = length bs" by (metis length_map)
  have "lw_rest (finishLazyStructWriting lw) =
      foldl ?f (WriteVarUint [] (of_nat (length bs))) (lw_clientStructs (flushLazyStructWriter lw))"
    using r l by (simp add: finishLazyStructWriting_def Let_def)
  also have "\<dots> = WriteVarUint [] (of_nat (length bs)) @
      concat (map (\<lambda>(n, r). WriteVarUint [] (of_nat n) @ r) (map (\<lambda>b. (length b, block_bytes jm pr b)) bs))"
    by (simp only: f m)
  finally show ?thesis by (simp add: comp_def)
qed

text \<open>Blocks have one client and no gap.\<close>

definition follows :: "wire_struct \<Rightarrow> wire_struct \<Rightarrow> bool" where
  "follows v w \<longleftrightarrow> ws_client v = ws_client w \<longrightarrow> id_Clock (ws_id w) = ws_end v"

definition block_ok :: "wire_struct list \<Rightarrow> bool" where
  "block_ok b \<longleftrightarrow> b \<noteq> [] \<and> list_all (\<lambda>v. ws_client v = ws_client (hd b)) b \<and> successively (\<lambda>v w. id_Clock (ws_id w) = ws_end v) b"

lemma push_ok:
  assumes "list_all block_ok fin" "cur = [] \<or> block_ok cur" "successively follows (cur @ [v])"
  shows "list_all block_ok (fst (push (fin, cur) v)) \<and> block_ok (snd (push (fin, cur) v)) \<and>
    concat (fst (push (fin, cur) v)) @ snd (push (fin, cur) v) = concat fin @ cur @ [v] \<and> (\<exists>p. snd (push (fin, cur) v) = p @ [v])"
proof (cases "cur \<noteq> [] \<and> ws_client (hd cur) \<noteq> ws_client v")
  case True
  moreover have "block_ok [v]" by (simp add: block_ok_def)
  ultimately show ?thesis using assms(1,2) by (auto simp: push_def)
next
  case False
  have "block_ok (cur @ [v])"
  proof (cases "cur = []")
    case c: False
    with assms(2) have b: "block_ok cur" by simp
    then have a: "ws_client x = ws_client (hd cur)" if "x \<in> set cur" for x using that unfolding block_ok_def list_all_iff by blast
    have "ws_client (last cur) = ws_client v" using a [OF last_in_set [OF c]] c False by simp
    with assms(3) c have "id_Clock (ws_id v) = ws_end (last cur)" by (simp add: successively_append_iff follows_def)
    with b c False show ?thesis unfolding block_ok_def by (simp add: successively_append_iff)
  qed (simp add: block_ok_def)
  with False assms(1) show ?thesis by (auto simp: push_def)
qed

lemma group_ok:
  assumes "list_all block_ok fin" "cur = [] \<or> block_ok cur" "successively follows (cur @ vs)" "foldl push (fin, cur) vs = (fin', cur')"
  shows "list_all block_ok fin' \<and> (cur' = [] \<or> block_ok cur') \<and> concat fin' @ cur' = concat fin @ cur @ vs"
  using assms
proof (induction vs arbitrary: fin cur)
  case (Cons v vs)
  obtain f1 c1 where fc: "push (fin, cur) v = (f1, c1)" by fastforce
  have "successively follows (cur @ [v])" using Cons.prems(3) by (auto simp: successively_append_iff)
  from push_ok [OF Cons.prems(1,2) this] fc have p: "list_all block_ok f1" "block_ok c1" "concat f1 @ c1 = concat fin @ cur @ [v]" "\<exists>p. c1 = p @ [v]"
    by simp_all
  have "successively follows c1" using p(2) by (auto simp: block_ok_def follows_def elim!: successively_mono)
  then have "successively follows (c1 @ vs)"
    using Cons.prems(3) p(4) by (auto simp: successively_append_iff successively_Cons)
  from Cons.IH [OF p(1) _ this] p(2,3) Cons.prems(4) fc show ?case
    by (simp flip: append_assoc)
qed auto

section \<open>Reading the blocks back\<close>

definition idle :: "stream \<Rightarrow> nat \<Rightarrow> nat \<Rightarrow> byte list \<Rightarrow> bool" where
  "idle s blocks m buf \<longleftrightarrow> st_err s = None \<and> \<not> st_done s \<and> st_headerRead s \<and> \<not> st_blockActive s \<and> st_blocksRemaining s = int blocks \<and>
     st_structsDecoded s + int m \<le> st_structCap s \<and> st_buf s = buf"

definition inBlock :: "stream \<Rightarrow> nat \<Rightarrow> nat \<Rightarrow> wire_struct list \<Rightarrow> byte list \<Rightarrow> bool" where
  "inBlock s blocks m b buf \<longleftrightarrow> st_err s = None \<and> \<not> st_done s \<and> st_headerRead s \<and> st_blockActive s = (b \<noteq> []) \<and> st_blocksRemaining s = int blocks \<and>
     st_structsDecoded s + int (length b) + int m \<le> st_structCap s \<and> st_buf s = buf \<and> st_declaredCount s = st_blockRead s + int (length b) \<and>
     (b \<noteq> [] \<longrightarrow> st_client s = ws_client (hd b) \<and> st_clock s = id_Clock (ws_id (hd b)))"

lemma inBlock_done: "inBlock s blocks m [] buf \<Longrightarrow> idle s blocks m buf"
  by (simp add: inBlock_def idle_def)

definition clock_fits :: "wire_struct \<Rightarrow> bool" where
  "clock_fits v \<longleftrightarrow> id_safe (ws_id v) \<and> 0 \<le> ws_length v \<and> ws_end v \<le> MaxInt"

lemma NextStruct_read:
  assumes s: "inBlock s blocks m (v # b) (enc jm pr v @ rest)" and v: "struct_encodable jm uj pr v" "clock_fits v"
    and b: "block_ok (v # b)" and l: "int (length (enc jm pr v @ rest)) \<le> MaxInt"
  shows "\<exists>s'. NextStruct uj s = (Inr (Some (canonStruct pr v)), s') \<and> inBlock s' blocks m b rest"
proof -
  obtain info w where iw: "enc jm pr v = info # w" "decodes uj pr v info w" using enc_writes(2) [OF v(1)] by blast
  have d: "decode uj info (ws_client v) (id_Clock (ws_id v)) (w @ rest) = (Inr (Some (canonStruct pr v), ws_end v), rest)"
    using iw(2) l v(2) iw(1) unfolding decodes_def clock_fits_def ws_end_def id_safe_def by simp
  have h: "b \<noteq> [] \<Longrightarrow> ws_client (hd b) = ws_client v \<and> id_Clock (ws_id (hd b)) = ws_end v"
    using b by (cases b) (auto simp: block_ok_def)
  show ?thesis using s d h iw(1)
    by (auto simp: NextStruct_def inBlock_def reading_def ReadByte_def Let_def)
qed

lemma block_ok_tl: "block_ok (v # b) \<Longrightarrow> b = [] \<or> block_ok b"
  by (cases b) (auto simp: block_ok_def)

lemma readStructs_block:
  assumes "inBlock s blocks m b (concat (map (enc jm pr) b) @ rest)" "list_all (struct_encodable jm uj pr) b" "list_all clock_fits b"
    "b = [] \<or> block_ok b" "int (length (concat (map (enc jm pr) b) @ rest)) \<le> MaxInt"
  shows "\<exists>s'. readStructs uj (Suc k) (length b + n) acc s = readStructs uj (Suc k) n (acc @ map (canonStruct pr) b) s' \<and> idle s' blocks m rest"
  using assms
proof (induction b arbitrary: s acc)
  case Nil
  then show ?case using inBlock_done by auto
next
  case (Cons v b)
  then have "inBlock s blocks m (v # b) (enc jm pr v @ concat (map (enc jm pr) b) @ rest)" by simp
  from NextStruct_read [OF this, of uj] Cons.prems obtain s' where
    s': "NextStruct uj s = (Inr (Some (canonStruct pr v)), s')" "inBlock s' blocks m b (concat (map (enc jm pr) b) @ rest)" by auto
  have "st_blockActive s" using Cons.prems(1) by (simp add: inBlock_def)
  with s'(1) have "readStructs uj (Suc k) (length (v # b) + n) acc s = readStructs uj (Suc k) (length b + n) (acc @ [canonStruct pr v]) s'"
    by simp
  with Cons.IH [OF s'(2), of "acc @ [canonStruct pr v]"] Cons.prems block_ok_tl show ?case by auto
qed

definition wire_block :: "(any \<Rightarrow> go_error + gostring) \<Rightarrow> (tid \<Rightarrow> gostring + ID) \<Rightarrow> wire_struct list \<Rightarrow> byte list" where
  "wire_block jm pr b = WriteVarUint [] (of_nat (length b)) @ block_bytes jm pr b"

lemma NextBlock_read:
  assumes s: "idle s (Suc blocks) (length b + m) (wire_block jm pr b @ rest)" and b: "block_ok b" "list_all clock_fits b"
    and l: "int (length b) \<le> maxYjsClientStructCount"
  shows "\<exists>s'. NextBlock s = (Inr True, s') \<and> inBlock s' blocks m b (concat (map (enc jm pr) b) @ rest)"
proof -
  obtain v b' where v: "b = v # b'" using b(1) by (cases b) (auto simp: block_ok_def)
  with b(2) have f: "0 \<le> ws_client v" "ws_client v \<le> maxSafeInteger" "0 \<le> id_Clock (ws_id v)" "id_Clock (ws_id v) \<le> maxSafeInteger"
    by (auto simp: clock_fits_def id_safe_def)
  have n: "int (length b) \<le> maxSafeInteger" using l by (simp add: maxYjsClientStructCount_def maxSafeInteger_def)
  have r1: "readVarUintAsNumber (wire_block jm pr b @ rest) = (Inr (int (length b)), block_bytes jm pr b @ rest)"
    using readVarUintAsNumber_WriteVarUint [of "int (length b)"] n by (simp add: wire_block_def)
  have r2: "v1_readLength (block_bytes jm pr b @ rest) =
      (Inr (ws_client v), WriteVarUint [] (word_of_int (id_Clock (ws_id v))) @ concat (map (enc jm pr) b) @ rest)"
    using read_fields(1) [OF f(1,2)] v by (simp add: block_bytes_def)
  note r3 = readVarUintAsNumber_WriteVarUint [OF f(3,4)]
  show ?thesis using s r1 r2 r3 l v
    by (auto simp: NextBlock_def idle_def inBlock_def readBlockHeader_def reading_def Let_def)
qed

lemma readStructs_blocks:
  assumes "idle s (length bs) (length (concat bs)) (concat (map (wire_block jm pr) bs) @ rest)"
    "list_all (struct_encodable jm uj pr) (concat bs)" "list_all clock_fits (concat bs)" "list_all block_ok bs"
    "int (length (concat (map (wire_block jm pr) bs) @ rest)) \<le> MaxInt" "int (length (concat bs)) \<le> maxYjsClientStructCount"
  shows "\<exists>s'. readStructs uj (Suc (Suc k)) (length (concat bs) + Suc n) acc s = Some (acc @ map (canonStruct pr) (concat bs), None, s') \<and>
    st_buf s' = rest"
  using assms
proof (induction bs arbitrary: s acc)
  case Nil
  then show ?case by (auto simp: idle_def NextBlock_def)
next
  case (Cons b bs)
  let ?r = "concat (map (wire_block jm pr) bs) @ rest"
  have i: "idle s (Suc (length bs)) (length b + length (concat bs)) (wire_block jm pr b @ ?r)" using Cons.prems(1) by simp
  from NextBlock_read [OF i] Cons.prems obtain s1 where
    s1: "NextBlock s = (Inr True, s1)" "inBlock s1 (length bs) (length (concat bs)) b (concat (map (enc jm pr) b) @ ?r)" by auto
  have act: "st_blockActive s1" "\<not> st_blockActive s" using s1(2) Cons.prems(1,4) by (auto simp: inBlock_def idle_def block_ok_def)
  obtain v b' where b: "b = v # b'" using Cons.prems(4) by (cases b) (auto simp: block_ok_def)
  have l: "int (length (concat (map (enc jm pr) b) @ ?r)) \<le> MaxInt"
    using Cons.prems(5) by (simp add: wire_block_def [of _ _ b] block_bytes_def [of _ _ b])
  have "inBlock s1 (length bs) (length (concat bs)) (v # b') (enc jm pr v @ concat (map (enc jm pr) b') @ ?r)" using s1(2) b by simp
  from NextStruct_read [OF this, of uj] Cons.prems b l obtain s2 where "NextStruct uj s1 = (Inr (Some (canonStruct pr v)), s2)" by auto
  with s1(1) act have "cursorNext uj (Suc (Suc k)) s = cursorNext uj (Suc (Suc k)) s1" by simp
  then have eq: "readStructs uj (Suc (Suc k)) (Suc j) acc s = readStructs uj (Suc (Suc k)) (Suc j) acc s1" for j
    unfolding readStructs.simps(2) by (rule arg_cong)
  from readStructs_block [OF s1(2), of uj "Suc k" "length (concat bs) + Suc n" acc] Cons.prems l obtain s3 where
    s3: "readStructs uj (Suc (Suc k)) (length b + (length (concat bs) + Suc n)) acc s1 =
      readStructs uj (Suc (Suc k)) (length (concat bs) + Suc n) (acc @ map (canonStruct pr) b) s3" "idle s3 (length bs) (length (concat bs)) ?r"
    by (auto simp del: readStructs.simps)
  have e: "length b + (length (concat bs) + Suc n) = Suc (length b' + (length (concat bs) + Suc n))"
    "length (concat (b # bs)) + Suc n = Suc (length b' + (length (concat bs) + Suc n))" using b by simp_all
  have "readStructs uj (Suc (Suc k)) (length (concat (b # bs)) + Suc n) acc s =
      readStructs uj (Suc (Suc k)) (length (concat bs) + Suc n) (acc @ map (canonStruct pr) b) s3"
    unfolding e(2) eq using s3(1) unfolding e(1) .
  with Cons.IH [OF s3(2), of "acc @ map (canonStruct pr) b"] Cons.prems show ?case by (auto simp del: readStructs.simps)
qed

lemma length_block: "list_all (struct_encodable jm uj pr) b \<Longrightarrow> length b \<le> length (concat (map (enc jm pr) b))"
proof (induction b)
  case (Cons v b)
  then obtain info w where "enc jm pr v = info # w" using enc_writes(2) [of jm uj pr v] by auto
  then show ?case using Cons by simp
qed simp

lemma length_blocks:
  assumes "list_all (struct_encodable jm uj pr) (concat bs)"
  shows "length (concat bs) \<le> length (concat (map (wire_block jm pr) bs))"
  using assms
proof (induction bs)
  case (Cons b bs)
  then have "length b \<le> length (wire_block jm pr b)" using length_block [of jm uj pr b] by (simp add: wire_block_def block_bytes_def)
  then show ?case using Cons by simp
qed simp

lemma reader_of_blocks:
  fixes rest :: "byte list"
  assumes e: "list_all (struct_encodable jm uj pr) (concat bs)" "list_all clock_fits (concat bs)" "list_all block_ok bs"
    and c: "int (length (concat bs)) \<le> structCountAbsoluteCeiling"
  defines "u \<equiv> WriteVarUint [] (of_nat (length bs)) @ concat (map (wire_block jm pr) bs) @ rest"
  assumes l: "int (length u) \<le> MaxInt"
  shows "newLazyStructReader uj u False = Some \<lparr>lr_structs = map (canonStruct pr) (concat bs), lr_err = None, lr_buf = rest\<rparr>"
proof -
  let ?s = "newStructDecodeStream u" and ?r = "concat (map (wire_block jm pr) bs) @ rest"
  let ?s1 = "?s\<lparr>st_buf := ?r, st_blocksRemaining := int (length bs), st_headerRead := True\<rparr>"
  have "length bs \<le> length (concat bs)" using e(3)
  proof (induction bs)
    case (Cons b bs)
    then have "1 \<le> length b" by (simp add: block_ok_def Suc_le_eq)
    with Cons show ?case by simp
  qed simp
  then have nb: "int (length bs) \<le> maxSafeInteger" using c by (simp add: structCountAbsoluteCeiling_def maxSafeInteger_def)
  have cap: "int (length (concat bs)) \<le> structCountCap (int (length u))"
    using length_blocks [OF e(1)] c by (auto simp: structCountCap_def Let_def u_def maxStructsPerInputByte_def structCountCapConst_def)
  have h: "readVarUintAsNumber u = (Inr (int (length bs)), ?r)"
    using readVarUintAsNumber_WriteVarUint [of "int (length bs)" ?r] nb by (simp add: u_def)
  have "NextBlock ?s = NextBlock ?s1"
    using h by (auto simp: NextBlock_def newStructDecodeStream_def readVarUintAsNumber_def rbind_def Let_def split: prod.splits sum.splits)
  moreover have na: "\<not> st_blockActive ?s" "\<not> st_blockActive ?s1" by (simp_all add: newStructDecodeStream_def)
  ultimately have "cursorNext uj (Suc k) ?s = cursorNext uj (Suc k) ?s1" for k by simp
  then have eq: "readStructs uj (Suc k) (Suc j) [] ?s = readStructs uj (Suc k) (Suc j) [] ?s1" for k j
    unfolding readStructs.simps(2) by (rule arg_cong)
  have i: "idle ?s1 (length bs) (length (concat bs)) ?r" using cap by (simp add: idle_def newStructDecodeStream_def)
  have l': "int (length ?r) \<le> MaxInt" using l by (simp add: u_def)
  have y: "int (length (concat bs)) \<le> maxYjsClientStructCount" using c by (simp add: structCountAbsoluteCeiling_def maxYjsClientStructCount_def)
  obtain n where n: "turns u = length (concat bs) + Suc n"
    using length_blocks [OF e(1)] by (intro that [of "length u + 1 - length (concat bs)"]) (simp add: turns_def u_def)
  obtain j where j: "turns u = Suc (Suc j)" by (simp add: turns_def)
  obtain s' where s': "readStructs uj (turns u) (turns u) [] ?s1 = Some ([] @ map (canonStruct pr) (concat bs), None, s')" "st_buf s' = rest"
    using readStructs_blocks [OF i e(1,2,3) l' y, of j n "[]"] unfolding n [symmetric] j [symmetric] by blast
  have "readStructs uj (turns u) (turns u) [] ?s = readStructs uj (turns u) (turns u) [] ?s1" using eq unfolding j .
  with s' show ?thesis by (simp add: newLazyStructReader_def)
qed

text \<open>A reader of a finished update delivers what was written.\<close>

lemma reader_of_writer:
  assumes "list_all (struct_encodable jm uj pr) vs" "list_all clock_fits vs" "successively follows vs" "int (length vs) \<le> structCountAbsoluteCeiling"
  shows "\<exists>lw. writeAllStructs jm pr vs newLazyStructWriter = Inr lw \<and>
    (\<forall>rest. int (length (lw_rest (finishLazyStructWriting lw) @ rest)) \<le> MaxInt \<longrightarrow>
      newLazyStructReader uj (lw_rest (finishLazyStructWriting lw) @ rest) False =
        Some \<lparr>lr_structs = map (canonStruct pr) vs, lr_err = None, lr_buf = rest\<rparr>)"
proof -
  obtain fin cur where fc: "foldl push ([], []) vs = (fin, cur)" by fastforce
  obtain lw where lw: "writeAllStructs jm pr vs newLazyStructWriter = Inr lw" "holds jm pr lw fin cur"
    using holds_writeAll [OF holds_new assms(1)] fc by auto
  let ?bs = "fin @ (if cur = [] then [] else [cur])"
  have g: "list_all block_ok fin" "cur = [] \<or> block_ok cur" "concat fin @ cur = vs"
    using group_ok [OF _ _ _ fc] assms(3) by auto
  then have bs: "concat ?bs = vs" "list_all block_ok ?bs" by auto
  have "lw_rest (finishLazyStructWriting lw) = WriteVarUint [] (of_nat (length ?bs)) @ concat (map (wire_block jm pr) ?bs)"
    using finish_bytes [OF lw(2)] by (simp add: wire_block_def [abs_def])
  with reader_of_blocks [of jm uj pr ?bs] assms bs lw(1) show ?thesis by auto
qed

section \<open>Properties\<close>

lemma deleteSet_appended:
  assumes "wire_ok ds"
  shows "\<exists>e out. writeDeleteSet V1_encoder (Some ds) \<lparr>e1_rest = b\<rparr> = (None, e) \<and> e1_rest e = b @ out \<and>
    (int (length out) \<le> MaxInt \<longrightarrow> (\<exists>ds'. readDeleteSet V1_decoder out = (Inr ds', []) \<and> clientItems ds' = clientItems ds))"
proof -
  have "distinct (map fst (ds_clients ds))" "int (length (ds_clients ds)) \<le> MaxInt"
    using assms by (simp_all add: DeleteSetCodec.wire_ok_def)
  from v1.deleteSet_roundtrip [OF this v1_client_ok [OF assms], of "\<lparr>e1_rest = b\<rparr>"] obtain e out where
    w: "writeDeleteSet V1_encoder (Some ds) \<lparr>e1_rest = b\<rparr> = (None, e)" "de_rest V1_encoder e = de_rest V1_encoder \<lparr>e1_rest = b\<rparr> @ out" and
    r: "\<And>d t. dd_rest V1_decoder d = out @ t \<Longrightarrow> int (length (out @ t)) \<le> MaxInt \<Longrightarrow>
      (\<exists>d2 ds'. readDeleteSetOrdered V1_decoder d = (Inr (map (v1.block ds) (descending ds)), d2) \<and>
        readDeleteSet V1_decoder d = (Inr ds', d2) \<and> dd_rest V1_decoder d2 = t \<and> clientItems ds' = clientItems ds)"
    by blast
  from r [of out "[]"] w show ?thesis by (auto simp: V1_encoder_def V1_decoder_def)
qed

text \<open>
  Claim C7. Updates survive the wire: structs written one by one with the lazy writer, with the delete set behind them, are
  decoded to the same structs in the same order, in wire form, and to a delete set with the same ranges, provided
  neighbours of the same client leave no gap. The writer decides on its own where client blocks begin and what
  counts stand in front of them.
\<close>

theorem update_roundtrip:
  assumes "list_all (struct_encodable jm uj pr) vs" "list_all clock_fits vs" "successively follows vs"
    "int (length vs) \<le> structCountAbsoluteCeiling" "wire_ok ds"
  shows "\<exists>lw e. writeAllStructs jm pr vs newLazyStructWriter = Inr lw \<and>
    writeDeleteSet V1_encoder (Some ds) \<lparr>e1_rest = lw_rest (finishLazyStructWriting lw)\<rparr> = (None, e) \<and>
    (int (length (e1_rest e)) \<le> MaxInt \<longrightarrow>
      (\<exists>d. decodeUpdate uj (e1_rest e) = Some (Inr d) \<and> du_structs d = map (canonStruct pr) vs \<and> clientItems (du_ds d) = clientItems ds))"
proof -
  obtain lw where lw: "writeAllStructs jm pr vs newLazyStructWriter = Inr lw"
    "\<And>rest. int (length (lw_rest (finishLazyStructWriting lw) @ rest)) \<le> MaxInt \<Longrightarrow>
      newLazyStructReader uj (lw_rest (finishLazyStructWriting lw) @ rest) False =
        Some \<lparr>lr_structs = map (canonStruct pr) vs, lr_err = None, lr_buf = rest\<rparr>"
    using reader_of_writer [OF assms(1-4)] by blast
  obtain e out where e: "writeDeleteSet V1_encoder (Some ds) \<lparr>e1_rest = lw_rest (finishLazyStructWriting lw)\<rparr> = (None, e)"
    "e1_rest e = lw_rest (finishLazyStructWriting lw) @ out"
    "int (length out) \<le> MaxInt \<longrightarrow> (\<exists>ds'. readDeleteSet V1_decoder out = (Inr ds', []) \<and> clientItems ds' = clientItems ds)"
    using deleteSet_appended [OF assms(5)] by blast
  show ?thesis
  proof (intro exI [of _ lw] exI [of _ e] conjI impI)
    assume l: "int (length (e1_rest e)) \<le> MaxInt"
    with e(2,3) obtain ds' where "readDeleteSet V1_decoder out = (Inr ds', [])" "clientItems ds' = clientItems ds" by auto
    then show "\<exists>d. decodeUpdate uj (e1_rest e) = Some (Inr d) \<and> du_structs d = map (canonStruct pr) vs \<and> clientItems (du_ds d) = clientItems ds"
      using lw(2) [of out] l e(2) by (simp add: decodeUpdate_def)
  qed (use lw e in auto)
qed

definition example_item :: "Number \<Rightarrow> ID option \<Rightarrow> typeDesc content \<Rightarrow> wire_struct" where
  "example_item clock org c =
     WItem \<lparr>w_id = GenID 7 clock, w_origin = org, w_rightOrigin = None, w_parent = ParentKey [116], w_parentSub = [],
       w_content = c, w_length = contentLength c\<rparr>"

theorem update_roundtrip_witness:
  "\<exists>lw e d. writeAllStructs (\<lambda>_. Inl InvalidJSON) (\<lambda>_. Inl [])
      [example_item 0 None (CString [104, 105]), example_item 2 (Some (GenID 7 1)) (CEmbed ANull), WGC (GenID 3 4) 5] newLazyStructWriter = Inr lw \<and>
    writeDeleteSet V1_encoder (Some (addToDeleteSet newDeleteSet 5 10 3)) \<lparr>e1_rest = lw_rest (finishLazyStructWriting lw)\<rparr> = (None, e) \<and>
    decodeUpdate (\<lambda>s. if s = null_text then Inr ANull else Inl InvalidJSON) (e1_rest e) = Some (Inr d) \<and>
    du_structs d = map (canonStruct (\<lambda>_. Inl []))
      [example_item 0 None (CString [104, 105]), example_item 2 (Some (GenID 7 1)) (CEmbed ANull), WGC (GenID 3 4) 5]"
proof -
  let ?jm = "\<lambda>_ :: any. Inl InvalidJSON :: go_error + gostring" and ?pr = "\<lambda>_ :: tid. Inl [] :: gostring + ID"
  let ?uj = "\<lambda>s. if s = null_text then Inr ANull else Inl InvalidJSON"
  let ?vs = "[example_item 0 None (CString [104, 105]), example_item 2 (Some (GenID 7 1)) (CEmbed ANull), WGC (GenID 3 4) 5]"
  have "contentLength (CString [104, 105] :: typeDesc content) = 2" by code_simp
  then have "list_all (struct_encodable ?jm ?uj ?pr) ?vs" "list_all clock_fits ?vs" "successively follows ?vs"
    by (simp_all add: example_item_def no_origin_def clock_fits_def id_safe_def ws_end_def follows_def GenID_def maxSafeInteger_def MaxInt_def
      reads_back_def jsonText_def marshalJSONOrdered_def null_text_def keywordUndefined_def del: contentLength.simps(4))
  moreover have "int (length ?vs) \<le> structCountAbsoluteCeiling" by (simp add: structCountAbsoluteCeiling_def)
  moreover have "wire_ok (addToDeleteSet newDeleteSet 5 10 3)" by code_simp
  ultimately obtain lw e where *: "writeAllStructs ?jm ?pr ?vs newLazyStructWriter = Inr lw"
    "writeDeleteSet V1_encoder (Some (addToDeleteSet newDeleteSet 5 10 3)) \<lparr>e1_rest = lw_rest (finishLazyStructWriting lw)\<rparr> = (None, e)"
    "int (length (e1_rest e)) \<le> MaxInt \<longrightarrow> (\<exists>d. decodeUpdate ?uj (e1_rest e) = Some (Inr d) \<and> du_structs d = map (canonStruct ?pr) ?vs)"
    using update_roundtrip [of ?jm ?uj ?pr ?vs "addToDeleteSet newDeleteSet 5 10 3"] by blast
  have "map_option (\<lambda>lw. length (e1_rest (snd (writeDeleteSet V1_encoder (Some (addToDeleteSet newDeleteSet 5 10 3))
      \<lparr>e1_rest = lw_rest (finishLazyStructWriting lw)\<rparr>)))) (case writeAllStructs ?jm ?pr ?vs newLazyStructWriter of Inl _ \<Rightarrow> None | Inr l \<Rightarrow> Some l) = Some 29"
    by code_simp
  with *(1,2) have "length (e1_rest e) = 29" by simp
  with * show ?thesis by (auto simp: MaxInt_def)
qed

end
