(* ===== verification/UpdateDiff.thy ===== *)
theory UpdateDiff
  imports UpdateRoundtrip
begin

text \<open>
  \<^verbatim>\<open>DiffUpdate\<close> against its specification: the difference of an update to a state vector holds exactly the operations that the
  owner of the state vector lacks, and is again an update that can be decoded.
\<close>

section \<open>The structs of a difference\<close>

definition cutTo :: "Number \<Rightarrow> wire_struct \<Rightarrow> wire_struct" where
  "cutTo clock v = (if id_Clock (ws_id v) < clock then (case sliceStruct v (clock - id_Clock (ws_id v)) of None \<Rightarrow> v | Some u \<Rightarrow> u) else v)"

function diffStructs :: "stateVector \<Rightarrow> wire_struct list \<Rightarrow> wire_struct list" where
  "diffStructs sv [] = []"
| "diffStructs sv (v # vs) =
     (if isSkip v \<or> ws_end v \<le> sv_clock sv (ws_client v) then diffStructs sv vs
      else cutTo (sv_clock sv (ws_client v)) v # takeWhile (\<lambda>w. ws_client w = ws_client v) vs @
        diffStructs sv (dropWhile (\<lambda>w. ws_client w = ws_client v) vs))"
  by pat_completeness auto
termination
  by (relation "measure (\<lambda>(sv, vs). length vs)") (auto simp: le_imp_less_Suc length_dropWhile_le)

definition sliceable :: "wire_struct \<Rightarrow> bool" where
  "sliceable v \<longleftrightarrow> 0 \<le> ws_length v \<and> (\<forall>i. v = WItem i \<longrightarrow> content_ok (w_content i) \<and> w_length i = contentLength (w_content i))"

lemma struct_ok_sliceable: "struct_ok v \<Longrightarrow> sliceable v"
  by (auto simp: struct_ok_def sliceable_def)

lemma sliceStruct_same: "sliceStruct v diff = Some u \<Longrightarrow> ws_client u = ws_client v \<and> isSkip u = isSkip v"
  by (cases v) (auto simp: GenID_def split: prod.splits option.splits)

lemma cutTo_spec:
  assumes "sliceable v" "clock < ws_end v"
  shows "ws_client (cutTo clock v) = ws_client v" "ws_end (cutTo clock v) = ws_end v" "isSkip (cutTo clock v) = isSkip v"
    "id_Clock (ws_id (cutTo clock v)) = max clock (id_Clock (ws_id v))"
    "writeStruct jm pr buf v (max (clock - id_Clock (ws_id v)) 0) = writeStruct jm pr buf (cutTo clock v) 0"
proof -
  have "ws_client (cutTo clock v) = ws_client v \<and> ws_end (cutTo clock v) = ws_end v \<and> isSkip (cutTo clock v) = isSkip v \<and>
    id_Clock (ws_id (cutTo clock v)) = max clock (id_Clock (ws_id v)) \<and>
    writeStruct jm pr buf v (max (clock - id_Clock (ws_id v)) 0) = writeStruct jm pr buf (cutTo clock v) 0"
  proof (cases "id_Clock (ws_id v) < clock")
    case True
    obtain u where u: "sliceStruct v (clock - id_Clock (ws_id v)) = Some u" "id_Clock (ws_id u) = clock" "ws_length u = ws_end v - clock"
      "writeStruct jm pr buf v (clock - id_Clock (ws_id v)) = writeStruct jm pr buf u 0"
      using writeStruct_slice [of "clock - id_Clock (ws_id v)" v jm pr buf] True assms by (auto simp: sliceable_def ws_end_def)
    then show ?thesis using True sliceStruct_same [OF u(1)] by (simp add: cutTo_def ws_end_def max_def)
  qed (simp add: cutTo_def max_def)
  then show "ws_client (cutTo clock v) = ws_client v" "ws_end (cutTo clock v) = ws_end v" "isSkip (cutTo clock v) = isSkip v"
    "id_Clock (ws_id (cutTo clock v)) = max clock (id_Clock (ws_id v))"
    "writeStruct jm pr buf v (max (clock - id_Clock (ws_id v)) 0) = writeStruct jm pr buf (cutTo clock v) 0" by blast+
qed

lemma write_cut:
  assumes "sliceable v" "clock < ws_end v"
  shows "writeStructToLazyStructWriter jm pr lw v (max (clock - id_Clock (ws_id v)) 0) = writeStructToLazyStructWriter jm pr lw (cutTo clock v) 0"
proof -
  have e: "id_Clock (ws_id v) + max (clock - id_Clock (ws_id v)) 0 = max clock (id_Clock (ws_id v))" by (simp add: max_def)
  show ?thesis unfolding writeStructToLazyStructWriter_def startBlock_def cutTo_spec [OF assms] Let_def e add_0_right ..
qed

section \<open>The loop writes them\<close>

lemma diff_loop_drop:
  "diff_loop jm pr sv (dropWhile (\<lambda>w. ws_client w = c \<and> ws_end w \<le> sv_clock sv c) vs) lw = diff_loop jm pr sv vs lw"
proof (induction vs)
  case (Cons w ws)
  then show ?case by (cases "ws_client w = c \<and> ws_end w \<le> sv_clock sv c") (simp_all add: Let_def)
qed simp

lemma writeAllStructs_append:
  "writeAllStructs jm pr (vs @ ws) lw = (case writeAllStructs jm pr vs lw of Inl e \<Rightarrow> Inl e | Inr lw' \<Rightarrow> writeAllStructs jm pr ws lw')"
  by (induction vs arbitrary: lw) (auto split: sum.splits)

lemma diff_loop_eq: "list_all sliceable vs \<Longrightarrow> diff_loop jm pr sv vs lw = writeAllStructs jm pr (diffStructs sv vs) lw"
proof (induction sv vs arbitrary: lw rule: diffStructs.induct)
  case (2 sv v vs)
  let ?c = "ws_client v"
  consider "isSkip v" | "\<not> isSkip v" "ws_end v \<le> sv_clock sv ?c" | "\<not> isSkip v" "sv_clock sv ?c < ws_end v" by linarith
  then show ?case
  proof cases
    case 2
    then show ?thesis using "2.IH"(1) "2.prems" by (simp add: Let_def diff_loop_drop)
  next
    case 3
    have "list_all sliceable (dropWhile (\<lambda>w. ws_client w = ?c) vs)" using "2.prems" by (auto simp: list_all_iff dest: set_dropWhileD)
    then have IH: "diff_loop jm pr sv (dropWhile (\<lambda>w. ws_client w = ?c) vs) lw =
        writeAllStructs jm pr (diffStructs sv (dropWhile (\<lambda>w. ws_client w = ?c) vs)) lw" for lw
      using "2.IH"(2) 3 by simp
    show ?thesis using 3 "2.prems" write_cut [of v "sv_clock sv ?c" jm pr lw]
      by (simp add: Let_def writeAllStructs_append IH split: sum.splits)
  qed (use "2.IH"(1) "2.prems" in simp)
qed simp

section \<open>What it holds\<close>

text \<open>An operation is held by a struct that covers its clock and is not a gap.\<close>

definition covers :: "wire_struct list \<Rightarrow> Number \<Rightarrow> Number \<Rightarrow> bool" where
  "covers vs c k \<longleftrightarrow> (\<exists>v \<in> set vs. \<not> isSkip v \<and> ws_client v = c \<and> id_Clock (ws_id v) \<le> k \<and> k < ws_end v)"

lemma covers_simps [simp]:
  "\<not> covers [] c k"
  "covers (v # vs) c k \<longleftrightarrow> (\<not> isSkip v \<and> ws_client v = c \<and> id_Clock (ws_id v) \<le> k \<and> k < ws_end v) \<or> covers vs c k"
  "covers (vs @ ws) c k \<longleftrightarrow> covers vs c k \<or> covers ws c k"
  by (auto simp: covers_def)

lemma run_after:
  assumes "successively follows (v # vs)" "list_all sliceable (v # vs)" "w \<in> set (takeWhile (\<lambda>w. ws_client w = ws_client v) vs)"
  shows "ws_end v \<le> id_Clock (ws_id w)"
  using assms
proof (induction vs arbitrary: v)
  case (Cons u vs)
  then have u: "ws_client u = ws_client v" by (auto split: if_splits)
  with Cons.prems(1) have e: "id_Clock (ws_id u) = ws_end v" "ws_end v \<le> ws_end u"
    using Cons.prems(2) by (simp_all add: follows_def sliceable_def ws_end_def)
  show ?case
  proof (cases "w = u")
    case False
    with Cons.prems(3) u have "w \<in> set (takeWhile (\<lambda>w. ws_client w = ws_client u) vs)" by simp
    with Cons.IH [of u] Cons.prems have "ws_end u \<le> id_Clock (ws_id w)" by simp
    with e show ?thesis by simp
  qed (use e in simp)
qed simp

lemma successively_dropWhile: "successively P vs \<Longrightarrow> successively P (dropWhile Q vs)"
  by (metis successively_append_iff takeWhile_dropWhile_id)

lemma diffStructs_covers:
  "successively follows vs \<Longrightarrow> list_all sliceable vs \<Longrightarrow> covers (diffStructs sv vs) c k \<longleftrightarrow> covers vs c k \<and> sv_clock sv c \<le> k"
proof (induction sv vs rule: diffStructs.induct)
  case (2 sv v vs)
  let ?s = "\<lambda>w. ws_client w = ws_client v"
  have tl: "successively follows vs" "list_all sliceable vs" using "2.prems" by (auto simp: successively_Cons)
  show ?case
  proof (cases "isSkip v \<or> ws_end v \<le> sv_clock sv (ws_client v)")
    case True
    then show ?thesis using "2.IH"(1) tl by auto
  next
    case False
    then have cut: "sliceable v" "sv_clock sv (ws_client v) < ws_end v" using "2.prems" by simp_all
    have "list_all sliceable (dropWhile ?s vs)" using tl(2) by (auto simp: list_all_iff dest: set_dropWhileD)
    then have IH: "covers (diffStructs sv (dropWhile ?s vs)) c k \<longleftrightarrow> covers (dropWhile ?s vs) c k \<and> sv_clock sv c \<le> k"
      using "2.IH"(2) False successively_dropWhile [OF tl(1)] by blast
    have t: "covers (takeWhile ?s vs) c k \<longleftrightarrow> covers (takeWhile ?s vs) c k \<and> sv_clock sv c \<le> k"
      using run_after [OF "2.prems"] cut(2) by (fastforce simp: covers_def dest: set_takeWhileD)
    have "covers vs c k \<longleftrightarrow> covers (takeWhile ?s vs) c k \<or> covers (dropWhile ?s vs) c k"
      using covers_simps(3) [of "takeWhile ?s vs" "dropWhile ?s vs"] by simp
    then show ?thesis using False IH t cutTo_spec(1-4) [OF cut] by auto
  qed
qed simp

section \<open>The difference is again an update\<close>

text \<open>Every client has one run of structs.\<close>

definition one_run :: "wire_struct list \<Rightarrow> bool" where
  "one_run vs \<longleftrightarrow> distinct (remdups_adj (map (\<lambda>v. ws_client v) vs))"

lemma one_run_tl: "one_run (v # vs) \<Longrightarrow> one_run vs"
  by (cases vs) (auto simp: one_run_def split: if_splits)

lemma one_run_dropWhile: "one_run vs \<Longrightarrow> one_run (dropWhile Q vs)"
  by (induction vs) (auto dest: one_run_tl)

lemma one_run_other: "one_run (v # vs) \<Longrightarrow> w \<in> set (dropWhile (\<lambda>w. ws_client w = ws_client v) vs) \<Longrightarrow> ws_client w \<noteq> ws_client v"
proof (induction vs)
  case (Cons u vs)
  show ?case
  proof (cases "ws_client u = ws_client v")
    case True
    with Cons.prems(1) have "one_run (v # vs)" by (cases vs) (auto simp: one_run_def split: if_splits)
    then show ?thesis using Cons True by simp
  next
    case False
    then have "ws_client v \<notin> set (remdups_adj (map (\<lambda>v. ws_client v) (u # vs)))" using Cons.prems(1) by (simp add: one_run_def)
    then show ?thesis using Cons.prems(2) False by (simp del: remdups_adj.simps) (metis imageI)
  qed
qed simp

lemma diffStructs_clients: "list_all sliceable vs \<Longrightarrow> w \<in> set (diffStructs sv vs) \<Longrightarrow> \<exists>v \<in> set vs. ws_client w = ws_client v"
proof (induction sv vs rule: diffStructs.induct)
  case (2 sv v vs)
  have "list_all sliceable (dropWhile (\<lambda>w. ws_client w = ws_client v) vs)" using "2.prems"(1) by (auto simp: list_all_iff dest: set_dropWhileD)
  with 2 show ?case
    by (auto simp: cutTo_spec split: if_splits dest: set_takeWhileD set_dropWhileD)
qed simp

lemma diffStructs_follows:
  "successively follows vs \<Longrightarrow> list_all sliceable vs \<Longrightarrow> one_run vs \<Longrightarrow> successively follows (diffStructs sv vs)"
proof (induction sv vs rule: diffStructs.induct)
  case (2 sv v vs)
  let ?s = "\<lambda>w. ws_client w = ws_client v"
  have tl: "successively follows vs" "list_all sliceable vs" "one_run vs" using "2.prems" one_run_tl by (auto simp: successively_Cons)
  show ?case
  proof (cases "isSkip v \<or> ws_end v \<le> sv_clock sv (ws_client v)")
    case False
    then have cut: "sliceable v" "sv_clock sv (ws_client v) < ws_end v" using "2.prems" by simp_all
    note c = cutTo_spec(1,2) [OF cut]
    have d: "list_all sliceable (dropWhile ?s vs)" using tl(2) by (auto simp: list_all_iff dest: set_dropWhileD)
    have IH: "successively follows (diffStructs sv (dropWhile ?s vs))"
      using "2.IH"(2) False successively_dropWhile [OF tl(1)] d one_run_dropWhile [OF tl(3)] by blast
    have o: "ws_client w \<noteq> ws_client v" if w: "w \<in> set (diffStructs sv (dropWhile ?s vs))" for w
    proof -
      obtain x where "x \<in> set (dropWhile ?s vs)" "ws_client w = ws_client x" using diffStructs_clients [OF d w] by blast
      then show ?thesis using one_run_other [OF "2.prems"(3)] by metis
    qed
    let ?t = "cutTo (sv_clock sv (ws_client v)) v # takeWhile ?s vs"
    have "successively follows (takeWhile ?s vs)" using tl(1) by (metis successively_append_iff takeWhile_dropWhile_id)
    moreover have "follows (cutTo (sv_clock sv (ws_client v)) v) (hd (takeWhile ?s vs))" if "takeWhile ?s vs \<noteq> []"
      using "2.prems"(1) that c by (cases vs) (auto simp: follows_def split: if_splits)
    ultimately have t: "successively follows ?t" by (auto simp: successively_Cons)
    have "\<forall>x \<in> set ?t. ws_client x = ws_client v" using c(1) by (simp add: ball_Un) (blast dest: set_takeWhileD)
    then have l: "ws_client (last ?t) = ws_client v" by (rule bspec) (rule last_in_set, simp)
    have "follows (last ?t) (hd (diffStructs sv (dropWhile ?s vs)))" if "diffStructs sv (dropWhile ?s vs) \<noteq> []"
      using l o [OF hd_in_set [OF that]] by (simp add: follows_def)
    then have "successively follows (?t @ diffStructs sv (dropWhile ?s vs))" using t IH by (simp only: successively_append_iff) blast
    then show ?thesis using False by simp
  qed (use 2 tl in simp)
qed simp

lemma covers_canon: "covers (map (canonStruct pr) vs) c k = covers vs c k"
proof -
  have "isSkip (canonStruct pr v) = isSkip v" "ws_id (canonStruct pr v) = ws_id v" "ws_end (canonStruct pr v) = ws_end v" for v
    by (cases v; simp add: ws_end_def)+
  then show ?thesis by (simp add: covers_def)
qed

section \<open>Properties\<close>

text \<open>
  Claim C6. Answering a peer: when an update decodes and the structs to be sent can be encoded, \<open>diffUpdate\<close> returns an update
  that decodes again, keeps the delete set, and holds an operation if and only if the given update holds it and the peer's state
  vector does not include it. An absent state vector counts as the empty one.
\<close>

theorem diffUpdate_exact:
  assumes dec: "decodeUpdate uj u = Some (Inr d)" and sv: "decodeStateVector (if sv = [] then [0] else sv) = Inr state"
    and vs: "successively follows (du_structs d)" "one_run (du_structs d)" "wire_ok (du_ds d)"
    and out: "list_all (struct_encodable jm uj pr) (diffStructs state (du_structs d))" "list_all clock_fits (diffStructs state (du_structs d))"
      "int (length (diffStructs state (du_structs d))) \<le> structCountAbsoluteCeiling"
  shows "\<exists>u'. diffUpdate jm uj pr u sv = Some (Inr u') \<and>
    (int (length u') \<le> MaxInt \<longrightarrow> (\<exists>d'. decodeUpdate uj u' = Some (Inr d') \<and> clientItems (du_ds d') = clientItems (du_ds d) \<and>
       (\<forall>c k. covers (du_structs d') c k \<longleftrightarrow> covers (du_structs d) c k \<and> sv_clock state c \<le> k)))"
proof -
  let ?vs = "du_structs d"
  obtain r where r: "newLazyStructReader uj u False = Some r" "lr_err r = None" "lr_structs r = ?vs"
    "\<exists>b. readDeleteSet V1_decoder (lr_buf r) = (Inr (du_ds d), b)"
    using dec by (auto simp: decodeUpdate_def split: option.splits prod.splits sum.splits)
  have ok: "list_all sliceable ?vs"
    using newLazyStructReader_total [of uj u False] r(1,3) struct_ok_sliceable by (auto simp: list_all_iff)
  note sp = diffStructs_follows [OF vs(1) ok vs(2)]
  obtain lw where lw: "writeAllStructs jm pr (diffStructs state ?vs) newLazyStructWriter = Inr lw"
    "\<And>rest. int (length (lw_rest (finishLazyStructWriting lw) @ rest)) \<le> MaxInt \<Longrightarrow>
      newLazyStructReader uj (lw_rest (finishLazyStructWriting lw) @ rest) False =
        Some \<lparr>lr_structs = map (canonStruct pr) (diffStructs state ?vs), lr_err = None, lr_buf = rest\<rparr>"
    using reader_of_writer [OF out(1,2) sp out(3)] by blast
  obtain e b where e: "writeDeleteSet V1_encoder (Some (du_ds d)) \<lparr>e1_rest = lw_rest (finishLazyStructWriting lw)\<rparr> = (None, e)"
    "e1_rest e = lw_rest (finishLazyStructWriting lw) @ b"
    "int (length b) \<le> MaxInt \<longrightarrow> (\<exists>ds'. readDeleteSet V1_decoder b = (Inr ds', []) \<and> clientItems ds' = clientItems (du_ds d))"
    using deleteSet_appended [OF vs(3)] by blast
  have "diffUpdate jm uj pr u sv = Some (Inr (e1_rest e))"
    using sv r lw(1) e(1) diff_loop_eq [OF ok] by (auto simp: diffUpdate_def finishUpdate_def Let_def)
  moreover have "\<exists>d'. decodeUpdate uj (e1_rest e) = Some (Inr d') \<and> clientItems (du_ds d') = clientItems (du_ds d) \<and>
       (\<forall>c k. covers (du_structs d') c k \<longleftrightarrow> covers ?vs c k \<and> sv_clock state c \<le> k)" if l: "int (length (e1_rest e)) \<le> MaxInt"
  proof -
    from l e(2,3) obtain ds' where "readDeleteSet V1_decoder b = (Inr ds', [])" "clientItems ds' = clientItems (du_ds d)" by auto
    then show ?thesis using lw(2) [of b] l e(2) diffStructs_covers [OF vs(1) ok] by (simp add: decodeUpdate_def covers_canon)
  qed
  ultimately show ?thesis by blast
qed

theorem diffUpdate_exact_witness:
  "\<exists>u' d'. diffUpdate (\<lambda>_. Inl InvalidJSON) (\<lambda>_. Inl InvalidJSON) (\<lambda>_. Inl [])
      [1, 1, 7, 0, 4, 1, 1, 116, 3, 104, 105, 106, 0] [1, 7, 1] = Some (Inr u') \<and>
    decodeUpdate (\<lambda>_. Inl InvalidJSON) u' = Some (Inr d') \<and> (\<forall>c k. covers (du_structs d') c k \<longleftrightarrow> c = 7 \<and> 1 \<le> k \<and> k < 3)"
proof -
  let ?jm = "\<lambda>_ :: any. Inl InvalidJSON :: go_error + gostring" and ?pr = "\<lambda>_ :: tid. Inl [] :: gostring + ID"
  let ?uj = "\<lambda>_ :: gostring. Inl InvalidJSON :: go_error + any"
  let ?u = "[1, 1, 7, 0, 4, 1, 1, 116, 3, 104, 105, 106, 0] :: byte list"
  let ?v = "WItem \<lparr>w_id = \<lparr>id_Client = 7, id_Clock = 0\<rparr>, w_origin = None, w_rightOrigin = None, w_parent = ParentKey [116], w_parentSub = [],
    w_content = CString [104, 105, 106], w_length = 3\<rparr>"
  let ?d = "\<lparr>du_structs = [?v], du_ds = newDeleteSet\<rparr>"
  let ?w = "WItem \<lparr>w_id = \<lparr>id_Client = 7, id_Clock = 1\<rparr>, w_origin = Some \<lparr>id_Client = 7, id_Clock = 0\<rparr>, w_rightOrigin = None,
    w_parent = ParentKey [116], w_parentSub = [], w_content = CString [105, 106], w_length = 2\<rparr>"
  have dec: "decodeUpdate ?uj ?u = Some (Inr ?d)" and sv: "decodeStateVector [1, 7, 1] = Inr [(7, 1)]" by code_simp+
  have diff: "diffStructs [(7, 1)] (du_structs ?d) = [?w]" by code_simp
  have len: "contentLength (CString [105, 106] :: typeDesc content) = 2" by code_simp
  have enc: "list_all (struct_encodable ?jm ?uj ?pr) [?w]" "list_all clock_fits [?w]" "int (length [?w]) \<le> structCountAbsoluteCeiling"
    using len by (simp_all add: no_origin_def clock_fits_def id_safe_def ws_end_def maxSafeInteger_def MaxInt_def structCountAbsoluteCeiling_def
      del: contentLength.simps(4))
  have ds: "wire_ok (du_ds ?d)" by code_simp
  have vs: "successively follows (du_structs ?d)" "one_run (du_structs ?d)" by (simp_all add: one_run_def)
  obtain u' where u': "diffUpdate ?jm ?uj ?pr ?u [1, 7, 1] = Some (Inr u')"
    "int (length u') \<le> MaxInt \<longrightarrow> (\<exists>d'. decodeUpdate ?uj u' = Some (Inr d') \<and> clientItems (du_ds d') = clientItems (du_ds ?d) \<and>
       (\<forall>c k. covers (du_structs d') c k \<longleftrightarrow> covers (du_structs ?d) c k \<and> sv_clock [(7, 1)] c \<le> k))"
    using diffUpdate_exact [OF dec _ vs ds, of "[1, 7, 1]" "[(7, 1)]" ?jm ?pr] sv enc unfolding diff by auto
  have "diffUpdate ?jm ?uj ?pr ?u [1, 7, 1] = Some (Inr [1, 1, 7, 1, 132, 7, 0, 2, 105, 106, 0])" by code_simp
  with u'(1) have "u' = [1, 1, 7, 1, 132, 7, 0, 2, 105, 106, 0]" by simp
  then have "int (length u') \<le> MaxInt" by (simp add: MaxInt_def)
  moreover have "covers (du_structs ?d) c k \<and> sv_clock [(7, 1)] c \<le> k \<longleftrightarrow> c = 7 \<and> 1 \<le> k \<and> k < 3" for c k
    by (auto simp: ws_end_def sv_clock_def)
  ultimately show ?thesis using u' by auto
qed

end
