(* ===== verification/Registry.thy ===== *)
theory Registry
  imports Prelude "HOL-Library.Multiset" "HOL-Library.AList"
begin

text \<open>
  The in-process document registry (\<^verbatim>\<open>backend/memory/registry.go\<close>): many goroutines acquire, release, invalidate and evict documents
  under one lock. Every critical section of the code is a function on the registry; between two critical sections a
  goroutine is a task that remembers what it still owes, and \<open>step\<close> interleaves the tasks freely.

  An entry is a generation of a document. A channel that is only ever closed is a flag; closing it twice sets \<open>rg_panic\<close>, as does releasing
  a reference that is not held. Contexts are the environment's choice: whether a caller's context is done is a
  parameter of the step. \<open>en_key\<close> is the document id that the code passes along with the entry.
\<close>

section \<open>Definitions\<close>

type_synonym eid = nat

datatype rg_error = RErrClosed | RErrInUse | RErrInvalidDocument | RErrContext | RErrOpen nat

record entry =
  en_key :: gostring
  en_ready :: bool
  en_invalidated :: bool
  en_done :: bool
  en_openCancelled :: bool
  en_waiters :: nat
  en_claimed :: bool
  en_doc :: "nat option"
  en_err :: "rg_error option"
  en_refs :: nat
  en_closing :: bool
  en_poisoned :: bool
  en_destroying :: bool

record registry =
  rg_closed :: bool
  rg_entries :: "(gostring \<times> eid) list"
  rg_draining :: "eid set"
  rg_heap :: "eid \<Rightarrow> entry"
  rg_next :: eid
  rg_destroyed :: "eid list"
  rg_panic :: bool

definition newEntry :: "gostring \<Rightarrow> entry" where
  "newEntry ident = \<lparr>en_key = ident, en_ready = False, en_invalidated = False, en_done = False, en_openCancelled = False, en_waiters = 1,
     en_claimed = False, en_doc = None, en_err = None, en_refs = 0, en_closing = False, en_poisoned = False, en_destroying = False\<rparr>"

definition NewRegistry :: registry where
  "NewRegistry = \<lparr>rg_closed = False, rg_entries = [], rg_draining = {}, rg_heap = (\<lambda>_. newEntry []), rg_next = 0, rg_destroyed = [], rg_panic = False\<rparr>"

definition upd :: "eid \<Rightarrow> (entry \<Rightarrow> entry) \<Rightarrow> registry \<Rightarrow> registry" where
  "upd e f r = r\<lparr>rg_heap := (rg_heap r)(e := f (rg_heap r e))\<rparr>"

definition panic_if :: "bool \<Rightarrow> registry \<Rightarrow> registry" where
  "panic_if b r = r\<lparr>rg_panic := rg_panic r \<or> b\<rparr>"

definition closeReady :: "eid \<Rightarrow> registry \<Rightarrow> registry" where
  "closeReady e r = upd e (\<lambda>n. n\<lparr>en_ready := True\<rparr>) (panic_if (en_ready (rg_heap r e)) r)"

definition closeInvalidated :: "eid \<Rightarrow> registry \<Rightarrow> registry" where
  "closeInvalidated e r = upd e (\<lambda>n. n\<lparr>en_invalidated := True\<rparr>) (panic_if (en_invalidated (rg_heap r e)) r)"

definition closeDone :: "eid \<Rightarrow> registry \<Rightarrow> registry" where
  "closeDone e r = upd e (\<lambda>n. n\<lparr>en_done := True\<rparr>) (panic_if (en_done (rg_heap r e)) r)"

definition deleteEntry :: "eid \<Rightarrow> registry \<Rightarrow> registry" where
  "deleteEntry e r =
     (let ident = en_key (rg_heap r e)
      in if map_of (rg_entries r) ident = Some e then r\<lparr>rg_entries := AList.delete ident (rg_entries r)\<rparr> else r)"

definition destroyDoc :: "eid \<Rightarrow> registry \<Rightarrow> registry" where
  "destroyDoc e r = (if en_doc (rg_heap r e) = None then r else r\<lparr>rg_destroyed := rg_destroyed r @ [e]\<rparr>)"

subsection \<open>Critical sections\<close>

definition dropWaiterLocked :: "eid \<Rightarrow> registry \<Rightarrow> registry" where
  "dropWaiterLocked e r =
     (if en_waiters (rg_heap r e) = 0 then r
      else
        let r1 = upd e (\<lambda>n. n\<lparr>en_waiters := en_waiters n - 1\<rparr>) r; n = rg_heap r1 e
        in if en_waiters n \<noteq> 0 \<or> en_refs n \<noteq> 0 \<or> en_claimed n \<or> en_closing n then r1
           else
             let r2 = deleteEntry e (upd e (\<lambda>n. n\<lparr>en_closing := True, en_poisoned := True, en_openCancelled := True\<rparr>) r1)
             in r2\<lparr>rg_draining := insert e (rg_draining r2)\<rparr>)"

definition takePoisonedDestroyLocked :: "eid \<Rightarrow> registry \<Rightarrow> bool \<times> registry" where
  "takePoisonedDestroyLocked e r =
     (let n = rg_heap r e
      in if \<not> en_poisoned n \<or> en_destroying n \<or> en_refs n \<noteq> 0 then (False, r)
         else if \<not> en_ready n then (False, r)
         else (True, upd e (\<lambda>n. n\<lparr>en_destroying := True\<rparr>) r))"

definition finishPoisoned :: "eid \<Rightarrow> registry \<Rightarrow> registry" where
  "finishPoisoned e r =
     (let r1 = destroyDoc e r in closeDone e (r1\<lparr>rg_draining := rg_draining r1 - {e}\<rparr>))"

datatype acquired = AcqError rg_error | AcqWaitDone eid | AcqJoin eid | AcqCreated eid

text \<open>One turn of the loop of \<^verbatim>\<open>Acquire\<close>, up to the wait.\<close>

definition acquireLocked :: "bool \<Rightarrow> gostring \<Rightarrow> registry \<Rightarrow> acquired \<times> registry" where
  "acquireLocked cancelled ident r =
     (if ident = [] then (AcqError RErrInvalidDocument, r)
      else if cancelled then (AcqError RErrContext, r)
      else if rg_closed r then (AcqError RErrClosed, r)
      else case map_of (rg_entries r) ident of
        Some e \<Rightarrow>
          if en_closing (rg_heap r e) then (AcqWaitDone e, r)
          else (AcqJoin e, upd e (\<lambda>n. n\<lparr>en_waiters := en_waiters n + 1\<rparr>) r)
      | None \<Rightarrow>
          let e = rg_next r
          in (AcqCreated e, r\<lparr>rg_heap := (rg_heap r)(e := newEntry ident), rg_next := e + 1,
                rg_entries := (ident, e) # rg_entries r\<rparr>))"

datatype await_outcome = GotHandle eid | GotError rg_error | Retry

definition finalizeLocked :: "bool \<Rightarrow> eid \<Rightarrow> registry \<Rightarrow> await_outcome \<times> registry" where
  "finalizeLocked cancelled e r =
     (let n = rg_heap r e
      in if cancelled then (GotError RErrContext, dropWaiterLocked e r)
         else if en_poisoned n then (Retry, dropWaiterLocked e r)
         else case en_err n of
           Some err \<Rightarrow> (GotError err, dropWaiterLocked e r)
         | None \<Rightarrow>
             if en_closing n then (Retry, dropWaiterLocked e r)
             else (GotHandle e, dropWaiterLocked e (upd e (\<lambda>n. n\<lparr>en_claimed := True, en_refs := en_refs n + 1\<rparr>) r)))"

text \<open>The two cases of the wait: the entry is ready, or the caller's context is done.\<close>

definition awaitReady :: "bool \<Rightarrow> eid \<Rightarrow> registry \<Rightarrow> await_outcome \<times> bool \<times> registry" where
  "awaitReady cancelled e r =
     (case finalizeLocked cancelled e r of (res, r1) \<Rightarrow> (res, takePoisonedDestroyLocked e r1))"

definition awaitCancelled :: "eid \<Rightarrow> registry \<Rightarrow> bool \<times> registry" where
  "awaitCancelled e r = takePoisonedDestroyLocked e (dropWaiterLocked e r)"

definition runOpen :: "eid \<Rightarrow> nat option \<Rightarrow> rg_error option \<Rightarrow> registry \<Rightarrow> bool \<times> registry" where
  "runOpen e doc err0 r =
     (let err = (if err0 = None \<and> doc = None then Some RErrInvalidDocument else err0);
          r1 = closeReady e (upd e (\<lambda>n. n\<lparr>en_doc := doc, en_err := err\<rparr>) r)
      in if en_poisoned (rg_heap r1 e) then takePoisonedDestroyLocked e r1
         else if err \<noteq> None
         then (False, closeDone e (deleteEntry e (upd e (\<lambda>n. n\<lparr>en_closing := True\<rparr>) r1)))
         else (False, r1))"

definition releaseHandle :: "eid \<Rightarrow> registry \<Rightarrow> bool \<times> registry" where
  "releaseHandle e r =
     (if en_refs (rg_heap r e) = 0 then (False, panic_if True r)
      else takePoisonedDestroyLocked e (upd e (\<lambda>n. n\<lparr>en_refs := en_refs n - 1\<rparr>) r))"

text \<open>\<^verbatim>\<open>Invalidate\<close> up to its wait: the poisoned entry, if there is one, and whether the caller destroys it.\<close>

definition invalidateLocked :: "bool \<Rightarrow> gostring \<Rightarrow> registry \<Rightarrow> (rg_error + (eid \<times> bool) option) \<times> registry" where
  "invalidateLocked cancelled ident r =
     (if cancelled then (Inl RErrContext, r)
      else if rg_closed r then (Inl RErrClosed, r)
      else case map_of (rg_entries r) ident of
        None \<Rightarrow> (Inr None, r)
      | Some e \<Rightarrow>
          if en_closing (rg_heap r e) then (Inr None, r)
          else
            let r1 = upd e (\<lambda>n. n\<lparr>en_closing := True, en_poisoned := True, en_openCancelled := True\<rparr>) r;
                r2 = r1\<lparr>rg_entries := AList.delete ident (rg_entries r1), rg_draining := insert e (rg_draining r1)\<rparr>
            in case takePoisonedDestroyLocked e (closeInvalidated e r2) of (finish, r3) \<Rightarrow> (Inr (Some (e, finish)), r3))"

definition evictBegin :: "gostring \<Rightarrow> registry \<Rightarrow> (rg_error + eid option) \<times> registry" where
  "evictBegin ident r =
     (case map_of (rg_entries r) ident of
        None \<Rightarrow> (Inr None, r)
      | Some e \<Rightarrow>
          let n = rg_heap r e
          in if \<not> en_ready n then (Inl RErrInUse, r)
             else if en_refs n \<noteq> 0 \<or> en_closing n then (Inl RErrInUse, r)
             else (Inr (Some e), upd e (\<lambda>n. n\<lparr>en_closing := True\<rparr>) r))"

definition evictEnd :: "eid \<Rightarrow> registry \<Rightarrow> registry" where
  "evictEnd e r = closeDone e (deleteEntry e (destroyDoc e (panic_if (en_doc (rg_heap r e) = None) r)))"

definition closeBegin :: "registry \<Rightarrow> (rg_error + eid list) \<times> registry" where
  "closeBegin r =
     (if rg_closed r then (Inr [], r)
      else if rg_draining r \<noteq> {} then (Inl RErrInUse, r)
      else if list_ex (\<lambda>(ident, e). let n = rg_heap r e in \<not> en_ready n \<or> en_refs n \<noteq> 0 \<or> en_closing n) (rg_entries r)
      then (Inl RErrInUse, r)
      else (Inr (map snd (rg_entries r)),
            foldl (\<lambda>r e. upd e (\<lambda>n. n\<lparr>en_closing := True\<rparr>) r) (r\<lparr>rg_closed := True\<rparr>) (map snd (rg_entries r))))"

definition closeEnd :: "eid list \<Rightarrow> registry \<Rightarrow> registry" where
  "closeEnd es r =
     foldl (\<lambda>r e. closeDone e (deleteEntry e r))
       (foldl (\<lambda>r e. destroyDoc e (panic_if (en_doc (rg_heap r e) = None) r)) r es) es"

subsection \<open>Interleavings\<close>

text \<open>What a goroutine owes between two critical sections.\<close>

datatype task = Awaiting eid | Opening eid | Holding eid | Finishing eid | Evicting eid | Closing "eid list"

abbreviation finishing :: "eid \<Rightarrow> bool \<Rightarrow> task multiset" where
  "finishing e b \<equiv> (if b then {#Finishing e#} else {#})"

fun handed :: "await_outcome \<Rightarrow> task multiset" where
  "handed (GotHandle e) = {#Holding e#}"
| "handed _ = {#}"

inductive step :: "registry \<times> task multiset \<Rightarrow> registry \<times> task multiset \<Rightarrow> bool" where
  join: "acquireLocked c ident r = (AcqJoin e, r') \<Longrightarrow> step (r, T) (r', add_mset (Awaiting e) T)"
| create: "acquireLocked c ident r = (AcqCreated e, r') \<Longrightarrow> step (r, T) (r', add_mset (Opening e) (add_mset (Awaiting e) T))"
| ready: "en_ready (rg_heap r e) \<Longrightarrow> awaitReady c e r = (res, fin, r') \<Longrightarrow>
    step (r, add_mset (Awaiting e) T) (r', handed res + finishing e fin + T)"
| cancelled: "awaitCancelled e r = (fin, r') \<Longrightarrow> step (r, add_mset (Awaiting e) T) (r', finishing e fin + T)"
| opened: "runOpen e doc err r = (fin, r') \<Longrightarrow> step (r, add_mset (Opening e) T) (r', finishing e fin + T)"
| release: "releaseHandle e r = (fin, r') \<Longrightarrow> step (r, add_mset (Holding e) T) (r', finishing e fin + T)"
| finish: "step (r, add_mset (Finishing e) T) (finishPoisoned e r, T)"
| invalidate: "invalidateLocked c ident r = (Inr (Some (e, fin)), r') \<Longrightarrow> step (r, T) (r', finishing e fin + T)"
| evict: "evictBegin ident r = (Inr (Some e), r') \<Longrightarrow> step (r, T) (r', add_mset (Evicting e) T)"
| evicted: "step (r, add_mset (Evicting e) T) (evictEnd e r, T)"
| close: "\<not> rg_closed r \<Longrightarrow> closeBegin r = (Inr es, r') \<Longrightarrow> step (r, T) (r', add_mset (Closing es) T)"
| closed: "step (r, add_mset (Closing es) T) (closeEnd es r, T)"

inductive reachable :: "registry \<times> task multiset \<Rightarrow> bool" where
  start: "reachable (NewRegistry, {#})"
| move: "reachable c \<Longrightarrow> step c c' \<Longrightarrow> reachable c'"

section \<open>The invariant\<close>

definition in_map :: "registry \<Rightarrow> eid \<Rightarrow> bool" where
  "in_map r e \<longleftrightarrow> map_of (rg_entries r) (en_key (rg_heap r e)) = Some e"

definition cl :: "task multiset \<Rightarrow> eid \<Rightarrow> bool" where
  "cl T e \<longleftrightarrow> (\<exists>es. Closing es \<in># T \<and> e \<in> set es)"

definition owners :: "task multiset \<Rightarrow> eid \<Rightarrow> nat" where
  "owners T e = count T (Evicting e) + (if cl T e then 1 else 0)"

text \<open>
  The life of a generation: live while it is in the map and not closing, then poisoned (invalidated or abandoned), evicted, closed with
  the registry, or failed. Each way out has one owner that ends it, and the counters count the tasks.
\<close>

definition ent_ok :: "entry \<Rightarrow> nat \<Rightarrow> nat \<Rightarrow> nat \<Rightarrow> nat \<Rightarrow> nat \<Rightarrow> bool \<Rightarrow> bool \<Rightarrow> nat \<Rightarrow> bool" where
  "ent_ok n waiting holding opening ending owned mapped drains destroyed \<longleftrightarrow>
     en_waiters n = waiting \<and> en_refs n = holding \<and> opening = (if en_ready n then 0 else 1) \<and>
     mapped = (\<not> en_poisoned n \<and> \<not> en_done n) \<and> drains = (en_poisoned n \<and> \<not> en_done n) \<and>
     (en_poisoned n \<longrightarrow> en_closing n) \<and> (en_done n \<longrightarrow> en_closing n \<and> en_refs n = 0 \<and> en_ready n) \<and>
     en_destroying n = (en_poisoned n \<and> en_ready n \<and> en_refs n = 0) \<and>
     ending = (if en_destroying n \<and> \<not> en_done n then 1 else 0) \<and>
     (\<not> en_poisoned n \<and> en_closing n \<longrightarrow> en_refs n = 0 \<and> en_ready n) \<and>
     owned = (if en_closing n \<and> \<not> en_poisoned n \<and> \<not> en_done n then 1 else 0) \<and>
     (en_ready n \<and> \<not> en_poisoned n \<and> \<not> en_done n \<longrightarrow> en_doc n \<noteq> None \<and> en_err n = None) \<and>
     destroyed = (if en_done n \<and> en_doc n \<noteq> None \<and> (en_poisoned n \<or> en_err n = None) then 1 else 0) \<and>
     (en_invalidated n \<longrightarrow> en_poisoned n) \<and> (en_poisoned n \<and> en_claimed n \<longrightarrow> en_invalidated n) \<and> (en_refs n > 0 \<longrightarrow> en_ready n \<and> en_doc n \<noteq> None \<and> en_claimed n) \<and>
     (\<not> en_closing n \<and> \<not> en_claimed n \<longrightarrow> en_waiters n > 0)"

definition entry_ok :: "registry \<Rightarrow> task multiset \<Rightarrow> eid \<Rightarrow> bool" where
  "entry_ok r T e \<longleftrightarrow> ent_ok (rg_heap r e) (count T (Awaiting e)) (count T (Holding e)) (count T (Opening e)) (count T (Finishing e))
     (owners T e) (in_map r e) (e \<in> rg_draining r) (count_list (rg_destroyed r) e)"

definition blank :: "registry \<Rightarrow> task multiset \<Rightarrow> eid \<Rightarrow> bool" where
  "blank r T e \<longleftrightarrow> count T (Awaiting e) = 0 \<and> count T (Holding e) = 0 \<and> count T (Opening e) = 0 \<and> count T (Finishing e) = 0 \<and>
     count T (Evicting e) = 0 \<and> \<not> cl T e \<and> e \<notin> rg_draining r \<and> count_list (rg_destroyed r) e = 0"

definition closing_ok :: "registry \<Rightarrow> task multiset \<Rightarrow> bool" where
  "closing_ok r T \<longleftrightarrow> (\<forall>es. Closing es \<in># T \<longrightarrow> rg_closed r \<and> distinct es \<and> count T (Closing es) = 1 \<and> (\<forall>es'. Closing es' \<in># T \<longrightarrow> es' = es)) \<and>
     (rg_closed r \<longrightarrow> (\<forall>e < rg_next r. en_closing (rg_heap r e) \<and> (en_poisoned (rg_heap r e) \<longrightarrow> en_done (rg_heap r e))))"

definition inv :: "registry \<times> task multiset \<Rightarrow> bool" where
  "inv c \<longleftrightarrow> (case c of (r, T) \<Rightarrow>
     \<not> rg_panic r \<and> distinct (map fst (rg_entries r)) \<and> (\<forall>(k, e) \<in> set (rg_entries r). e < rg_next r \<and> en_key (rg_heap r e) = k) \<and>
     (\<forall>e < rg_next r. entry_ok r T e) \<and> (\<forall>e \<ge> rg_next r. blank r T e) \<and> closing_ok r T)"

lemmas reg_defs = upd_def panic_if_def closeReady_def closeInvalidated_def closeDone_def deleteEntry_def destroyDoc_def
  dropWaiterLocked_def takePoisonedDestroyLocked_def finishPoisoned_def Let_def

text \<open>A step that changes one entry and the tasks of that entry.\<close>

lemma inv_one:
  assumes inv: "inv (r, T)" and e: "e < rg_next r"
    and same: "rg_next r' = rg_next r" "\<And>x. x \<noteq> e \<Longrightarrow> rg_heap r' x = rg_heap r x" "en_key (rg_heap r' e) = en_key (rg_heap r e)"
      "rg_closed r' = rg_closed r" "\<And>x. x \<noteq> e \<Longrightarrow> (x \<in> rg_draining r') = (x \<in> rg_draining r)"
      "\<And>x. x \<noteq> e \<Longrightarrow> count_list (rg_destroyed r') x = count_list (rg_destroyed r) x"
      "rg_entries r' = rg_entries r \<or> in_map r e \<and> rg_entries r' = AList.delete (en_key (rg_heap r e)) (rg_entries r)"
    and tasks: "\<And>x t. x \<noteq> e \<Longrightarrow> t \<in> {Awaiting x, Opening x, Holding x, Finishing x, Evicting x} \<Longrightarrow> count T' t = count T t"
      "\<And>es. count T' (Closing es) = count T (Closing es)"
    and ok: "\<not> rg_panic r'" "entry_ok r' T' e" "rg_closed r \<longrightarrow> en_closing (rg_heap r' e) \<and> (en_poisoned (rg_heap r' e) \<longrightarrow> en_done (rg_heap r' e))"
  shows "inv (r', T')"
proof -
  have m: "Closing es \<in># T' \<longleftrightarrow> Closing es \<in># T" for es using tasks(2) [of es] by (metis count_eq_zero_iff)
  have c: "cl T' x = cl T x" for x by (simp add: cl_def m)
  have im: "in_map r' x = in_map r x" if "x \<noteq> e" for x
    using that same(2) [OF that] same(7) by (auto simp: in_map_def delete_conv split: if_splits)
  have "entry_ok r' T' x" if "x < rg_next r" for x
  proof (cases "x = e")
    case False
    with that inv have "entry_ok r T x" by (simp add: inv_def)
    moreover have "rg_heap r' x = rg_heap r x" "(x \<in> rg_draining r') = (x \<in> rg_draining r)"
      "count_list (rg_destroyed r') x = count_list (rg_destroyed r) x" using same(2,5,6) False by blast+
    moreover have "count T' (Awaiting x) = count T (Awaiting x)" "count T' (Holding x) = count T (Holding x)"
      "count T' (Opening x) = count T (Opening x)" "count T' (Finishing x) = count T (Finishing x)" "count T' (Evicting x) = count T (Evicting x)"
      using tasks(1) [OF False] by simp_all
    ultimately show ?thesis by (simp only: entry_ok_def owners_def c im [OF False])
  qed (use ok in simp)
  moreover have "blank r' T' x" if "rg_next r \<le> x" for x
  proof -
    have "x \<noteq> e" using that e by simp
    moreover have "blank r T x" using inv that by (simp add: inv_def)
    ultimately show ?thesis using same tasks(1) c by (simp add: blank_def)
  qed
  moreover have "distinct (map fst (rg_entries r'))" using same(7) inv by (auto simp: inv_def distinct_delete)
  moreover have "\<forall>(k, x) \<in> set (rg_entries r'). x < rg_next r' \<and> en_key (rg_heap r' x) = k"
  proof -
    have "\<forall>(k, x) \<in> set (rg_entries r). x < rg_next r' \<and> en_key (rg_heap r' x) = k"
      using inv same(1,2,3) by (fastforce simp: inv_def)
    moreover have "set (rg_entries r') \<subseteq> set (rg_entries r)" using same(7) by (auto simp: AList.delete_eq)
    ultimately show ?thesis by blast
  qed
  moreover have "closing_ok r' T'"
  proof -
    have "closing_ok r T" using inv by (simp add: inv_def)
    then show ?thesis unfolding closing_ok_def m tasks(2) same(1,4) using same(2) ok(3) by metis
  qed
  ultimately show ?thesis using ok(1) same(1) by (simp add: inv_def)
qed

section \<open>Every step keeps it\<close>

lemma inv_entry: "inv (r, T) \<Longrightarrow> e < rg_next r \<Longrightarrow> entry_ok r T e"
  by (simp add: inv_def)

lemma inv_closed:
  "inv (r, T) \<Longrightarrow> e < rg_next r \<Longrightarrow> rg_closed r \<Longrightarrow> en_closing (rg_heap r e) \<and> (en_poisoned (rg_heap r e) \<longrightarrow> en_done (rg_heap r e))"
  by (simp add: inv_def closing_ok_def)

lemma inv_alloc:
  assumes "inv (r, add_mset t T)" "t \<in> {Awaiting e, Opening e, Holding e, Finishing e, Evicting e}"
  shows "e < rg_next r"
proof (rule ccontr)
  assume "\<not> e < rg_next r"
  then have "blank r (add_mset t T) e" using assms(1) by (simp add: inv_def)
  then show False using assms(2) by (auto simp: blank_def)
qed

lemma cl_add [simp]:
  "cl (add_mset (Awaiting e) T) = cl T" "cl (add_mset (Opening e) T) = cl T" "cl (add_mset (Holding e) T) = cl T"
  "cl (add_mset (Finishing e) T) = cl T" "cl (add_mset (Evicting e) T) = cl T"
  by (auto simp: cl_def fun_eq_iff)

lemma cl_plus [simp]: "cl (finishing e b + T) = cl T" "cl (handed res + T) = cl T" "cl (handed res + finishing e b + T) = cl T"
  by (cases res; auto simp: cl_def fun_eq_iff split: if_splits)+

lemma owners_add [simp]:
  "owners (add_mset (Awaiting e) T) x = owners T x" "owners (add_mset (Opening e) T) x = owners T x" "owners (add_mset (Holding e) T) x = owners T x"
  "owners (add_mset (Finishing e) T) x = owners T x" "owners (add_mset (Evicting e) T) e = Suc (owners T e)"
  by (simp_all add: owners_def)

lemma owners_plus [simp]: "owners (finishing e b + T) x = owners T x" "owners (handed res + T) x = owners T x"
    "owners (handed res + finishing e b + T) x = owners T x"
  by (cases res; simp add: owners_def)+

lemma step_finish:
  assumes "inv (r, add_mset (Finishing e) T)"
  shows "inv (finishPoisoned e r, T)"
proof -
  note e = inv_alloc [OF assms, of e, simplified]
  let ?n = "rg_heap r e"
  have ok: "ent_ok ?n (count T (Awaiting e)) (count T (Holding e)) (count T (Opening e)) (Suc (count T (Finishing e)))
     (owners T e) (in_map r e) (e \<in> rg_draining r) (count_list (rg_destroyed r) e)"
    using inv_entry [OF assms e] by (simp add: entry_ok_def)
  then have n: "en_poisoned ?n" "\<not> en_done ?n" "en_destroying ?n" by (simp_all add: ent_ok_def split: if_splits)
  show ?thesis
  proof (rule inv_one [OF assms e])
    show "entry_ok (finishPoisoned e r) T e"
      using ok n by (auto simp: entry_ok_def ent_ok_def reg_defs in_map_def simp del: count_greater_zero_iff)
    show "\<not> rg_panic (finishPoisoned e r)"
      using n assms by (simp add: reg_defs inv_def)
  qed (auto simp: reg_defs dest: inv_closed [OF assms e])
qed

text \<open>What dropping a waiter and taking over the destruction do to the entry itself.\<close>

definition dropped :: "entry \<Rightarrow> entry" where
  "dropped n = (let n1 = n\<lparr>en_waiters := en_waiters n - 1\<rparr>
     in if en_waiters n1 \<noteq> 0 \<or> en_refs n1 \<noteq> 0 \<or> en_claimed n1 \<or> en_closing n1 then n1
        else n1\<lparr>en_closing := True, en_poisoned := True, en_openCancelled := True\<rparr>)"

definition takes :: "entry \<Rightarrow> bool" where
  "takes n \<longleftrightarrow> en_poisoned n \<and> \<not> en_destroying n \<and> en_refs n = 0 \<and> en_ready n"

definition taken :: "entry \<Rightarrow> entry" where
  "taken n = (if takes n then n\<lparr>en_destroying := True\<rparr> else n)"

lemma takePoisoned_eq: "takePoisonedDestroyLocked e r = (takes (rg_heap r e), upd e taken r)"
  by (auto simp: takePoisonedDestroyLocked_def takes_def taken_def upd_def Let_def)

text \<open>A registry in which the entry \<open>e\<close> has become \<open>n\<close>; it leaves the map for the drain when it has been poisoned.\<close>

definition becomes :: "eid \<Rightarrow> entry \<Rightarrow> registry \<Rightarrow> registry" where
  "becomes e n r = (if en_poisoned n \<and> \<not> en_poisoned (rg_heap r e)
     then r\<lparr>rg_heap := (rg_heap r)(e := n), rg_entries := AList.delete (en_key n) (rg_entries r), rg_draining := insert e (rg_draining r)\<rparr>
     else r\<lparr>rg_heap := (rg_heap r)(e := n)\<rparr>)"

lemma dropWaiter_eq:
  assumes "en_waiters (rg_heap r e) > 0" "\<not> en_closing (rg_heap r e) \<Longrightarrow> \<not> en_poisoned (rg_heap r e) \<and> in_map r e"
  shows "dropWaiterLocked e r = becomes e (dropped (rg_heap r e)) r"
  using assms by (auto simp: dropWaiterLocked_def dropped_def becomes_def reg_defs in_map_def)

lemma inv_becomes:
  assumes inv: "inv (r, T)" and e: "e < rg_next r" and k: "en_key n = en_key (rg_heap r e)"
    and tasks: "\<And>x t. x \<noteq> e \<Longrightarrow> t \<in> {Awaiting x, Opening x, Holding x, Finishing x, Evicting x} \<Longrightarrow> count T' t = count T t"
      "\<And>es. count T' (Closing es) = count T (Closing es)"
    and ok: "ent_ok n (count T' (Awaiting e)) (count T' (Holding e)) (count T' (Opening e)) (count T' (Finishing e))
      (owners T' e) (\<not> en_poisoned n \<and> \<not> en_done n) (en_poisoned n \<and> \<not> en_done n) (count_list (rg_destroyed r) e)"
    and d: "en_done n = en_done (rg_heap r e)" "en_poisoned (rg_heap r e) \<longrightarrow> en_poisoned n" "en_poisoned n \<and> en_done n \<longrightarrow> en_poisoned (rg_heap r e)"
    and c: "rg_closed r \<longrightarrow> en_closing n \<and> (en_poisoned n \<longrightarrow> en_done n)"
  shows "inv (becomes e n r, T')"
proof -
  have m: "in_map r e = (\<not> en_poisoned (rg_heap r e) \<and> \<not> en_done (rg_heap r e))" "(e \<in> rg_draining r) = (en_poisoned (rg_heap r e) \<and> \<not> en_done (rg_heap r e))"
    using inv_entry [OF inv e] unfolding entry_ok_def ent_ok_def by blast+
  show ?thesis
  proof (rule inv_one [OF inv e])
    have "in_map (becomes e n r) e = (\<not> en_poisoned n \<and> \<not> en_done n) \<and> (e \<in> rg_draining (becomes e n r)) = (en_poisoned n \<and> \<not> en_done n)"
    proof (cases "en_poisoned n \<and> \<not> en_poisoned (rg_heap r e)")
      case True
      then show ?thesis using d(3) by (simp add: becomes_def in_map_def delete_conv)
    next
      case False
      then have "en_poisoned n = en_poisoned (rg_heap r e)" using d(2) by blast
      then show ?thesis using m d(1) by (simp add: becomes_def in_map_def k)
    qed
    moreover have "rg_heap (becomes e n r) e = n" "rg_destroyed (becomes e n r) = rg_destroyed r" by (simp_all add: becomes_def)
    ultimately show "entry_ok (becomes e n r) T' e" using ok by (simp only: entry_ok_def)
    show "\<not> rg_panic (becomes e n r)" using inv by (simp add: inv_def becomes_def)
    show "rg_entries (becomes e n r) = rg_entries r \<or> in_map r e \<and> rg_entries (becomes e n r) = AList.delete (en_key (rg_heap r e)) (rg_entries r)"
    proof (cases "en_poisoned n \<and> \<not> en_poisoned (rg_heap r e)")
      case True
      then have "in_map r e" using m(1) d(1,3) by blast
      then show ?thesis using True k by (simp add: becomes_def)
    qed (auto simp: becomes_def)
  qed (use tasks k c in \<open>auto simp: becomes_def\<close>)
qed

lemma upd_becomes: "en_poisoned (f n) = en_poisoned n \<Longrightarrow> en_key (f n) = en_key n \<Longrightarrow> upd e f (becomes e n r) = becomes e (f n) r"
  by (simp add: upd_def becomes_def)

lemma becomes_upd: "en_poisoned (f (rg_heap r e)) = en_poisoned (rg_heap r e) \<Longrightarrow> becomes e n (upd e f r) = becomes e n r"
  by (simp add: upd_def becomes_def)

lemma heap_becomes [simp]: "rg_heap (becomes e n r) e = n"
  by (simp add: becomes_def)

lemma taken_simps [simp]: "en_poisoned (taken n) = en_poisoned n" "en_key (taken n) = en_key n" "en_done (taken n) = en_done n"
    "en_closing (taken n) = en_closing n"
  by (simp_all add: taken_def)

lemma dropped_simps [simp]: "en_key (dropped n) = en_key n" "en_done (dropped n) = en_done n" "en_poisoned n \<Longrightarrow> en_poisoned (dropped n)"
    "en_closing n \<Longrightarrow> en_closing (dropped n)" "en_closing n \<Longrightarrow> en_poisoned (dropped n) = en_poisoned n"
  by (simp_all add: dropped_def Let_def)

text \<open>The life cycle of one entry.\<close>

lemma ent_drop:
  assumes "ent_ok n (Suc w) h p f ow m d k"
  shows "ent_ok (taken (dropped n)) w h p (f + (if takes (dropped n) then 1 else 0)) ow
    (\<not> en_poisoned (dropped n) \<and> \<not> en_done n) (en_poisoned (dropped n) \<and> \<not> en_done n) k"
  using assms by (auto simp: ent_ok_def dropped_def taken_def takes_def Let_def split: if_splits)

lemma ent_claim:
  assumes "ent_ok n (Suc w) h p f ow m d k" "\<not> en_closing n" "en_ready n"
  shows "ent_ok (dropped (n\<lparr>en_claimed := True, en_refs := en_refs n + 1\<rparr>)) w (Suc h) p f ow m d k"
  using assms by (auto simp: ent_ok_def dropped_def Let_def split: if_splits)

lemma ent_release:
  assumes "ent_ok n w (Suc h) p f ow m d k"
  defines "n' \<equiv> n\<lparr>en_refs := en_refs n - 1\<rparr>"
  shows "ent_ok (taken n') w h p (f + (if takes n' then 1 else 0)) ow m d k"
  using assms by (auto simp: ent_ok_def n'_def taken_def takes_def split: if_splits)


lemma entry_okD:
  "entry_ok r T e \<Longrightarrow> ent_ok (rg_heap r e) (count T (Awaiting e)) (count T (Holding e)) (count T (Opening e)) (count T (Finishing e))
     (owners T e) (in_map r e) (e \<in> rg_draining r) (count_list (rg_destroyed r) e)"
  by (simp add: entry_ok_def)

lemma ent_live: "ent_ok n w h p f ow m d k \<Longrightarrow> \<not> en_closing n \<Longrightarrow> \<not> en_poisoned n \<and> \<not> en_done n \<and> m \<and> \<not> d"
  by (auto simp: ent_ok_def)

lemma drop_becomes:
  assumes "inv (r, add_mset (Awaiting e) T)"
  shows "dropWaiterLocked e r = becomes e (dropped (rg_heap r e)) r" "en_waiters (rg_heap r e) > 0"
proof -
  note ok = inv_entry [OF assms inv_alloc [OF assms], of e, simplified, THEN entry_okD, simplified]
  then show w: "en_waiters (rg_heap r e) > 0" by (simp add: ent_ok_def)
  show "dropWaiterLocked e r = becomes e (dropped (rg_heap r e)) r"
    by (rule dropWaiter_eq [OF w]) (use ent_live [OF ok] in blast)
qed

lemma inv_drop:
  assumes "inv (r, add_mset (Awaiting e) T)"
  shows "inv (becomes e (taken (dropped (rg_heap r e))) r, finishing e (takes (dropped (rg_heap r e))) + T)"
proof -
  have e: "e < rg_next r" by (rule inv_alloc [OF assms]) simp
  let ?n = "rg_heap r e"
  have ok: "ent_ok ?n (Suc (count T (Awaiting e))) (count T (Holding e)) (count T (Opening e)) (count T (Finishing e))
     (owners T e) (in_map r e) (e \<in> rg_draining r) (count_list (rg_destroyed r) e)"
    using entry_okD [OF inv_entry [OF assms e]] by simp
  show ?thesis
  proof (rule inv_becomes [OF assms e])
    show "ent_ok (taken (dropped ?n)) (count (finishing e (takes (dropped ?n)) + T) (Awaiting e))
      (count (finishing e (takes (dropped ?n)) + T) (Holding e)) (count (finishing e (takes (dropped ?n)) + T) (Opening e))
      (count (finishing e (takes (dropped ?n)) + T) (Finishing e))
      (owners (finishing e (takes (dropped ?n)) + T) e)
      (\<not> en_poisoned (taken (dropped ?n)) \<and> \<not> en_done (taken (dropped ?n)))
      (en_poisoned (taken (dropped ?n)) \<and> \<not> en_done (taken (dropped ?n))) (count_list (rg_destroyed r) e)"
      using ent_drop [OF ok] by (simp split: if_splits)
    have "en_done ?n \<longrightarrow> en_closing ?n" using ok by (simp add: ent_ok_def)
    then show "en_poisoned (taken (dropped ?n)) \<and> en_done (taken (dropped ?n)) \<longrightarrow> en_poisoned ?n" by auto
    show "rg_closed r \<longrightarrow> en_closing (taken (dropped ?n)) \<and> (en_poisoned (taken (dropped ?n)) \<longrightarrow> en_done (taken (dropped ?n)))"
      using inv_closed [OF assms e] by auto
  qed auto
qed

lemma step_cancelled:
  assumes "inv (r, add_mset (Awaiting e) T)" "awaitCancelled e r = (fin, r')"
  shows "inv (r', finishing e fin + T)"
  using inv_drop [OF assms(1)] assms(2)
  by (auto simp: awaitCancelled_def drop_becomes(1) [OF assms(1)] takePoisoned_eq upd_becomes)

lemma inv_claim:
  assumes "inv (r, add_mset (Awaiting e) T)" "\<not> en_closing (rg_heap r e)" "en_ready (rg_heap r e)"
  defines "n \<equiv> dropped (rg_heap r e\<lparr>en_claimed := True, en_refs := en_refs (rg_heap r e) + 1\<rparr>)"
  shows "inv (becomes e n r, add_mset (Holding e) T)" "\<not> en_poisoned n"
proof -
  have e: "e < rg_next r" by (rule inv_alloc [OF assms(1)]) simp
  let ?n = "rg_heap r e"
  have ok: "ent_ok ?n (Suc (count T (Awaiting e))) (count T (Holding e)) (count T (Opening e)) (count T (Finishing e))
     (owners T e) (in_map r e) (e \<in> rg_draining r) (count_list (rg_destroyed r) e)"
    using entry_okD [OF inv_entry [OF assms(1) e]] by simp
  note live = ent_live [OF ok assms(2)]
  show p: "\<not> en_poisoned n" using live by (simp add: n_def dropped_def Let_def)
  show "inv (becomes e n r, add_mset (Holding e) T)"
  proof (rule inv_becomes [OF assms(1) e])
    show "ent_ok n (count (add_mset (Holding e) T) (Awaiting e)) (count (add_mset (Holding e) T) (Holding e)) (count (add_mset (Holding e) T) (Opening e))
      (count (add_mset (Holding e) T) (Finishing e)) (owners (add_mset (Holding e) T) e) (\<not> en_poisoned n \<and> \<not> en_done n) (en_poisoned n \<and> \<not> en_done n)
      (count_list (rg_destroyed r) e)"
      using ent_claim [OF ok assms(2,3)] live p by (simp add: n_def)
    show "rg_closed r \<longrightarrow> en_closing n \<and> (en_poisoned n \<longrightarrow> en_done n)" using inv_closed [OF assms(1) e] assms(2) by auto
  qed (use p live in \<open>auto simp: n_def\<close>)
qed

lemma step_ready:
  assumes "inv (r, add_mset (Awaiting e) T)" "en_ready (rg_heap r e)" "awaitReady c e r = (res, fin, r')"
  shows "inv (r', handed res + finishing e fin + T)"
proof (cases "\<exists>x. res = GotHandle x")
  case True
  with assms(3) have h: "res = GotHandle e" "\<not> en_closing (rg_heap r e)" "\<not> en_poisoned (rg_heap r e)"
    and r': "(fin, r') = takePoisonedDestroyLocked e (dropWaiterLocked e (upd e (\<lambda>n. n\<lparr>en_claimed := True, en_refs := en_refs n + 1\<rparr>) r))"
    by (auto simp: awaitReady_def finalizeLocked_def Let_def split: if_splits option.splits)
  let ?r1 = "upd e (\<lambda>n. n\<lparr>en_claimed := True, en_refs := en_refs n + 1\<rparr>) r"
  let ?n = "dropped (rg_heap r e\<lparr>en_claimed := True, en_refs := en_refs (rg_heap r e) + 1\<rparr>)"
  note claim = inv_claim [OF assms(1) h(2) assms(2)]
  have e: "e < rg_next r" by (rule inv_alloc [OF assms(1)]) simp
  have live: "in_map r e" using ent_live [OF entry_okD [OF inv_entry [OF assms(1) e]] h(2)] by simp
  have "dropWaiterLocked e ?r1 = becomes e (dropped (rg_heap ?r1 e)) ?r1"
    using drop_becomes(2) [OF assms(1)] live h(3) by (intro dropWaiter_eq) (auto simp: upd_def in_map_def)
  then have "dropWaiterLocked e ?r1 = becomes e ?n r" using becomes_upd [of "\<lambda>n. n\<lparr>en_claimed := True, en_refs := en_refs n + 1\<rparr>" r e ?n]
    by (simp add: upd_def)
  moreover have "\<not> takes ?n" "taken ?n = ?n" using claim(2) by (simp_all add: takes_def taken_def)
  ultimately show ?thesis using claim(1) r' h(1) by (simp add: takePoisoned_eq upd_becomes)
next
  case False
  with assms(3) have "(fin, r') = takePoisonedDestroyLocked e (dropWaiterLocked e r)" "handed res = {#}"
    by (auto simp: awaitReady_def finalizeLocked_def Let_def split: if_splits option.splits)
  then show ?thesis using inv_drop [OF assms(1)] by (simp add: drop_becomes(1) [OF assms(1)] takePoisoned_eq upd_becomes)
qed

lemma step_release:
  assumes "inv (r, add_mset (Holding e) T)" "releaseHandle e r = (fin, r')"
  shows "inv (r', finishing e fin + T)"
proof -
  have e: "e < rg_next r" by (rule inv_alloc [OF assms(1)]) simp
  let ?n = "rg_heap r e" and ?n' = "rg_heap r e\<lparr>en_refs := en_refs (rg_heap r e) - 1\<rparr>"
  have ok: "ent_ok ?n (count T (Awaiting e)) (Suc (count T (Holding e))) (count T (Opening e)) (count T (Finishing e))
     (owners T e) (in_map r e) (e \<in> rg_draining r) (count_list (rg_destroyed r) e)"
    using entry_okD [OF inv_entry [OF assms(1) e]] by simp
  then have "en_refs ?n \<noteq> 0" and m: "in_map r e = (\<not> en_poisoned ?n \<and> \<not> en_done ?n)" "(e \<in> rg_draining r) = (en_poisoned ?n \<and> \<not> en_done ?n)"
    by (simp_all add: ent_ok_def)
  then have fin: "fin = takes ?n'" "r' = becomes e (taken ?n') r"
    using assms(2) by (auto simp: releaseHandle_def takePoisoned_eq upd_def becomes_def)
  show ?thesis unfolding fin
  proof (rule inv_becomes [OF assms(1) e])
    show "ent_ok (taken ?n') (count (finishing e (takes ?n') + T) (Awaiting e)) (count (finishing e (takes ?n') + T) (Holding e))
      (count (finishing e (takes ?n') + T) (Opening e)) (count (finishing e (takes ?n') + T) (Finishing e)) (owners (finishing e (takes ?n') + T) e)
      (\<not> en_poisoned (taken ?n') \<and> \<not> en_done (taken ?n')) (en_poisoned (taken ?n') \<and> \<not> en_done (taken ?n')) (count_list (rg_destroyed r) e)"
      using ent_release [OF ok] m by (simp split: if_splits)
  qed (use inv_closed [OF assms(1) e] in auto)
qed

lemma ent_open:
  fixes doc :: "nat option" and err :: "rg_error option"
  assumes "ent_ok n w h (Suc p) f ow m d k"
  defines "n' \<equiv> n\<lparr>en_doc := doc, en_err := err, en_ready := True\<rparr>"
  shows "en_poisoned n \<Longrightarrow> ent_ok (taken n') w h p (f + (if takes n' then 1 else 0)) ow m d k"
    "\<not> en_poisoned n \<Longrightarrow> doc \<noteq> None \<Longrightarrow> err = None \<Longrightarrow> ent_ok n' w h p f ow m d k"
    "\<not> en_poisoned n \<Longrightarrow> err \<noteq> None \<Longrightarrow> ent_ok (n'\<lparr>en_closing := True, en_done := True\<rparr>) w h p f ow False d k"
    "\<not> en_poisoned n \<Longrightarrow> \<not> en_closing n"
  using assms by (auto simp: ent_ok_def n'_def taken_def takes_def split: if_splits)

lemma step_opened:
  assumes "inv (r, add_mset (Opening e) T)" "runOpen e doc err0 r = (fin, r')"
  shows "inv (r', finishing e fin + T)"
proof -
  have e: "e < rg_next r" by (rule inv_alloc [OF assms(1)]) simp
  let ?n = "rg_heap r e"
  define err where "err = (if err0 = None \<and> doc = None then Some RErrInvalidDocument else err0)"
  let ?n' = "?n\<lparr>en_doc := doc, en_err := err, en_ready := True\<rparr>"
  have ok: "ent_ok ?n (count T (Awaiting e)) (count T (Holding e)) (Suc (count T (Opening e))) (count T (Finishing e))
     (owners T e) (in_map r e) (e \<in> rg_draining r) (count_list (rg_destroyed r) e)"
    using entry_okD [OF inv_entry [OF assms(1) e]] by simp
  have nr: "\<not> en_ready ?n" by (rule ccontr) (use ok in \<open>simp add: ent_ok_def\<close>)
  have m: "in_map r e = (\<not> en_poisoned ?n \<and> \<not> en_done ?n)" "(e \<in> rg_draining r) = (en_poisoned ?n \<and> \<not> en_done ?n)"
    and nd: "\<not> en_done ?n" using ok nr unfolding ent_ok_def by blast+
  have r1: "closeReady e (upd e (\<lambda>n. n\<lparr>en_doc := doc, en_err := err\<rparr>) r) = becomes e ?n' r"
    using nr by (simp add: closeReady_def upd_def panic_if_def becomes_def)
  note cl = inv_closed [OF assms(1) e]
  consider "en_poisoned ?n" | "\<not> en_poisoned ?n" "err = None" | "\<not> en_poisoned ?n" "err \<noteq> None" by blast
  then show ?thesis
  proof cases
    case 1
    then have r': "fin = takes ?n'" "r' = becomes e (taken ?n') r"
      using assms(2) unfolding runOpen_def Let_def err_def [symmetric] r1 by (auto simp: takePoisoned_eq upd_becomes)
    show ?thesis unfolding r'
    proof (rule inv_becomes [OF assms(1) e])
      show "ent_ok (taken ?n') (count (finishing e (takes ?n') + T) (Awaiting e)) (count (finishing e (takes ?n') + T) (Holding e))
        (count (finishing e (takes ?n') + T) (Opening e)) (count (finishing e (takes ?n') + T) (Finishing e)) (owners (finishing e (takes ?n') + T) e)
        (\<not> en_poisoned (taken ?n') \<and> \<not> en_done (taken ?n')) (en_poisoned (taken ?n') \<and> \<not> en_done (taken ?n')) (count_list (rg_destroyed r) e)"
        using ent_open(1) [OF ok 1, of err doc] m by (simp split: if_splits)
    qed (use cl in auto)
  next
    case 2
    then have r': "fin = False" "r' = becomes e ?n' r" and doc: "doc \<noteq> None"
      using assms(2) unfolding runOpen_def Let_def err_def [symmetric] r1 by (auto simp: err_def split: if_splits)
    show ?thesis unfolding r'
    proof (rule inv_becomes [OF assms(1) e])
      show "ent_ok ?n' (count (finishing e False + T) (Awaiting e)) (count (finishing e False + T) (Holding e))
        (count (finishing e False + T) (Opening e)) (count (finishing e False + T) (Finishing e)) (owners (finishing e False + T) e)
        (\<not> en_poisoned ?n' \<and> \<not> en_done ?n') (en_poisoned ?n' \<and> \<not> en_done ?n') (count_list (rg_destroyed r) e)"
        using ent_open(2) [OF ok 2(1) doc 2(2)] m by simp
    qed (use cl in auto)
  next
    case 3
    then have r': "fin = False" "r' = closeDone e (deleteEntry e (upd e (\<lambda>n. n\<lparr>en_closing := True\<rparr>) (becomes e ?n' r)))"
      using assms(2) unfolding runOpen_def Let_def err_def [symmetric] r1 by auto
    have im: "map_of (rg_entries r) (en_key ?n) = Some e" using m(1) 3 nd by (simp add: in_map_def)
    have eff: "rg_heap r' = (rg_heap r)(e := ?n'\<lparr>en_closing := True, en_done := True\<rparr>)" "rg_entries r' = AList.delete (en_key ?n) (rg_entries r)"
      "rg_draining r' = rg_draining r" "rg_destroyed r' = rg_destroyed r" "rg_next r' = rg_next r" "rg_closed r' = rg_closed r" "rg_panic r' = rg_panic r"
      unfolding r'(2) using 3(1) nd im by (simp_all add: closeDone_def deleteEntry_def upd_def becomes_def panic_if_def)
    show ?thesis
    proof (rule inv_one [OF assms(1) e])
      have "in_map r' e = False" by (simp add: in_map_def eff delete_conv)
      then show "entry_ok r' (finishing e fin + T) e" unfolding entry_ok_def r'(1) eff
        using ent_open(3) [OF ok 3] by simp
      show "\<not> rg_panic r'" using assms(1) by (simp add: eff inv_def)
      show "rg_entries r' = rg_entries r \<or> in_map r e \<and> rg_entries r' = AList.delete (en_key ?n) (rg_entries r)"
        using im eff by (simp add: in_map_def)
    qed (use 3 r'(1) in \<open>auto simp: eff\<close>)
  qed
qed

lemma ent_invalidate:
  assumes "ent_ok n w h p f ow m d k" "\<not> en_closing n"
  defines "n' \<equiv> n\<lparr>en_closing := True, en_poisoned := True, en_openCancelled := True, en_invalidated := True\<rparr>"
  shows "ent_ok (taken n') w h p (f + (if takes n' then 1 else 0)) ow False True k"
  using assms by (auto simp: ent_ok_def n'_def taken_def takes_def split: if_splits)

lemma entries_in_map:
  assumes "inv (r, T)" "map_of (rg_entries r) ident = Some e"
  shows "e < rg_next r" "en_key (rg_heap r e) = ident" "in_map r e"
proof -
  have "(ident, e) \<in> set (rg_entries r)" using assms(2) by (rule map_of_SomeD)
  with assms(1) show "e < rg_next r" and k: "en_key (rg_heap r e) = ident" by (auto simp: inv_def)
  with assms(2) show "in_map r e" by (simp add: in_map_def)
qed

lemma step_invalidate:
  assumes "inv (r, T)" "invalidateLocked c ident r = (Inr (Some (e, fin)), r')"
  shows "inv (r', finishing e fin + T)"
proof -
  let ?n = "rg_heap r e"
  let ?n' = "?n\<lparr>en_closing := True, en_poisoned := True, en_openCancelled := True, en_invalidated := True\<rparr>"
  from assms(2) have id: "map_of (rg_entries r) ident = Some e" and nc: "\<not> en_closing ?n" and ncl: "\<not> rg_closed r"
    by (auto simp: invalidateLocked_def takePoisoned_eq Let_def split: if_splits option.splits)
  note e = entries_in_map [OF assms(1) id]
  note ok = entry_okD [OF inv_entry [OF assms(1) e(1)]]
  have ni: "\<not> en_poisoned ?n" "\<not> en_invalidated ?n" "\<not> en_done ?n" using ok nc by (auto simp: ent_ok_def)
  have r': "fin = takes ?n'" "r' = becomes e (taken ?n') r"
    using assms(2) id nc ncl ni e(2)
    by (auto simp: invalidateLocked_def takePoisoned_eq closeInvalidated_def upd_def panic_if_def becomes_def Let_def split: if_splits)
  show ?thesis unfolding r'
  proof (rule inv_becomes [OF assms(1) e(1)])
    show "ent_ok (taken ?n') (count (finishing e (takes ?n') + T) (Awaiting e)) (count (finishing e (takes ?n') + T) (Holding e))
      (count (finishing e (takes ?n') + T) (Opening e)) (count (finishing e (takes ?n') + T) (Finishing e)) (owners (finishing e (takes ?n') + T) e)
      (\<not> en_poisoned (taken ?n') \<and> \<not> en_done (taken ?n')) (en_poisoned (taken ?n') \<and> \<not> en_done (taken ?n')) (count_list (rg_destroyed r) e)"
      using ent_invalidate [OF ok nc] ni(3) by (simp split: if_splits)
  qed (use ncl ni in auto)
qed

lemma step_evict:
  assumes "inv (r, T)" "evictBegin ident r = (Inr (Some e), r')"
  shows "inv (r', add_mset (Evicting e) T)"
proof -
  let ?n = "rg_heap r e" and ?n' = "rg_heap r e\<lparr>en_closing := True\<rparr>"
  from assms(2) have id: "map_of (rg_entries r) ident = Some e" and n: "en_ready ?n" "en_refs ?n = 0" "\<not> en_closing ?n"
    and r': "r' = becomes e ?n' r"
    by (auto simp: evictBegin_def Let_def upd_def becomes_def split: if_splits option.splits)
  note e = entries_in_map [OF assms(1) id]
  note ok = entry_okD [OF inv_entry [OF assms(1) e(1)]]
  show ?thesis unfolding r'
  proof (rule inv_becomes [OF assms(1) e(1)])
    show "ent_ok ?n' (count (add_mset (Evicting e) T) (Awaiting e)) (count (add_mset (Evicting e) T) (Holding e))
      (count (add_mset (Evicting e) T) (Opening e)) (count (add_mset (Evicting e) T) (Finishing e)) (owners (add_mset (Evicting e) T) e)
      (\<not> en_poisoned ?n' \<and> \<not> en_done ?n') (en_poisoned ?n' \<and> \<not> en_done ?n') (count_list (rg_destroyed r) e)"
      using ok n by (auto simp: ent_ok_def simp del: count_greater_zero_iff)
  qed (use inv_closed [OF assms(1) e(1)] n in auto)
qed

lemma step_evicted:
  assumes "inv (r, add_mset (Evicting e) T)"
  shows "inv (evictEnd e r, T)"
proof -
  have e: "e < rg_next r" by (rule inv_alloc [OF assms]) simp
  let ?n = "rg_heap r e"
  have ok: "ent_ok ?n (count T (Awaiting e)) (count T (Holding e)) (count T (Opening e)) (count T (Finishing e))
     (Suc (owners T e)) (in_map r e) (e \<in> rg_draining r) (count_list (rg_destroyed r) e)"
    using entry_okD [OF inv_entry [OF assms e]] by simp
  then have n: "en_closing ?n" "\<not> en_poisoned ?n" "\<not> en_done ?n" "in_map r e" "en_doc ?n \<noteq> None" by (auto simp: ent_ok_def split: if_splits)
  have eff: "rg_heap (evictEnd e r) = (rg_heap r)(e := ?n\<lparr>en_done := True\<rparr>)" "rg_entries (evictEnd e r) = AList.delete (en_key ?n) (rg_entries r)"
    "rg_draining (evictEnd e r) = rg_draining r" "rg_destroyed (evictEnd e r) = rg_destroyed r @ [e]" "rg_next (evictEnd e r) = rg_next r"
    "rg_closed (evictEnd e r) = rg_closed r" "rg_panic (evictEnd e r) = rg_panic r"
    using n(3-5) by (auto simp: evictEnd_def reg_defs in_map_def)
  show ?thesis
  proof (rule inv_one [OF assms e])
    have "in_map (evictEnd e r) e = False" by (simp add: in_map_def eff delete_conv)
    then show "entry_ok (evictEnd e r) T e" unfolding entry_ok_def eff
      using ok n by (auto simp: ent_ok_def simp del: count_greater_zero_iff)
    show "\<not> rg_panic (evictEnd e r)" using assms by (simp add: eff inv_def)
  qed (use n inv_closed [OF assms e] in \<open>auto simp: eff\<close>)
qed

lemma step_join:
  assumes "inv (r, T)" "acquireLocked c ident r = (AcqJoin e, r')"
  shows "inv (r', add_mset (Awaiting e) T)"
proof -
  let ?n = "rg_heap r e" and ?n' = "rg_heap r e\<lparr>en_waiters := en_waiters (rg_heap r e) + 1\<rparr>"
  from assms(2) have id: "map_of (rg_entries r) ident = Some e" and n: "\<not> en_closing ?n" "\<not> rg_closed r" and r': "r' = becomes e ?n' r"
    by (auto simp: acquireLocked_def Let_def upd_def becomes_def split: if_splits option.splits)
  note e = entries_in_map [OF assms(1) id]
  note ok = entry_okD [OF inv_entry [OF assms(1) e(1)]]
  show ?thesis unfolding r'
  proof (rule inv_becomes [OF assms(1) e(1)])
    show "ent_ok ?n' (count (add_mset (Awaiting e) T) (Awaiting e)) (count (add_mset (Awaiting e) T) (Holding e))
      (count (add_mset (Awaiting e) T) (Opening e)) (count (add_mset (Awaiting e) T) (Finishing e)) (owners (add_mset (Awaiting e) T) e)
      (\<not> en_poisoned ?n' \<and> \<not> en_done ?n') (en_poisoned ?n' \<and> \<not> en_done ?n') (count_list (rg_destroyed r) e)"
      using ok n by (auto simp: ent_ok_def simp del: count_greater_zero_iff)
  qed (use n in auto)
qed

lemma step_create:
  assumes inv: "inv (r, T)" and a: "acquireLocked c ident r = (AcqCreated e, r')"
  shows "inv (r', add_mset (Opening e) (add_mset (Awaiting e) T))"
proof -
  let ?T = "add_mset (Opening e) (add_mset (Awaiting e) T)"
  from a have e: "e = rg_next r" and id: "map_of (rg_entries r) ident = None" and nc: "\<not> rg_closed r" and
    r': "r' = r\<lparr>rg_heap := (rg_heap r)(e := newEntry ident), rg_next := e + 1, rg_entries := (ident, e) # rg_entries r\<rparr>"
    by (auto simp: acquireLocked_def Let_def split: if_splits option.splits)
  have b: "blank r T e" using inv e by (simp add: inv_def)
  have old: "entry_ok r' ?T x" if "x < e" for x
  proof -
    have "entry_ok r T x" using that inv e by (simp add: inv_def)
    moreover have "in_map r' x = in_map r x" using that id by (auto simp: in_map_def r')
    moreover have "rg_heap r' x = rg_heap r x" using that by (simp add: r')
    moreover have "owners ?T x = owners T x" by simp
    ultimately show ?thesis using that by (simp add: entry_ok_def r')
  qed
  have "in_map r' e" by (simp add: in_map_def r' newEntry_def)
  then have "entry_ok r' ?T e" using b by (simp add: entry_ok_def ent_ok_def blank_def owners_def r' newEntry_def)
  with old have "\<forall>x < rg_next r'. entry_ok r' ?T x" by (auto simp: r' less_Suc_eq)
  moreover have "\<forall>x \<ge> rg_next r'. blank r' ?T x" using inv e by (auto simp: inv_def blank_def r')
  moreover have "distinct (map fst (rg_entries r'))" using inv id by (auto simp: inv_def r' map_of_eq_None_iff)
  moreover have "\<forall>(k, x) \<in> set (rg_entries r'). x < rg_next r' \<and> en_key (rg_heap r' x) = k"
    using inv e by (fastforce simp: inv_def r' newEntry_def)
  moreover have "closing_ok r' ?T"
  proof -
    have "closing_ok r T" using inv by (simp add: inv_def)
    then have "Closing es \<notin># T" for es using nc by (auto simp: closing_ok_def)
    then show ?thesis using nc by (simp add: closing_ok_def r')
  qed
  ultimately show ?thesis using inv by (simp add: inv_def r')
qed

lemma distinct_snd: "distinct (map fst xs) \<Longrightarrow> (\<forall>(k, e) \<in> set xs. f e = k) \<Longrightarrow> distinct (map snd xs)"
  by (induction xs) (auto, force)

lemma closing_fold:
  "foldl (\<lambda>r e. upd e (\<lambda>n. n\<lparr>en_closing := True\<rparr>) r) r es =
     r\<lparr>rg_heap := (\<lambda>x. if x \<in> set es then rg_heap r x\<lparr>en_closing := True\<rparr> else rg_heap r x)\<rparr>"
  by (induction es arbitrary: r) (auto simp: upd_def fun_eq_iff)

lemma closeBegin_ok:
  assumes "\<not> rg_closed r" "closeBegin r = (Inr es, r')"
  shows "es = map snd (rg_entries r)" "rg_draining r = {}"
    "\<And>e. e \<in> set es \<Longrightarrow> en_ready (rg_heap r e) \<and> en_refs (rg_heap r e) = 0 \<and> \<not> en_closing (rg_heap r e)"
    "r' = r\<lparr>rg_closed := True, rg_heap := (\<lambda>x. if x \<in> set es then rg_heap r x\<lparr>en_closing := True\<rparr> else rg_heap r x)\<rparr>"
proof -
  have l: "\<not> list_ex (\<lambda>(ident, e). let n = rg_heap r e in \<not> en_ready n \<or> en_refs n \<noteq> 0 \<or> en_closing n) (rg_entries r)" "rg_draining r = {}"
    and es: "es = map snd (rg_entries r)"
    and r': "r' = foldl (\<lambda>r e. upd e (\<lambda>n. n\<lparr>en_closing := True\<rparr>) r) (r\<lparr>rg_closed := True\<rparr>) es"
    using assms by (auto simp: closeBegin_def split: if_splits)
  show "es = map snd (rg_entries r)" "rg_draining r = {}" by fact+
  show "en_ready (rg_heap r e) \<and> en_refs (rg_heap r e) = 0 \<and> \<not> en_closing (rg_heap r e)" if "e \<in> set es" for e
    using l(1) that by (auto simp: es list_ex_iff Let_def)
  show "r' = r\<lparr>rg_closed := True, rg_heap := (\<lambda>x. if x \<in> set es then rg_heap r x\<lparr>en_closing := True\<rparr> else rg_heap r x)\<rparr>"
    unfolding r' closing_fold by (simp cong: if_cong)
qed

lemma step_close:
  assumes inv: "inv (r, T)" and nc: "\<not> rg_closed r" and cb: "closeBegin r = (Inr es, r')"
  shows "inv (r', add_mset (Closing es) T)"
proof -
  let ?T = "add_mset (Closing es) T"
  note b = closeBegin_ok [OF nc cb]
  have no: "Closing xs \<notin># T" for xs using inv nc by (auto simp: inv_def closing_ok_def)
  then have cl: "cl ?T x = (x \<in> set es)" "\<not> cl T x" for x by (auto simp: cl_def)
  have ent: "(k, x) \<in> set (rg_entries r) \<Longrightarrow> x < rg_next r \<and> en_key (rg_heap r x) = k" for k x using inv by (auto simp: inv_def)
  have mem: "x \<in> set es \<longleftrightarrow> in_map r x" for x
  proof
    assume "x \<in> set es"
    then obtain k where "(k, x) \<in> set (rg_entries r)" by (auto simp: b(1))
    with ent inv show "in_map r x" by (auto simp: in_map_def inv_def map_of_is_SomeI)
  qed (auto simp: in_map_def b(1) dest: map_of_SomeD intro: rev_image_eqI)
  have ok: "entry_ok r' ?T x" if "x < rg_next r" for x
  proof -
    note o = entry_okD [OF inv_entry [OF inv that]]
    have m: "in_map r' x = in_map r x" by (simp add: in_map_def b(4))
    show ?thesis
    proof (cases "x \<in> set es")
      case True
      then show ?thesis using o b(3) [OF True] cl mem m unfolding entry_ok_def
        by (auto simp: b(4) ent_ok_def owners_def simp del: count_greater_zero_iff)
    next
      case False
      then have "owners ?T x = owners T x" using cl by (simp add: owners_def)
      then show ?thesis using o False m unfolding entry_ok_def by (simp add: b(4))
    qed
  qed
  have closed: "en_closing (rg_heap r' x) \<and> (en_poisoned (rg_heap r' x) \<longrightarrow> en_done (rg_heap r' x))" if "x < rg_next r" for x
    using entry_okD [OF ok [OF that]] mem [of x] b(2) by (auto simp: ent_ok_def b(4) in_map_def)
  have d: "distinct es" unfolding b(1) by (rule distinct_snd [of _ "\<lambda>e. en_key (rg_heap r e)"]) (use inv in \<open>auto simp: inv_def\<close>)
  have "count T (Closing es) = 0" using no [of es] by (simp add: not_in_iff)
  then have "closing_ok r' ?T" using no closed d by (auto simp: closing_ok_def b(4))
  moreover have "\<forall>x \<ge> rg_next r'. blank r' ?T x"
  proof (intro allI impI)
    fix x assume "rg_next r' \<le> x"
    then have "rg_next r \<le> x" by (simp add: b(4))
    moreover from this have "x \<notin> set es" using ent by (auto simp: b(1) not_le [symmetric])
    ultimately show "blank r' ?T x" using inv cl by (auto simp: inv_def blank_def b(4))
  qed
  ultimately show ?thesis using inv ok by (auto simp: inv_def b(4))
qed

lemma destroy_fold:
  "(\<forall>e \<in> set es. en_doc (rg_heap r e) \<noteq> None) \<Longrightarrow>
   foldl (\<lambda>r e. destroyDoc e (panic_if (en_doc (rg_heap r e) = None) r)) r es = r\<lparr>rg_destroyed := rg_destroyed r @ es\<rparr>"
proof (induction es arbitrary: r)
  case (Cons e es)
  then have "destroyDoc e (panic_if (en_doc (rg_heap r e) = None) r) = r\<lparr>rg_destroyed := rg_destroyed r @ [e]\<rparr>"
    by (auto simp: destroyDoc_def panic_if_def)
  then have "foldl (\<lambda>r e. destroyDoc e (panic_if (en_doc (rg_heap r e) = None) r)) r (e # es) =
      foldl (\<lambda>r e. destroyDoc e (panic_if (en_doc (rg_heap r e) = None) r)) (r\<lparr>rg_destroyed := rg_destroyed r @ [e]\<rparr>) es"
    by (simp only: foldl_Cons)
  also have "\<dots> = r\<lparr>rg_destroyed := rg_destroyed r @ e # es\<rparr>"
    using Cons.IH [of "r\<lparr>rg_destroyed := rg_destroyed r @ [e]\<rparr>"] Cons.prems by simp
  finally show ?case .
qed simp

lemma map_of_filter_key: "map_of (filter (\<lambda>kv. fst kv \<notin> K) xs) k = (if k \<in> K then None else map_of xs k)"
  by (induction xs) auto

lemma done_fold:
  assumes "distinct es" "\<forall>e \<in> set es. \<not> en_done (rg_heap r e) \<and> in_map r e"
  shows "foldl (\<lambda>r e. closeDone e (deleteEntry e r)) r es =
    r\<lparr>rg_heap := (\<lambda>x. if x \<in> set es then rg_heap r x\<lparr>en_done := True\<rparr> else rg_heap r x),
      rg_entries := filter (\<lambda>kv. fst kv \<notin> (\<lambda>e. en_key (rg_heap r e)) ` set es) (rg_entries r)\<rparr>"
  using assms
proof (induction es arbitrary: r)
  case (Cons e es)
  let ?r = "closeDone e (deleteEntry e r)"
  have r: "?r = r\<lparr>rg_heap := (rg_heap r)(e := rg_heap r e\<lparr>en_done := True\<rparr>), rg_entries := AList.delete (en_key (rg_heap r e)) (rg_entries r)\<rparr>"
    using Cons.prems by (simp add: closeDone_def deleteEntry_def panic_if_def upd_def in_map_def)
  have "\<not> en_done (rg_heap ?r x) \<and> in_map ?r x" if "x \<in> set es" for x
  proof -
    have "x \<noteq> e" "in_map r x" "in_map r e" "\<not> en_done (rg_heap r x)" using that Cons.prems by auto
    then have "en_key (rg_heap r x) \<noteq> en_key (rg_heap r e)" unfolding in_map_def by (metis option.inject)
    with \<open>x \<noteq> e\<close> \<open>in_map r x\<close> \<open>\<not> en_done (rg_heap r x)\<close> show ?thesis by (simp add: r in_map_def delete_conv)
  qed
  with Cons.IH [of ?r] Cons.prems have "foldl (\<lambda>r e. closeDone e (deleteEntry e r)) r (e # es) =
    ?r\<lparr>rg_heap := (\<lambda>x. if x \<in> set es then rg_heap ?r x\<lparr>en_done := True\<rparr> else rg_heap ?r x),
      rg_entries := filter (\<lambda>kv. fst kv \<notin> (\<lambda>e. en_key (rg_heap ?r e)) ` set es) (rg_entries ?r)\<rparr>" by simp
  moreover have "(\<lambda>e. en_key (rg_heap ?r e)) ` set es = (\<lambda>e. en_key (rg_heap r e)) ` set es" by (auto simp: r)
  moreover have "(\<lambda>x. if x \<in> set es then rg_heap ?r x\<lparr>en_done := True\<rparr> else rg_heap ?r x) =
      (\<lambda>x. if x \<in> set (e # es) then rg_heap r x\<lparr>en_done := True\<rparr> else rg_heap r x)" using Cons.prems(1) by (auto simp: r fun_eq_iff)
  moreover have "filter (\<lambda>kv. fst kv \<notin> (\<lambda>e. en_key (rg_heap r e)) ` set es) (rg_entries ?r) =
      filter (\<lambda>kv. fst kv \<notin> (\<lambda>e. en_key (rg_heap r e)) ` set (e # es)) (rg_entries r)"
    by (auto simp: r AList.delete_eq intro!: filter_cong)
  ultimately show ?case by (simp only: r) simp
qed simp

lemma step_closed:
  assumes inv: "inv (r, add_mset (Closing es) T)"
  shows "inv (closeEnd es r, T)"
proof -
  let ?T = "add_mset (Closing es) T" and ?K = "(\<lambda>e. en_key (rg_heap r e)) ` set es"
  have c: "closing_ok r ?T" using inv by (simp add: inv_def)
  then have d: "distinct es" "rg_closed r" and one: "count T (Closing es) = 0" and only: "\<And>xs. Closing xs \<in># T \<Longrightarrow> xs = es"
    by (auto simp: closing_ok_def)
  from one only have no: "Closing xs \<notin># T" for xs by (metis not_in_iff)
  then have cl: "cl ?T x = (x \<in> set es)" "\<not> cl T x" for x by (auto simp: cl_def)
  have blank: "x \<notin> set es" if "rg_next r \<le> x" for x using inv cl that by (auto simp: inv_def blank_def)
  have n: "\<not> en_done (rg_heap r x) \<and> in_map r x \<and> en_doc (rg_heap r x) \<noteq> None \<and> en_ready (rg_heap r x) \<and> \<not> en_poisoned (rg_heap r x)"
    if "x \<in> set es" for x
  proof -
    have "x < rg_next r" using blank that by (meson not_le)
    from entry_okD [OF inv_entry [OF inv this]] have "ent_ok (rg_heap r x) (count T (Awaiting x)) (count T (Holding x)) (count T (Opening x))
      (count T (Finishing x)) (Suc (count T (Evicting x))) (in_map r x) (x \<in> rg_draining r) (count_list (rg_destroyed r) x)"
      using that cl by (simp add: owners_def)
    then show ?thesis by (auto simp: ent_ok_def split: if_splits)
  qed
  have r': "closeEnd es r = r\<lparr>rg_destroyed := rg_destroyed r @ es, rg_heap := (\<lambda>x. if x \<in> set es then rg_heap r x\<lparr>en_done := True\<rparr> else rg_heap r x),
      rg_entries := filter (\<lambda>kv. fst kv \<notin> ?K) (rg_entries r)\<rparr>"
    unfolding closeEnd_def using n d(1) by (simp add: destroy_fold done_fold in_map_def cong: if_cong)
  have ok: "entry_ok (closeEnd es r) T x" if "x < rg_next r" for x
  proof -
    note o = entry_okD [OF inv_entry [OF inv that]]
    have dst: "count_list (rg_destroyed r @ es) x = count_list (rg_destroyed r) x + (if x \<in> set es then 1 else 0)"
      using d(1) by (induction es) auto
    show ?thesis
    proof (cases "x \<in> set es")
      case True
      then have "\<not> in_map (closeEnd es r) x" by (auto simp: in_map_def r' map_of_filter_key)
      then show ?thesis using o n [OF True] True cl dst unfolding entry_ok_def
        by (auto simp: r' ent_ok_def owners_def split: if_splits simp del: count_greater_zero_iff)
    next
      case False
      have "in_map (closeEnd es r) x = in_map r x"
        using False n by (auto simp: in_map_def r' map_of_filter_key)
      moreover have "owners ?T x = owners T x" using cl False by (simp add: owners_def)
      ultimately show ?thesis using o False dst unfolding entry_ok_def by (simp add: r')
    qed
  qed
  have "\<forall>x \<ge> rg_next r. blank (closeEnd es r) T x"
    using inv blank cl by (auto simp: inv_def blank_def r')
  moreover have "closing_ok (closeEnd es r) T" using c no by (auto simp: closing_ok_def r')
  moreover have "distinct (map fst (filter (\<lambda>kv. fst kv \<notin> ?K) (rg_entries r)))" using inv by (simp add: inv_def distinct_map_filter)
  ultimately show ?thesis using inv ok by (auto simp: inv_def r')
qed

lemma step_inv: "step c c' \<Longrightarrow> inv c \<Longrightarrow> inv c'"
  by (induction rule: step.induct)
    (blast intro: step_join step_create step_ready step_cancelled step_opened step_release step_finish step_invalidate
      step_evict step_evicted step_close step_closed)+

lemma reachable_inv: "reachable c \<Longrightarrow> inv c"
proof (induction rule: reachable.induct)
  case start
  show ?case by (simp add: inv_def NewRegistry_def blank_def cl_def closing_ok_def)
next
  case (move c c')
  then show ?case using step_inv by blast
qed

section \<open>Properties\<close>

lemma held:
  assumes "inv (r, T)" "Holding e \<in># T"
  shows "e < rg_next r" "en_refs (rg_heap r e) > 0"
proof -
  show e: "e < rg_next r"
  proof (rule ccontr)
    assume "\<not> e < rg_next r"
    then have "blank r T e" using assms(1) by (simp add: inv_def)
    then show False using assms(2) by (auto simp: blank_def count_eq_zero_iff)
  qed
  show "en_refs (rg_heap r e) > 0" using entry_okD [OF inv_entry [OF assms(1) e]] assms(2) by (simp add: ent_ok_def)
qed

text \<open>
  Claim C11. In every interleaving of acquisitions, releases, invalidations, evictions and closing: no channel is closed twice and no
  reference is released twice; a document that somebody holds exists, has not been destroyed, and nobody is about to destroy it; no
  document is destroyed twice; and two holders of the same document id whose handles are not done hold the same instance, the one
  the registry hands out.
\<close>

theorem registry_safe:
  assumes "reachable (r, T)"
  shows "\<not> rg_panic r \<and> (\<forall>e. count_list (rg_destroyed r) e \<le> 1) \<and>
    (\<forall>e. Holding e \<in># T \<longrightarrow> en_doc (rg_heap r e) \<noteq> None \<and> e \<notin> set (rg_destroyed r) \<and> Finishing e \<notin># T \<and> Evicting e \<notin># T \<and>
       (\<forall>es. Closing es \<in># T \<longrightarrow> e \<notin> set es) \<and>
       (\<not> en_invalidated (rg_heap r e) \<longrightarrow> map_of (rg_entries r) (en_key (rg_heap r e)) = Some e)) \<and>
    (\<forall>e e'. Holding e \<in># T \<longrightarrow> Holding e' \<in># T \<longrightarrow> en_key (rg_heap r e) = en_key (rg_heap r e') \<longrightarrow>
       \<not> en_invalidated (rg_heap r e) \<longrightarrow> \<not> en_invalidated (rg_heap r e') \<longrightarrow> e = e')"
proof -
  have i: "inv (r, T)" by (rule reachable_inv [OF assms])
  have dst: "count_list (rg_destroyed r) e \<le> 1" for e
  proof (cases "e < rg_next r")
    case True
    then show ?thesis using entry_okD [OF inv_entry [OF i True]] by (auto simp: ent_ok_def)
  qed (use i in \<open>auto simp: inv_def blank_def\<close>)
  have h: "en_doc (rg_heap r e) \<noteq> None \<and> e \<notin> set (rg_destroyed r) \<and> Finishing e \<notin># T \<and> Evicting e \<notin># T \<and>
       (\<forall>es. Closing es \<in># T \<longrightarrow> e \<notin> set es) \<and>
       (\<not> en_invalidated (rg_heap r e) \<longrightarrow> map_of (rg_entries r) (en_key (rg_heap r e)) = Some e)" if "Holding e \<in># T" for e
  proof -
    note e = held [OF i that]
    have n: "\<not> en_done (rg_heap r e)" "en_doc (rg_heap r e) \<noteq> None" "count_list (rg_destroyed r) e = 0" "count T (Finishing e) = 0" "owners T e = 0"
      "\<not> en_invalidated (rg_heap r e) \<longrightarrow> in_map r e"
      using entry_okD [OF inv_entry [OF i e(1)]] e(2) by (auto simp: ent_ok_def)
    from n(5) have "count T (Evicting e) = 0" "\<not> cl T e" by (auto simp: owners_def split: if_splits)
    then show ?thesis using n by (auto simp: cl_def in_map_def count_eq_zero_iff count_list_0_iff)
  qed
  have u: "e = e'" if "Holding e \<in># T" "Holding e' \<in># T" "en_key (rg_heap r e) = en_key (rg_heap r e')"
      "\<not> en_invalidated (rg_heap r e)" "\<not> en_invalidated (rg_heap r e')" for e e'
  proof -
    have "map_of (rg_entries r) (en_key (rg_heap r e)) = Some e" using h [OF that(1)] that(4) by blast
    moreover have "map_of (rg_entries r) (en_key (rg_heap r e)) = Some e'" using h [OF that(2)] that(3,5) by metis
    ultimately show ?thesis by simp
  qed
  have "\<not> rg_panic r" using i by (simp add: inv_def)
  with dst h u show ?thesis by (intro conjI allI impI; blast)
qed

text \<open>A concrete run: the document \<open>a\<close> is acquired, opened, held by one caller, and released.\<close>

definition run_open :: registry where
  "run_open = snd (acquireLocked False [97] NewRegistry)"

definition run_ready :: registry where
  "run_ready = snd (runOpen 0 (Some 7) None run_open)"

definition run_held :: registry where
  "run_held = snd (snd (awaitReady False 0 run_ready))"

definition run_free :: registry where
  "run_free = snd (releaseHandle 0 run_held)"

definition run_closed :: registry where
  "run_closed = closeEnd [0] (snd (closeBegin run_free))"

lemmas run_defs = run_open_def run_ready_def run_held_def run_free_def run_closed_def acquireLocked_def NewRegistry_def newEntry_def runOpen_def awaitReady_def
  finalizeLocked_def releaseHandle_def closeBegin_def closeEnd_def reg_defs

lemma run_held_reachable: "reachable (run_held, {#Holding 0#})"
proof -
  have "step (NewRegistry, {#}) (run_open, add_mset (Opening 0) (add_mset (Awaiting 0) {#}))"
    by (rule step.create [of False "[97]"]) (simp add: run_defs)
  then have 1: "reachable (run_open, add_mset (Opening 0) {#Awaiting 0#})" using reachable.intros by blast
  have "step (run_open, add_mset (Opening 0) {#Awaiting 0#}) (run_ready, finishing 0 False + {#Awaiting 0#})"
    by (rule step.opened [of _ "Some 7" None]) (simp add: run_defs)
  then have 2: "reachable (run_ready, {#Awaiting 0#})" using 1 reachable.move by fastforce
  have "step (run_ready, add_mset (Awaiting 0) {#}) (run_held, handed (GotHandle 0) + finishing 0 False + {#})"
    by (rule step.ready [of _ _ False]) (simp_all add: run_defs)
  then show ?thesis using 2 reachable.move by fastforce
qed

lemma run_free_reachable: "reachable (run_free, {#})"
proof -
  have "step (run_held, add_mset (Holding 0) {#}) (run_free, finishing 0 False + {#})"
    by (rule step.release) (simp add: run_defs)
  then show ?thesis using run_held_reachable reachable.move by fastforce
qed

lemma run_closed_reachable: "reachable (run_closed, {#})"
proof -
  have "step (run_free, {#}) (snd (closeBegin run_free), add_mset (Closing [0]) {#})"
    by (rule step.close) (simp_all add: run_defs)
  then have "reachable (snd (closeBegin run_free), add_mset (Closing [0]) {#})" using run_free_reachable reachable.move by blast
  moreover have "step (snd (closeBegin run_free), add_mset (Closing [0]) {#}) (run_closed, {#})"
    using step.closed [of "snd (closeBegin run_free)" "[0]" "{#}"] by (simp only: run_closed_def)
  ultimately show ?thesis using reachable.move by blast
qed

theorem registry_safe_witness:
  "reachable (run_held, {#Holding 0#}) \<and> en_doc (rg_heap run_held 0) = Some 7 \<and> 0 \<notin> set (rg_destroyed run_held) \<and>
   map_of (rg_entries run_held) [97] = Some 0"
  using registry_safe [OF run_held_reachable] run_held_reachable by (simp add: run_defs)

lemma quiet_entry:
  assumes "inv (r, {#})" "e < rg_next r"
  shows "en_ready (rg_heap r e)" "en_refs (rg_heap r e) = 0" "en_closing (rg_heap r e) = en_done (rg_heap r e)"
    "e \<notin> rg_draining r" "in_map r e = (\<not> en_done (rg_heap r e))"
    "en_done (rg_heap r e) \<Longrightarrow> en_doc (rg_heap r e) \<noteq> None \<Longrightarrow> en_err (rg_heap r e) = None \<Longrightarrow> count_list (rg_destroyed r) e = 1"
proof -
  have "ent_ok (rg_heap r e) 0 0 0 0 0 (in_map r e) (e \<in> rg_draining r) (count_list (rg_destroyed r) e)"
    using inv_entry [OF assms] by (simp add: entry_ok_def owners_def cl_def)
  then show "en_ready (rg_heap r e)" "en_refs (rg_heap r e) = 0" "en_closing (rg_heap r e) = en_done (rg_heap r e)"
    "e \<notin> rg_draining r" "in_map r e = (\<not> en_done (rg_heap r e))"
    "en_done (rg_heap r e) \<Longrightarrow> en_doc (rg_heap r e) \<noteq> None \<Longrightarrow> en_err (rg_heap r e) = None \<Longrightarrow> count_list (rg_destroyed r) e = 1"
    by (auto simp: ent_ok_def split: if_splits)
qed

lemma quiet_mapped:
  assumes "inv (r, {#})" "(k, e) \<in> set (rg_entries r)"
  shows "e < rg_next r \<and> \<not> en_done (rg_heap r e)"
proof -
  have e: "e < rg_next r" "en_key (rg_heap r e) = k" using assms by (auto simp: inv_def)
  have "in_map r e" using assms e by (auto simp: in_map_def inv_def)
  then show ?thesis using quiet_entry(5) [OF assms(1) e(1)] e by simp
qed

text \<open>
  Claim C12. The registry drains: once every caller has returned, the open registry can be closed, and when it has been closed no
  document id is registered, every generation ever created has ended, and each document that was opened has been
  destroyed exactly once.
\<close>

theorem registry_quiescent:
  assumes "reachable (r, {#})"
  shows "(\<not> rg_closed r \<longrightarrow> fst (closeBegin r) = Inr (map snd (rg_entries r))) \<and>
    (rg_closed r \<longrightarrow> rg_entries r = [] \<and> rg_draining r = {} \<and>
      (\<forall>e < rg_next r. en_done (rg_heap r e) \<and>
        (en_doc (rg_heap r e) \<noteq> None \<and> en_err (rg_heap r e) = None \<longrightarrow> count_list (rg_destroyed r) e = 1)))"
proof -
  have i: "inv (r, {#})" by (rule reachable_inv [OF assms])
  have b: "e \<notin> rg_draining r" for e
  proof (cases "e < rg_next r")
    case False
    then show ?thesis using i by (simp add: inv_def blank_def)
  qed (use quiet_entry(4) [OF i] in blast)
  have "fst (closeBegin r) = Inr (map snd (rg_entries r))" if "\<not> rg_closed r"
    using that b quiet_mapped [OF i] quiet_entry(1,2,3) [OF i] by (auto simp: closeBegin_def list_ex_iff Let_def)
  moreover have "en_done (rg_heap r e)" if "rg_closed r" "e < rg_next r" for e
    using quiet_entry(3) [OF i that(2)] inv_closed [OF i that(2,1)] by blast
  moreover have "rg_entries r = []" if "rg_closed r"
    using calculation(2) [OF that] quiet_mapped [OF i] by (metis list.set_intros(1) neq_Nil_conv surj_pair)
  ultimately show ?thesis using b quiet_entry(6) [OF i] by auto
qed

theorem registry_quiescent_witness:
  "reachable (run_closed, {#}) \<and> rg_closed run_closed \<and> rg_entries run_closed = [] \<and> rg_destroyed run_closed = [0]"
  using registry_quiescent [OF run_closed_reachable] run_closed_reachable by (simp add: run_defs)

text \<open>
  Two comments of the code say that closing the registry leaves no open context alive. It does: the context of a generation that was ever claimed
  is cancelled by nobody, neither by its last departing waiter nor by \<^verbatim>\<open>Close\<close>.
\<close>

theorem close_leaves_open_context:
  "reachable (run_closed, {#}) \<and> rg_closed run_closed \<and> en_done (rg_heap run_closed 0) \<and> \<not> en_openCancelled (rg_heap run_closed 0)"
  using run_closed_reachable by (simp add: run_defs)

end
