(* ===== verification/Spec2Isabelle.thy ===== *)
theory Spec2Isabelle
  imports StringCodec Protocol Convergence Splitting Deletion Applying UpdateDiff Registry
begin

text \<open>
  A verification development for \<^verbatim>\<open>go-yjs\<close>, a Go implementation of the Yjs CRDT: shared documents that are edited on several replicas at the
  same time, exchange binary updates and converge.

  \<^bold>\<open>The program and its parts.\<close> A document (\<^verbatim>\<open>crdt/\<close>) is a store of structs, one sequence per client in clock order. A struct is an item (a run of content
  with a position relative to its neighbours), a collected run or a gap. Local edits and remote updates integrate items into the lists of the shared
  types; deletions only mark items and are kept in delete sets. Updates, state vectors and delete sets travel in two wire formats, V1 (plain
  varints) and V2 (one run-length column per field), over the primitives of \<^verbatim>\<open>internal/lib0/\<close>. Awareness states travel beside the document. The package
  \<^verbatim>\<open>protocol/\<close> wraps all of it into messages, and \<^verbatim>\<open>backend/\<close> holds the live documents of a server and fans messages out.

  \<^bold>\<open>Conventions\<close> (theory \<open>Prelude\<close>). Go's \<^verbatim>\<open>int\<close> is an \<open>int\<close> in the 64-bit range with \<open>wrap64\<close> where it can wrap, \<^verbatim>\<open>uint64\<close> and \<^verbatim>\<open>byte\<close> are words, strings
  and byte slices are byte lists. A function with an error result returns a sum; a reader also returns the bytes it leaves, on errors too. Pointers
  between items are indices into an explicit heap. A definition has the name of the function it translates; where several Go methods
  share a name, a prefix names the receiver (\<open>rle_\<close>, \<open>uint_\<close>, \<open>int_\<close>, \<open>string_\<close>, \<open>v1_\<close>, \<open>v2_\<close>, \<open>fast_\<close>, \<open>obj_\<close>).

  \<^bold>\<open>Theories, code and results.\<close>

  \<^item> \<open>Lib0\<close>: \<^verbatim>\<open>internal/lib0/codec.go\<close>, \<^verbatim>\<open>crdt/encoding.go\<close>, \<^verbatim>\<open>decoding.go\<close>, \<^verbatim>\<open>codec_varint.go\<close>, the number bounds of \<^verbatim>\<open>merge.go\<close>. Varints, strings and
    byte arrays round-trip; the unrolled writers write the same bytes as the loops; the signed reader silently drops bits of some ten-byte inputs.
  \<^item> \<open>ColumnCodecs\<close>, \<open>StringCodec\<close>: \<^verbatim>\<open>rle_codec.go\<close>, \<^verbatim>\<open>uint_opt_rle_codec.go\<close>, \<^verbatim>\<open>int_diff_opt_rle_codec.go\<close>, \<^verbatim>\<open>string_codec.go\<close>. The locale
    \<open>column_codec\<close> is the contract of a column (what is written is delivered, one value after the other); every codec interprets it.
  \<^item> \<open>DeleteSet\<close>, \<open>DeleteSetCodec\<close>: \<^verbatim>\<open>delete_set.go\<close> and the delete-set parts of the encoders and decoders. Normalisation is a normal form of the deleted set,
    union commutes, lookups by binary search are exact, all three wire encodings round-trip over the locales \<open>ds_codec\<close> and \<open>ds_reader\<close>, and decoded
    ranges are bounded.
  \<^item> \<open>Utf\<close>: \<^verbatim>\<open>utf8_text.go\<close> and the string helpers of \<^verbatim>\<open>utils.go\<close>, against a specification by code points and UTF-16 units.
  \<^item> \<open>OrderedObject\<close>, \<open>AnyCodec\<close>, \<open>JsonText\<close>: \<^verbatim>\<open>Object\<close> of \<^verbatim>\<open>type_define.go\<close> refines an association list (locale \<open>ordered_map\<close>); the any-value codec of
    \<^verbatim>\<open>encoding.go\<close> and \<^verbatim>\<open>decoding.go\<close> round-trips on IEEE 754 bit patterns; the JSON writer of \<^verbatim>\<open>json_ordered.go\<close> announces the exact length.
  \<^item> \<open>Contents\<close>, \<open>Items\<close>: \<^verbatim>\<open>content_types.go\<close>, \<^verbatim>\<open>item.go\<close>, \<^verbatim>\<open>gc.go\<close>, \<^verbatim>\<open>struct_store.go\<close>. The record \<open>trans\<close> holds the heap of items, the types and the structs
    of every client. \<open>Integration\<close> and \<open>Convergence\<close> show that the conflict scan ends and links the item between its neighbours, and that the runs of several
    clients typed into one gap end up in the same order on every replica; \<open>Splitting\<close> that splits are invisible and undone by merging; \<open>Deletion\<close> that
    the cascade into nested types ends and misses nothing.
  \<^item> \<open>StoreEffects\<close>, \<open>Applying\<close>: \<^verbatim>\<open>integrateStructs\<close> of \<^verbatim>\<open>merge.go\<close>, the work loop that applies the structs of an update. What resolving and integrating an item do to
    the store is shown for any item; the loop ends, loses no struct of an update whose dependencies have no circle, and applies a complete update completely. A
    forged update with a circle loses a struct (\<open>circle_loses_struct\<close>).
  \<^item> \<open>StructCodec\<close>, \<open>StructRoundtrip\<close>, \<open>UpdateDecode\<close>, \<open>LazyUpdates\<close>, \<open>UpdateRoundtrip\<close>, \<open>UpdateDiff\<close>: the V1 update format (\<^verbatim>\<open>update_encoder.go\<close>,
    \<^verbatim>\<open>update_decoder.go\<close>, \<^verbatim>\<open>struct_decode.go\<close>, \<^verbatim>\<open>updates.go\<close>). Every struct round-trips, writing from an offset is slicing, decoding ends on every input within
    the caps, whole updates round-trip through the lazy writer, and the difference to a state vector holds exactly what is missing.
  \<^item> \<open>Awareness\<close>: \<^verbatim>\<open>awareness.go\<close>. Merging remote states converges whatever the order, keeps the local state and is all-or-nothing.
  \<^item> \<open>Protocol\<close>: the package \<^verbatim>\<open>protocol\<close>. The handshake brings two documents together, a panicking document does not leave the handler, inspection agrees
    with decoding.
  \<^item> \<open>Registry\<close>: \<^verbatim>\<open>backend/memory/registry.go\<close> as a step relation over its critical sections, with safety and drainage in every interleaving.

  \<^bold>\<open>Bounds and fuel.\<close> The any-value decoder has the depth limit of the code (101 levels of recursion). The cursor over an update runs for the number of
  its bytes and two more turns; \<open>decodeUpdate_total\<close> shows that each turn consumes a byte, so this is never used up. The conflict scan and the walks along
  pointers are partial functions, with \<open>None\<close> for not returning, and the deletion cascade takes the number of nesting levels as fuel; \<open>integrate_between\<close>,
  \<open>clean_split\<close> and \<open>delete_cascade\<close> state that they return. All other recursion is structural or has a measure.

  \<^bold>\<open>Parameters.\<close> \<^verbatim>\<open>encoding/json\<close> is not part of the program: \<open>jm\<close> marshals a scalar and \<open>uj\<close> parses a text, and a round trip assumes that \<open>uj\<close>
  inverts what was written. \<open>pr\<close> resolves a parent that lives in a document. Time is an argument. The document behind the protocol handler is the
  record \<open>doc_ops\<close> of the three functions it calls; its laws in the handshake are those of a state-based document.

  \<^bold>\<open>Not modelled.\<close> The chunked and tree containers behind a client of the store (it is the sequence they represent); the V2 struct columns put together and the
  preallocating V1 encoder; the eager decode of an update into a
  document, the pending buffers of a document and the retry over them; the merge of several updates, size-bounded splitting and
  conversion; transactions, events and the user-facing types; position indexes, relative positions, snapshots and undo; the persistence
  interfaces; conformance suites, oracles and benches, which are tests.
\<close>

end
